(* ===== verification/Prelude.thy ===== *)
theory Prelude
  imports Main "HOL-Library.Word" "HOL-Library.AList" "HOL-Library.Monad_Syntax"
begin

text \<open>
  What the components of the Stream Mill development share: the types that stand for C
  values, the reading of undefined behaviour, and the generic lemmas on association lists,
  byte lists and folds that the component proofs use.

  \<^item> A function of the model whose source can dereference a null pointer, read past the end of
    an area or read an uninitialised value returns an option, and \<open>None\<close> is that undefined
    behaviour. Error returns of the source are values, never \<open>None\<close>.
  \<^item> A byte of memory is a \<open>cell\<close>: \<open>None\<close> is a byte that was never written.
  \<^item> A pointer is a natural number, a null pointer is \<open>None\<close> of an option.
  \<^item> C \<open>int\<close> values that are counters, sizes and return codes are mathematical integers; where
    the width matters they are words.
\<close>

section \<open>Types\<close>

type_synonym cell = "char option"
type_synonym mem = "cell list"
type_synonym addr = nat
type_synonym bptr = nat
type_synonym sptr = nat

text \<open>The size of the string buffers (\<open>const.h\<close>).\<close>

definition MAX_STR_LEN :: int where
  "MAX_STR_LEN = 40960"

section \<open>Collections\<close>

named_theorems dbt_simps \<open>views of tuples\<close>
named_theorems buf_simps \<open>laws of the buffer operations\<close>
named_theorems tbl_simps \<open>laws of the state table\<close>
named_theorems frame_simps \<open>what an operation leaves unchanged\<close>

section \<open>Option as the monad of undefined behaviour\<close>

lemma bind_eq_Some_iff [simp]:
  "(m \<bind> f = Some y) \<longleftrightarrow> (\<exists>x. m = Some x \<and> f x = Some y)"
  by (cases m) auto

definition guard :: "bool \<Rightarrow> unit option" where
  "guard b = (if b then Some () else None)"

lemma guard_eq_Some [simp]: "guard b = Some u \<longleftrightarrow> b"
  by (simp add: guard_def)

text \<open>
  Code whose calls need not end takes fuel: \<open>NoFuel\<close> says that it was used up, \<open>Crash\<close> is
  undefined behaviour.
\<close>

datatype 'a outcome = Ret 'a | Crash | NoFuel

section \<open>Memory areas\<close>

definition malloc_area :: "nat \<Rightarrow> mem" where
  "malloc_area n = replicate n None"

definition memcpy :: "mem \<Rightarrow> mem \<Rightarrow> nat \<Rightarrow> mem option" where
  "memcpy dst src n =
     (if n \<le> length dst \<and> n \<le> length src then Some (take n src @ drop n dst) else None)"

lemma length_malloc_area [simp]: "length (malloc_area n) = n"
  by (simp add: malloc_area_def)

lemma memcpy_Some [simp]:
  "memcpy dst src n = Some m \<longleftrightarrow>
     n \<le> length dst \<and> n \<le> length src \<and> m = take n src @ drop n dst"
  by (auto simp: memcpy_def)

lemma memcpy_fits:
  "n \<le> length dst \<Longrightarrow> n \<le> length src \<Longrightarrow> memcpy dst src n = Some (take n src @ drop n dst)"
  by simp

lemma take_memcpy [simp]: "n \<le> length src \<Longrightarrow> take n (take n src @ rest) = take n src"
  by simp

section \<open>Little-endian bytes\<close>

fun le_bytes :: "nat \<Rightarrow> nat \<Rightarrow> char list" where
  "le_bytes 0 v = []"
| "le_bytes (Suc n) v = char_of (v mod 256) # le_bytes n (v div 256)"

fun le_val :: "char list \<Rightarrow> nat" where
  "le_val [] = 0"
| "le_val (c # cs) = of_char c + 256 * le_val cs"

lemma length_le_bytes [simp]: "length (le_bytes n v) = n"
  by (induction n arbitrary: v) auto

lemma le_val_bytes: "le_val (le_bytes n v) = v mod 256 ^ n"
proof (induction n arbitrary: v)
  case 0
  show ?case by simp
next
  case (Suc n)
  have "le_val (le_bytes (Suc n) v) = v mod 256 + 256 * ((v div 256) mod 256 ^ n)"
    by (simp add: Suc.IH)
  also have "\<dots> = v mod (256 * 256 ^ n)"
    by (simp add: mod_mult2_eq)
  finally show ?case by simp
qed

text \<open>The bytes of a 32-bit integer, and back.\<close>

definition enc32 :: "32 word \<Rightarrow> char list" where
  "enc32 w = le_bytes 4 (unat w)"

definition dec32 :: "char list \<Rightarrow> 32 word" where
  "dec32 cs = of_nat (le_val cs)"

lemma length_enc32 [simp]: "length (enc32 w) = 4"
  by (simp add: enc32_def)

lemma dec32_enc32 [simp]: "dec32 (enc32 w) = w"
proof -
  have "unat w < 2 ^ LENGTH(32)" by (rule unsigned_less)
  then have "unat w mod 256 ^ 4 = unat w" by simp
  then show ?thesis by (simp add: dec32_def enc32_def le_val_bytes)
qed

text \<open>The conversion to a 32-bit signed integer.\<close>

definition int32 :: "int \<Rightarrow> int" where
  "int32 z = sint (word_of_int z :: 32 word)"

lemma int32_id: "- (2 ^ 31) \<le> z \<Longrightarrow> z < 2 ^ 31 \<Longrightarrow> int32 z = z"
  by (simp add: int32_def signed_of_int signed_take_bit_int_eq_self)

section \<open>C strings\<close>

definition nul :: char where
  "nul = CHR 0x00"

text \<open>\<open>strcpy\<close> and \<open>strlen\<close> read initialised bytes up to the first NUL.\<close>

fun cstr :: "mem \<Rightarrow> string option" where
  "cstr [] = None"
| "cstr (None # m) = None"
| "cstr (Some c # m) = (if c = nul then Some [] else map_option ((#) c) (cstr m))"

definition str_bytes :: "string \<Rightarrow> mem" where
  "str_bytes s = map Some (s @ [nul])"

lemma length_str_bytes [simp]: "length (str_bytes s) = length s + 1"
  by (simp add: str_bytes_def)

lemma cstr_str_bytes [simp]: "nul \<notin> set s \<Longrightarrow> cstr (str_bytes s @ m) = Some s"
  by (induction s) (auto simp: str_bytes_def)

section \<open>Association lists\<close>

text \<open>
  The hash tables of the source are association lists with distinct keys: \<open>AList.update\<close>
  replaces in place or appends, \<open>AList.delete\<close> removes.
\<close>

lemma map_of_update [simp]: "map_of (AList.update k v al) = (map_of al)(k \<mapsto> v)"
  by (rule update_conv')

lemma map_of_delete [simp]: "map_of (AList.delete k al) k' = (if k' = k then None else map_of al k')"
  by (simp add: delete_conv)

lemma distinct_keys_update [simp]: "distinct (map fst al) \<Longrightarrow> distinct (map fst (AList.update k v al))"
  by (rule distinct_update)

lemma distinct_keys_delete [simp]: "distinct (map fst al) \<Longrightarrow> distinct (map fst (AList.delete k al))"
  by (rule distinct_delete)

lemma set_update_distinct:
  assumes "distinct (map fst al)"
  shows "p \<in> set (AList.update k v al) \<longleftrightarrow> p = (k, v) \<or> (fst p \<noteq> k \<and> p \<in> set al)"
proof (cases p)
  case (Pair a b)
  have "p \<in> set (AList.update k v al) \<longleftrightarrow> map_of (AList.update k v al) a = Some b"
    using assms Pair by (simp del: map_of_update)
  also have "\<dots> \<longleftrightarrow> (a = k \<and> b = v) \<or> (a \<noteq> k \<and> map_of al a = Some b)"
    by auto
  finally show ?thesis
    using assms Pair by auto
qed

section \<open>Folds that can fail\<close>

fun foldM :: "('a \<Rightarrow> 's \<Rightarrow> 's option) \<Rightarrow> 'a list \<Rightarrow> 's \<Rightarrow> 's option" where
  "foldM f [] s = Some s"
| "foldM f (x # xs) s = f x s \<bind> foldM f xs"

lemma foldM_append [simp]: "foldM f (xs @ ys) s = foldM f xs s \<bind> foldM f ys"
  by (induction xs arbitrary: s) (auto split: bind_splits)

lemma foldM_invariant:
  assumes "foldM f xs s = Some s'" and "P s"
    and "\<And>x s s'. x \<in> set xs \<Longrightarrow> P s \<Longrightarrow> f x s = Some s' \<Longrightarrow> P s'"
  shows "P s'"
  using assms by (induction xs arbitrary: s) auto

end
