(* ===== verification/Dbt.thy ===== *)
theory Dbt
  imports Prelude
begin

text \<open>
  Tuples (\<open>sql/esl/dbt.h\<close>, \<open>sql/esl/dbt.cc\<close>) and time stamps (\<open>timeval_cmp\<close> and the integer
  arithmetic of \<open>sql/adllib.cc\<close>). A \<open>dbt\<close> owns two areas, the key and the data, of which the
  first \<open>keysz\<close> and \<open>datasz\<close> bytes are the tuple, and an arrival time. \<open>cDBT\<close> objects live in
  the heap, \<open>sDBT\<close> objects in the shared pool, where they also carry the link to the next
  tuple of a buffer. The view of a tuple is what its readers see: the two byte strings and the
  time stamp.
\<close>

section \<open>Time stamps\<close>

datatype timestamp = Timestamp (tv_sec: int) (tv_usec: int)

instantiation timestamp :: linorder
begin

definition less_eq_timestamp :: "timestamp \<Rightarrow> timestamp \<Rightarrow> bool" where
  "less_eq_timestamp x y \<longleftrightarrow> tv_sec x < tv_sec y \<or> (tv_sec x = tv_sec y \<and> tv_usec x \<le> tv_usec y)"

definition less_timestamp :: "timestamp \<Rightarrow> timestamp \<Rightarrow> bool" where
  "less_timestamp x y \<longleftrightarrow> tv_sec x < tv_sec y \<or> (tv_sec x = tv_sec y \<and> tv_usec x < tv_usec y)"

instance
  by standard (auto simp: less_eq_timestamp_def less_timestamp_def intro: timestamp.expand)

end

definition timeval_cmp :: "timestamp \<Rightarrow> timestamp \<Rightarrow> int" where
  "timeval_cmp x y =
     (let result = tv_sec x - tv_sec y
      in if result \<noteq> 0 then int32 result else int32 (tv_usec x - tv_usec y))"

definition timeval_add_int :: "timestamp \<Rightarrow> int \<Rightarrow> timestamp" where
  "timeval_add_int t secs = Timestamp (tv_sec t + secs) (tv_usec t)"

definition timeval_subtract_int :: "timestamp \<Rightarrow> int \<Rightarrow> timestamp" where
  "timeval_subtract_int t secs = Timestamp (tv_sec t - secs) (tv_usec t)"

definition int_subtract_timeval :: "int \<Rightarrow> timestamp \<Rightarrow> timestamp" where
  "int_subtract_timeval secs t =
     Timestamp (secs - tv_sec t - (if tv_usec t = 0 then 0 else 1)) (1000000 - tv_usec t)"

section \<open>Tuples\<close>

record DBT =
  DBT_data :: mem
  DBT_size :: int

record dbt =
  key :: "mem option"
  keysz :: int
  data :: "mem option"
  datasz :: int
  atime :: "timestamp option"

record sDBT = dbt +
  "next" :: "addr option"

definition TS_SZ :: int where
  "TS_SZ = 8"

text \<open>The allocation of a key or a data area with its initial contents, common to every \<open>init\<close>.\<close>

definition area_init :: "mem option \<Rightarrow> int \<Rightarrow> mem option option" where
  "area_init src sz =
     (if sz > 0 then
        (case src of None \<Rightarrow> Some (Some (malloc_area (nat sz)))
         | Some m \<Rightarrow> map_option Some (memcpy (malloc_area (nat sz)) m (nat sz)))
      else Some None)"

definition cDBT_init ::
  "mem option \<Rightarrow> int \<Rightarrow> timestamp option \<Rightarrow> mem option \<Rightarrow> int \<Rightarrow> dbt option" where
  "cDBT_init d dsz a k ksz = do {
     k' \<leftarrow> area_init k ksz;
     d' \<leftarrow> area_init d dsz;
     Some \<lparr>key = k', keysz = ksz, data = d', datasz = dsz, atime = a\<rparr>
   }"

definition cDBT_of_dbt :: "'a dbt_scheme \<Rightarrow> dbt option" where
  "cDBT_of_dbt d = cDBT_init (data d) (datasz d) (atime d) (key d) (keysz d)"

definition cDBT_of_DBT :: "DBT \<Rightarrow> timestamp option \<Rightarrow> DBT option \<Rightarrow> dbt option" where
  "cDBT_of_DBT d a k =
     (case k of None \<Rightarrow> None
      | Some k \<Rightarrow> cDBT_init (Some (DBT_data d)) (DBT_size d) a (Some (DBT_data k)) (DBT_size k))"

definition cDBT_space :: "int \<Rightarrow> timestamp option \<Rightarrow> int \<Rightarrow> dbt option" where
  "cDBT_space dsz a ksz = cDBT_init None dsz a None ksz"

text \<open>
  \<open>sDBT::init\<close>: as above, in the shared pool; \<open>mm_ok\<close> tells whether the pool can serve a
  request of a size. A failed request leaves the rest of the object uninitialised.
\<close>

definition sDBT_init ::
  "(int \<Rightarrow> bool) \<Rightarrow> mem option \<Rightarrow> int \<Rightarrow> timestamp option \<Rightarrow> addr option \<Rightarrow> mem option \<Rightarrow> int
     \<Rightarrow> sDBT option" where
  "sDBT_init mm_ok d dsz a n k ksz = do {
     guard (ksz > 0 \<longrightarrow> mm_ok ksz);
     k' \<leftarrow> area_init k ksz;
     guard (dsz > 0 \<longrightarrow> mm_ok dsz);
     d' \<leftarrow> area_init d dsz;
     guard (a \<noteq> None \<longrightarrow> mm_ok TS_SZ);
     Some \<lparr>key = k', keysz = ksz, data = d', datasz = dsz, atime = a, next = n\<rparr>
   }"

definition sDBT_of_dbt :: "(int \<Rightarrow> bool) \<Rightarrow> 'a dbt_scheme \<Rightarrow> sDBT option" where
  "sDBT_of_dbt mm_ok d = sDBT_init mm_ok (data d) (datasz d) (atime d) None (key d) (keysz d)"

definition sDBT_of_DBT ::
  "(int \<Rightarrow> bool) \<Rightarrow> DBT \<Rightarrow> timestamp option \<Rightarrow> DBT option \<Rightarrow> sDBT option" where
  "sDBT_of_DBT mm_ok d a k =
     (case k of None \<Rightarrow> None
      | Some k \<Rightarrow> sDBT_init mm_ok (Some (DBT_data d)) (DBT_size d) a None (Some (DBT_data k)) (DBT_size k))"

definition dbt_setTime :: "'a dbt_scheme \<Rightarrow> timestamp option \<Rightarrow> 'a dbt_scheme" where
  "dbt_setTime d a = (if a \<noteq> None \<and> atime d \<noteq> None then d\<lparr>atime := a\<rparr> else d)"

text \<open>
  \<open>dbt::copy(const dbt*)\<close>. A missing key area is reported and then written to all the same; a
  missing data area or time stamp is reported and skipped.
\<close>

definition copy_key :: "'a dbt_scheme \<Rightarrow> 'b dbt_scheme \<Rightarrow> mem option option" where
  "copy_key dst d =
     (case key d of
        None \<Rightarrow> Some (key dst)
      | Some m \<Rightarrow>
          if keysz d > 0 then
            (case key dst of None \<Rightarrow> None
             | Some m' \<Rightarrow> map_option Some (memcpy m' m (nat (keysz d))))
          else Some (key dst))"

definition copy_data :: "'a dbt_scheme \<Rightarrow> 'b dbt_scheme \<Rightarrow> mem option option" where
  "copy_data dst d =
     (case data d of
        None \<Rightarrow> Some (data dst)
      | Some m \<Rightarrow>
          if datasz d > 0 then
            (case data dst of None \<Rightarrow> Some None
             | Some m' \<Rightarrow> map_option Some (memcpy m' m (nat (datasz d))))
          else Some (data dst))"

definition copy_atime :: "'a dbt_scheme \<Rightarrow> 'b dbt_scheme \<Rightarrow> timestamp option" where
  "copy_atime dst d =
     (case atime d of None \<Rightarrow> atime dst
      | Some t \<Rightarrow> (case atime dst of None \<Rightarrow> None | Some _ \<Rightarrow> Some t))"

definition dbt_copy :: "'a dbt_scheme \<Rightarrow> 'b dbt_scheme \<Rightarrow> 'a dbt_scheme option" where
  "dbt_copy dst d = do {
     k \<leftarrow> copy_key dst d;
     m \<leftarrow> copy_data dst d;
     Some (dst\<lparr>keysz := keysz d, datasz := datasz d, key := k, data := m, atime := copy_atime dst d\<rparr>)
   }"

definition dbt_copy_DBT ::
  "'a dbt_scheme \<Rightarrow> DBT \<Rightarrow> timestamp \<Rightarrow> DBT \<Rightarrow> 'a dbt_scheme option" where
  "dbt_copy_DBT dst d t k = do {
     km \<leftarrow> key dst;
     km' \<leftarrow> memcpy km (DBT_data k) (nat (DBT_size k));
     dm \<leftarrow> data dst;
     dm' \<leftarrow> memcpy dm (DBT_data d) (nat (DBT_size d));
     _ \<leftarrow> atime dst;
     Some (dst\<lparr>keysz := DBT_size k, key := Some km', datasz := DBT_size d, data := Some dm',
               atime := Some t\<rparr>)
   }"

text \<open>The bytes of a \<open>struct timeval\<close>, and \<open>dbt::recoverTS\<close>, which reads them at the end of the data.\<close>

definition ts_bytes :: "timestamp \<Rightarrow> mem" where
  "ts_bytes t = map Some (enc32 (word_of_int (tv_sec t)) @ enc32 (word_of_int (tv_usec t)))"

definition ts_of_bytes :: "mem \<Rightarrow> timestamp option" where
  "ts_of_bytes m =
     (if length m = 8 \<and> None \<notin> set m
      then Some (Timestamp (sint (dec32 (map the (take 4 m)))) (sint (dec32 (map the (drop 4 m)))))
      else None)"

definition recoverTS :: "'a dbt_scheme \<Rightarrow> 'a dbt_scheme option" where
  "recoverTS d = do {
     m \<leftarrow> data d;
     let n = nat (datasz d - TS_SZ);
     guard (TS_SZ \<le> datasz d \<and> n + 8 \<le> length m);
     t \<leftarrow> ts_of_bytes (take 8 (drop n m));
     _ \<leftarrow> atime d;
     Some (d\<lparr>datasz := datasz d - TS_SZ, atime := Some t, data := Some (m[n := Some nul])\<rparr>)
   }"

text \<open>
  \<open>dbt::get\<close> and \<open>sDBT::get\<close>: the data and the time stamp are copied out, the key is not. Either
  destination may be a null pointer; a stamp without a destination is undefined behaviour.
\<close>

definition dbt_get ::
  "'a dbt_scheme \<Rightarrow> DBT option \<Rightarrow> timestamp option \<Rightarrow> (int \<times> DBT option \<times> timestamp option) option" where
  "dbt_get d out a = do {
     out' \<leftarrow> (case out of None \<Rightarrow> Some None
             | Some D \<Rightarrow> do {
                 m \<leftarrow> (case data d of None \<Rightarrow> Some (DBT_data D)
                       | Some m \<Rightarrow> memcpy (DBT_data D) m (nat (datasz d)));
                 Some (Some \<lparr>DBT_data = m, DBT_size = datasz d\<rparr>)
               });
     guard (atime d \<noteq> None \<longrightarrow> a \<noteq> None);
     Some (0, out', if atime d = None then a else atime d)
   }"

section \<open>Views\<close>

definition area_ok :: "mem option \<Rightarrow> int \<Rightarrow> bool" where
  "area_ok m sz \<longleftrightarrow> (case m of None \<Rightarrow> sz = 0 | Some m \<Rightarrow> 0 < sz \<and> nat sz \<le> length m)"

definition dbt_ok :: "'a dbt_scheme \<Rightarrow> bool" where
  "dbt_ok d \<longleftrightarrow> area_ok (key d) (keysz d) \<and> area_ok (data d) (datasz d)"

definition area_view :: "mem option \<Rightarrow> int \<Rightarrow> mem" where
  "area_view m sz = (case m of None \<Rightarrow> [] | Some m \<Rightarrow> take (nat sz) m)"

type_synonym tuple = "mem \<times> mem \<times> timestamp option"

definition view :: "'a dbt_scheme \<Rightarrow> tuple" where
  "view d = (area_view (key d) (keysz d), area_view (data d) (datasz d), atime d)"

text \<open>The destination areas a copy needs.\<close>

definition fits :: "'a dbt_scheme \<Rightarrow> 'b dbt_scheme \<Rightarrow> bool" where
  "fits d dst \<longleftrightarrow>
     (key d \<noteq> None \<longrightarrow> (\<exists>m. key dst = Some m \<and> keysz d \<le> int (length m))) \<and>
     (data d \<noteq> None \<longrightarrow> (\<exists>m. data dst = Some m \<and> datasz d \<le> int (length m))) \<and>
     (atime d \<noteq> None \<and> atime dst \<noteq> None)"

section \<open>Lemmas\<close>

lemma timeval_cmp_sign:
  assumes "\<bar>tv_sec x - tv_sec y\<bar> < 2 ^ 31" "\<bar>tv_usec x - tv_usec y\<bar> < 2 ^ 31"
  shows "timeval_cmp x y < 0 \<longleftrightarrow> x < y" "timeval_cmp x y = 0 \<longleftrightarrow> x = y" "0 < timeval_cmp x y \<longleftrightarrow> y < x"
proof -
  have "int32 (tv_sec x - tv_sec y) = tv_sec x - tv_sec y" "int32 (tv_usec x - tv_usec y) = tv_usec x - tv_usec y"
    using assms by (auto intro!: int32_id)
  then show "timeval_cmp x y < 0 \<longleftrightarrow> x < y" "timeval_cmp x y = 0 \<longleftrightarrow> x = y" "0 < timeval_cmp x y \<longleftrightarrow> y < x"
    by (auto simp: timeval_cmp_def less_timestamp_def intro: timestamp.expand)
qed

lemma timestamp_greater_iff:
  "y < x \<longleftrightarrow> tv_sec x > tv_sec y \<or> (tv_sec x = tv_sec y \<and> tv_usec x > tv_usec y)"
  by (auto simp: less_timestamp_def)

lemma area_init_ok:
  assumes "area_ok m sz"
  obtains m' where "area_init m sz = Some m'" "area_ok m' sz" "area_view m' sz = area_view m sz"
  using assms by (cases m) (auto simp: area_ok_def area_init_def area_view_def)

lemma cDBT_of_dbt_view:
  assumes "dbt_ok d"
  obtains c where "cDBT_of_dbt d = Some c" "dbt_ok c" "view c = view d"
proof -
  obtain k where k: "area_init (key d) (keysz d) = Some k" "area_ok k (keysz d)"
    "area_view k (keysz d) = area_view (key d) (keysz d)"
    using assms area_init_ok unfolding dbt_ok_def by metis
  obtain m where m: "area_init (data d) (datasz d) = Some m" "area_ok m (datasz d)"
    "area_view m (datasz d) = area_view (data d) (datasz d)"
    using assms area_init_ok unfolding dbt_ok_def by metis
  show thesis
    by (rule that [of "\<lparr>key = k, keysz = keysz d, data = m, datasz = datasz d, atime = atime d\<rparr>"])
       (use k m in \<open>auto simp: cDBT_of_dbt_def cDBT_init_def dbt_ok_def view_def\<close>)
qed

lemma sDBT_of_dbt_view:
  assumes "dbt_ok d" and "\<And>n. mm_ok n"
  obtains c where "sDBT_of_dbt mm_ok d = Some c" "dbt_ok c" "view c = view d" "next c = None"
proof -
  obtain k where k: "area_init (key d) (keysz d) = Some k" "area_ok k (keysz d)"
    "area_view k (keysz d) = area_view (key d) (keysz d)"
    using assms area_init_ok unfolding dbt_ok_def by metis
  obtain m where m: "area_init (data d) (datasz d) = Some m" "area_ok m (datasz d)"
    "area_view m (datasz d) = area_view (data d) (datasz d)"
    using assms area_init_ok unfolding dbt_ok_def by metis
  show thesis
    by (rule that [of "\<lparr>key = k, keysz = keysz d, data = m, datasz = datasz d, atime = atime d,
                        next = None\<rparr>"])
       (use k m assms(2) in \<open>auto simp: sDBT_of_dbt_def sDBT_init_def dbt_ok_def view_def guard_def\<close>)
qed

lemma dbt_copy_view:
  assumes "dbt_ok d" and "fits d dst"
  obtains c where "dbt_copy dst d = Some c" "view c = view d" "fits e dst \<Longrightarrow> fits e c"
    "keysz c = keysz d" "datasz c = datasz d" "atime c = atime d"
proof -
  obtain k where k: "copy_key dst d = Some k" "area_view k (keysz d) = area_view (key d) (keysz d)"
    "\<And>m. key dst = Some m \<Longrightarrow> \<exists>m'. k = Some m' \<and> length m' = length m"
    using assms
    by (cases "key d"; cases "key dst")
       (auto simp: copy_key_def dbt_ok_def area_ok_def fits_def area_view_def)
  obtain m where m: "copy_data dst d = Some m" "area_view m (datasz d) = area_view (data d) (datasz d)"
    "\<And>x. data dst = Some x \<Longrightarrow> \<exists>x'. m = Some x' \<and> length x' = length x"
    using assms
    by (cases "data d"; cases "data dst")
       (auto simp: copy_data_def dbt_ok_def area_ok_def fits_def area_view_def)
  have t: "copy_atime dst d = atime d"
    using assms by (auto simp: copy_atime_def fits_def)
  let ?c = "dst\<lparr>keysz := keysz d, datasz := datasz d, key := k, data := m, atime := copy_atime dst d\<rparr>"
  show thesis
  proof (rule that [of ?c])
    show "fits e dst \<Longrightarrow> fits e ?c"
      using k(3) m(3) assms(2) t by (fastforce simp: fits_def)
  qed (use k(1,2) m(1,2) t in \<open>auto simp: dbt_copy_def view_def\<close>)
qed

end
