(* ===== verification/Buffer.thy ===== *)
theory Buffer
  imports Dbt
begin

text \<open>
  Buffers between statements (\<open>sql/esl/buffer.h\<close>, \<open>sql/esl/buffer.cc\<close>). The fields every buffer
  has, the heap buffer \<open>commonBuf\<close> (a deque of tuples) and the shared-memory buffer
  \<open>sharedBuf\<close> (a linked list of \<open>sDBT\<close> nodes in the pool of libmm). The locale
  \<open>fifo_buffer\<close> is what the rest of the engine relies on: a buffer is a queue of tuple views.
  Both classes are interpretations of it.

  The allocator of the pool is a parameter: \<open>mm_malloc\<close> returns the address of a node or fails,
  \<open>mm_ok\<close> tells whether a request for payload bytes can be served. The law the code relies on
  is \<open>mm_law\<close>: a block that is handed out is not in use.
\<close>

section \<open>Constants and the common fields\<close>

definition DB_NOTFOUND :: int where
  "DB_NOTFOUND = -30990"

definition ERR_BUFFER :: int where
  "ERR_BUFFER = 5"

datatype buf_t = NOT_SHARED | SHARED | BUF_STDOUT | BUF_BTREE | BUF_RECNO | WINBUF

datatype ts_type = TS_INTERNAL | TS_EXTERNAL | TS_LATENT

record GUIClient =
  clientIp :: string
  port :: int

record buffer_base =
  clients :: "GUIClient list"
  btype :: buf_t
  timestamp_type :: ts_type
  bname :: string
  mant :: "timestamp option"
  active :: bool

definition buffer_init :: "string \<Rightarrow> buf_t \<Rightarrow> buffer_base" where
  "buffer_init name_in shared_in =
     \<lparr>clients = [], btype = shared_in, timestamp_type = TS_INTERNAL, bname = name_in,
      mant = None, active = False\<rparr>"

definition isTable :: "buffer_base \<Rightarrow> bool" where
  "isTable b \<longleftrightarrow> btype b = BUF_BTREE \<or> btype b = BUF_RECNO"

definition addClient :: "GUIClient \<Rightarrow> buffer_base \<Rightarrow> buffer_base" where
  "addClient c b = b\<lparr>clients := clients b @ [c]\<rparr>"

text \<open>\<open>buffer::dropClient\<close> erases the first client with the same IP address.\<close>

fun erase_client :: "string \<Rightarrow> GUIClient list \<Rightarrow> GUIClient list option" where
  "erase_client ip [] = None"
| "erase_client ip (c # cs) =
     (if clientIp c = ip then Some cs else map_option ((#) c) (erase_client ip cs))"

definition dropClient :: "GUIClient \<Rightarrow> buffer_base \<Rightarrow> int \<times> buffer_base" where
  "dropClient c b =
     (case erase_client (clientIp c) (clients b) of
        None \<Rightarrow> (-1, b)
      | Some cs \<Rightarrow> (0, b\<lparr>clients := cs\<rparr>))"

definition setMant :: "timestamp option \<Rightarrow> buffer_base \<Rightarrow> int \<times> buffer_base" where
  "setMant t b = (case t of None \<Rightarrow> (0, b) | Some t \<Rightarrow> (0, b\<lparr>mant := Some t\<rparr>))"

text \<open>
  \<open>buffer::getMant\<close> with its destination: a null destination when a state is set falls off the
  end of the function, so that its return value is indeterminate.
\<close>

definition getMant :: "timestamp option \<Rightarrow> buffer_base \<Rightarrow> (int \<times> timestamp option) option" where
  "getMant out b =
     (case (out, mant b) of
        (Some _, Some t) \<Rightarrow> Some (0, Some t)
      | (_, None) \<Rightarrow> Some (-1, out)
      | (None, Some _) \<Rightarrow> None)"

definition SetActive :: "bool \<Rightarrow> buffer_base \<Rightarrow> buffer_base" where
  "SetActive val b = b\<lparr>active := val\<rparr>"

section \<open>commonBuf\<close>

text \<open>
  The deque of a \<open>commonBuf\<close>, front first. On an empty deque the source reads \<open>b.front()\<close> before
  it tests \<open>b.empty()\<close> and discards the value, so \<open>get\<close> returns \<open>DB_NOTFOUND\<close>; \<open>pop\<close> of an
  empty deque deletes what it read and is undefined.
\<close>

definition commonBuf_put :: "dbt list \<Rightarrow> 'a dbt_scheme \<Rightarrow> (int \<times> dbt list) option" where
  "commonBuf_put b d = do { c \<leftarrow> cDBT_of_dbt d; Some (0, b @ [c]) }"

definition commonBuf_put_DBT ::
  "dbt list \<Rightarrow> DBT \<Rightarrow> timestamp option \<Rightarrow> DBT option \<Rightarrow> (int \<times> dbt list) option" where
  "commonBuf_put_DBT b d t k = do { c \<leftarrow> cDBT_of_DBT d t k; Some (0, b @ [c]) }"

definition commonBuf_get :: "dbt list \<Rightarrow> 'a dbt_scheme \<Rightarrow> (int \<times> 'a dbt_scheme) option" where
  "commonBuf_get b dst =
     (case b of [] \<Rightarrow> Some (DB_NOTFOUND, dst)
      | c # _ \<Rightarrow> do { dst' \<leftarrow> dbt_copy dst c; Some (0, dst') })"

definition scratch_DBT :: DBT where
  "scratch_DBT = \<lparr>DBT_data = malloc_area (nat MAX_STR_LEN), DBT_size = 0\<rparr>"

definition commonBuf_get_time ::
  "dbt list \<Rightarrow> timestamp option \<Rightarrow> (int \<times> timestamp option) option" where
  "commonBuf_get_time b t =
     (case b of [] \<Rightarrow> Some (DB_NOTFOUND, t)
      | c # _ \<Rightarrow> do { (_, _, t') \<leftarrow> dbt_get c (Some scratch_DBT) t; Some (0, t') })"

definition commonBuf_get_DBT ::
  "dbt list \<Rightarrow> DBT option \<Rightarrow> timestamp option \<Rightarrow> (int \<times> DBT option \<times> timestamp option) option" where
  "commonBuf_get_DBT b out t =
     (case b of [] \<Rightarrow> Some (DB_NOTFOUND, out, t)
      | c # _ \<Rightarrow> do { (_, out', t') \<leftarrow> dbt_get c out t; Some (0, out', t') })"

definition commonBuf_pop :: "dbt list \<Rightarrow> (int \<times> dbt list) option" where
  "commonBuf_pop b = (case b of [] \<Rightarrow> None | _ # b' \<Rightarrow> Some (0, b'))"

definition commonBuf_empty :: "dbt list \<Rightarrow> bool" where
  "commonBuf_empty b \<longleftrightarrow> b = []"

definition commonBuf_bufSize :: "dbt list \<Rightarrow> int" where
  "commonBuf_bufSize b = int (length b)"

definition commonBuf_bufByteSize :: "dbt list \<Rightarrow> int" where
  "commonBuf_bufByteSize b =
     (case b of [] \<Rightarrow> 0 | c # _ \<Rightarrow> int (length b) * (keysz c + datasz c))"

section \<open>The shared pool\<close>

text \<open>The blocks of the pool that hold tuples, and its lock.\<close>

record mm =
  nodes :: "(addr \<times> sDBT) list"
  locked :: bool

record mm_env =
  mm_malloc :: "mm \<Rightarrow> addr option"
  mm_ok :: "mm \<Rightarrow> int \<Rightarrow> bool"

definition mm_law :: "mm_env \<Rightarrow> bool" where
  "mm_law E \<longleftrightarrow> (\<forall>m p. mm_malloc E m = Some p \<longrightarrow> map_of (nodes m) p = None)"

definition mm_lock :: "mm \<Rightarrow> mm" where
  "mm_lock m = m\<lparr>locked := True\<rparr>"

definition mm_unlock :: "mm \<Rightarrow> mm" where
  "mm_unlock m = m\<lparr>locked := False\<rparr>"

section \<open>sharedBuf\<close>

record sharedBuf =
  head :: "addr option"
  tail :: "addr option"
  sn :: int

definition sharedBuf_init :: sharedBuf where
  "sharedBuf_init = \<lparr>head = None, tail = None, sn = 0\<rparr>"

definition sharedBuf_empty :: "sharedBuf \<Rightarrow> bool" where
  "sharedBuf_empty s \<longleftrightarrow> sn s = 0 \<or> head s = None"

text \<open>The critical section of both \<open>put\<close> operations: link the new node \<open>p\<close> at the tail.\<close>

definition sharedBuf_link :: "mm \<Rightarrow> sharedBuf \<Rightarrow> addr \<Rightarrow> (mm \<times> sharedBuf) option" where
  "sharedBuf_link m s p = do {
     let m = mm_lock m;
     (m, s) \<leftarrow>
       (if sn s = 0 then Some (m, s\<lparr>head := Some p, tail := Some p\<rparr>)
        else do {
          t \<leftarrow> tail s;
          td \<leftarrow> map_of (nodes m) t;
          Some (m\<lparr>nodes := AList.update t (td\<lparr>next := Some p\<rparr>) (nodes m)\<rparr>, s\<lparr>tail := Some p\<rparr>)
        });
     Some (mm_unlock m, s\<lparr>sn := sn s + 1\<rparr>)
   }"

definition sharedBuf_put ::
  "mm_env \<Rightarrow> mm \<Rightarrow> sharedBuf \<Rightarrow> 'a dbt_scheme \<Rightarrow> (int \<times> mm \<times> sharedBuf) option" where
  "sharedBuf_put E m s d =
     (case mm_malloc E m of
        None \<Rightarrow> Some (ERR_BUFFER, mm_unlock m, s)
      | Some p \<Rightarrow> do {
          sd \<leftarrow> sDBT_of_dbt (mm_ok E m) d;
          (m, s) \<leftarrow> sharedBuf_link (m\<lparr>nodes := AList.update p sd (nodes m)\<rparr>) s p;
          Some (0, m, s)
        })"

definition sharedBuf_put_DBT ::
  "mm_env \<Rightarrow> mm \<Rightarrow> sharedBuf \<Rightarrow> DBT \<Rightarrow> timestamp option \<Rightarrow> DBT option \<Rightarrow> (int \<times> mm \<times> sharedBuf) option" where
  "sharedBuf_put_DBT E m s d t k =
     (case mm_malloc E m of
        None \<Rightarrow> Some (ERR_BUFFER, mm_unlock m, s)
      | Some p \<Rightarrow> do {
          sd \<leftarrow> sDBT_of_DBT (mm_ok E m) d t k;
          (m, s) \<leftarrow> sharedBuf_link (m\<lparr>nodes := AList.update p sd (nodes m)\<rparr>) s p;
          Some (0, m, s)
        })"

definition sharedBuf_head :: "mm \<Rightarrow> sharedBuf \<Rightarrow> sDBT option" where
  "sharedBuf_head m s = head s \<bind> map_of (nodes m)"

definition sharedBuf_get :: "mm \<Rightarrow> sharedBuf \<Rightarrow> 'a dbt_scheme \<Rightarrow> (int \<times> 'a dbt_scheme) option" where
  "sharedBuf_get m s dst =
     (if sharedBuf_empty s then Some (DB_NOTFOUND, dst)
      else do { h \<leftarrow> sharedBuf_head m s; dst' \<leftarrow> dbt_copy dst h; Some (0, dst') })"

definition sharedBuf_get_time ::
  "mm \<Rightarrow> sharedBuf \<Rightarrow> timestamp option \<Rightarrow> (int \<times> timestamp option) option" where
  "sharedBuf_get_time m s t =
     (if sharedBuf_empty s then Some (DB_NOTFOUND, t)
      else do {
        h \<leftarrow> sharedBuf_head m s;
        (_, _, t') \<leftarrow> dbt_get h (Some scratch_DBT) t;
        Some (0, t')
      })"

definition sharedBuf_get_DBT ::
  "mm \<Rightarrow> sharedBuf \<Rightarrow> DBT option \<Rightarrow> timestamp option
     \<Rightarrow> (int \<times> DBT option \<times> timestamp option) option" where
  "sharedBuf_get_DBT m s out t =
     (if sharedBuf_empty s then Some (DB_NOTFOUND, out, t)
      else do {
        h \<leftarrow> sharedBuf_head m s;
        (_, out', t') \<leftarrow> dbt_get h out t;
        Some (0, out', t')
      })"

definition sharedBuf_pop :: "mm \<Rightarrow> sharedBuf \<Rightarrow> (int \<times> mm \<times> sharedBuf) option" where
  "sharedBuf_pop m s =
     (if sharedBuf_empty s then Some (ERR_BUFFER, m, s)
      else do {
        p \<leftarrow> head s;
        h \<leftarrow> map_of (nodes m) p;
        let m' = (mm_lock m)\<lparr>nodes := AList.delete p (nodes m)\<rparr>;
        Some (0, mm_unlock m', s\<lparr>head := next h, sn := sn s - 1\<rparr>)
      })"

definition sharedBuf_bufSize :: "sharedBuf \<Rightarrow> int" where
  "sharedBuf_bufSize s = sn s"

definition sharedBuf_bufByteSize :: "mm \<Rightarrow> sharedBuf \<Rightarrow> int option" where
  "sharedBuf_bufByteSize m s =
     (if sn s = 0 then Some 0
      else do { h \<leftarrow> sharedBuf_head m s; Some (sn s * (keysz h + datasz h)) })"

section \<open>The contract of a buffer\<close>

text \<open>
  The destination a tuple can be copied to by its view: a non-empty key or data needs an area of
  its size, and both sides carry a time stamp.
\<close>

definition fits_tuple :: "tuple \<Rightarrow> 'a dbt_scheme \<Rightarrow> bool" where
  "fits_tuple x dst =
     (case x of (k, m, t) \<Rightarrow>
        (k \<noteq> [] \<longrightarrow> (case key dst of None \<Rightarrow> False | Some a \<Rightarrow> length k \<le> length a)) \<and>
        (m \<noteq> [] \<longrightarrow> (case data dst of None \<Rightarrow> False | Some a \<Rightarrow> length m \<le> length a)) \<and>
        t \<noteq> None \<and> atime dst \<noteq> None)"

datatype bufop = Put dbt | Pop

text \<open>A sequence of operations on a buffer given by its \<open>put\<close> and \<open>pop\<close>; an error code stops it.\<close>

fun run_ops ::
  "('s \<Rightarrow> dbt \<Rightarrow> (int \<times> 's) option) \<Rightarrow> ('s \<Rightarrow> (int \<times> 's) option) \<Rightarrow> bufop list \<Rightarrow> 's \<Rightarrow> (int \<times> 's) option" where
  "run_ops put pop [] s = Some (0, s)"
| "run_ops put pop (Put d # ops) s = do {
     (rc, s') \<leftarrow> put s d;
     if rc = 0 then run_ops put pop ops s' else Some (rc, s')
   }"
| "run_ops put pop (Pop # ops) s = do {
     (rc, s') \<leftarrow> pop s;
     if rc = 0 then run_ops put pop ops s' else Some (rc, s')
   }"

text \<open>The queue the operations promise. \<open>None\<close> is a \<open>pop\<close> of the empty queue.\<close>

fun fifo_ops :: "bufop list \<Rightarrow> tuple list \<Rightarrow> tuple list option" where
  "fifo_ops [] q = Some q"
| "fifo_ops (Put d # ops) q = fifo_ops ops (q @ [view d])"
| "fifo_ops (Pop # ops) q = (case q of [] \<Rightarrow> None | _ # q' \<Rightarrow> fifo_ops ops q')"

definition ops_ok :: "bufop list \<Rightarrow> bool" where
  "ops_ok ops \<longleftrightarrow> (\<forall>d. Put d \<in> set ops \<longrightarrow> dbt_ok d)"

locale fifo_buffer =
  fixes put :: "'s \<Rightarrow> dbt \<Rightarrow> (int \<times> 's) option"
    and get :: "'s \<Rightarrow> dbt \<Rightarrow> (int \<times> dbt) option"
    and pop :: "'s \<Rightarrow> (int \<times> 's) option"
    and empty :: "'s \<Rightarrow> bool"
    and ready :: "'s \<Rightarrow> dbt \<Rightarrow> bool"
    and contents :: "'s \<Rightarrow> tuple list"
    and inv :: "'s \<Rightarrow> bool"
  assumes put_ok: "inv s \<Longrightarrow> dbt_ok d \<Longrightarrow> ready s d \<Longrightarrow>
      \<exists>s'. put s d = Some (0, s') \<and> inv s' \<and> contents s' = contents s @ [view d]"
    and put_any: "inv s \<Longrightarrow> dbt_ok d \<Longrightarrow> put s d = Some (rc, s') \<Longrightarrow>
      inv s' \<and> contents s' = (if rc = 0 then contents s @ [view d] else contents s)"
    and get_none: "inv s \<Longrightarrow> contents s = [] \<Longrightarrow> get s dst = Some (DB_NOTFOUND, dst)"
    and get_some: "inv s \<Longrightarrow> contents s = x # q \<Longrightarrow> fits_tuple x dst \<Longrightarrow>
      \<exists>dst'. get s dst = Some (0, dst') \<and> view dst' = x"
    and pop_ok: "inv s \<Longrightarrow> contents s = x # q \<Longrightarrow>
      \<exists>s'. pop s = Some (0, s') \<and> inv s' \<and> contents s' = q"
    and pop_none: "inv s \<Longrightarrow> contents s = [] \<Longrightarrow> pop s = Some (rc, s') \<Longrightarrow> rc \<noteq> 0"
    and empty_iff: "inv s \<Longrightarrow> empty s \<longleftrightarrow> contents s = []"
begin

text \<open>Every sequence of operations that is legal on the queue runs on the buffer and ends in it.\<close>

lemma run_ops_fifo:
  assumes "inv s" and "ops_ok ops" and "\<And>s d. inv s \<Longrightarrow> dbt_ok d \<Longrightarrow> ready s d"
    and "fifo_ops ops (contents s) = Some q"
  shows "\<exists>s'. run_ops put pop ops s = Some (0, s') \<and> inv s' \<and> contents s' = q"
  using assms(1,2,4)
proof (induction ops arbitrary: s)
  case Nil
  then show ?case by simp
next
  case (Cons a ops)
  then have ok: "ops_ok ops" by (simp add: ops_ok_def)
  show ?case
  proof (cases a)
    case (Put d)
    then have "dbt_ok d" using Cons.prems by (auto simp: ops_ok_def)
    with put_ok assms(3) Cons.prems obtain s' where
      "put s d = Some (0, s')" "inv s'" "contents s' = contents s @ [view d]" by blast
    with Cons.IH [of s'] Cons.prems ok Put show ?thesis by simp
  next
    case Pop
    then obtain x q' where c: "contents s = x # q'" "fifo_ops ops q' = Some q"
      using Cons.prems by (auto split: list.splits)
    with pop_ok Cons.prems obtain s' where "pop s = Some (0, s')" "inv s'" "contents s' = q'" by blast
    with Cons.IH [of s'] c ok Pop show ?thesis by simp
  qed
qed

text \<open>A run that ends without an error code did what the queue does, whatever the allocator served.\<close>

lemma run_ops_sound:
  assumes "inv s" and "ops_ok ops" and "run_ops put pop ops s = Some (0, s')"
  shows "inv s' \<and> fifo_ops ops (contents s) = Some (contents s')"
  using assms
proof (induction ops arbitrary: s)
  case Nil
  then show ?case by simp
next
  case (Cons a ops)
  then have ok: "ops_ok ops" by (simp add: ops_ok_def)
  show ?case
  proof (cases a)
    case (Put d)
    then have d: "dbt_ok d" using Cons.prems by (auto simp: ops_ok_def)
    from Put Cons.prems obtain s1 where s1: "put s d = Some (0, s1)" "run_ops put pop ops s1 = Some (0, s')"
      by (auto split: if_splits)
    with put_any [OF Cons.prems(1) d] have "inv s1" "contents s1 = contents s @ [view d]" by auto
    with Cons.IH [of s1] s1 ok Put show ?thesis by simp
  next
    case Pop
    with Cons.prems obtain s1 where s1: "pop s = Some (0, s1)" "run_ops put pop ops s1 = Some (0, s')"
      by (auto split: if_splits)
    with pop_none Cons.prems(1) obtain x q where c: "contents s = x # q" by (cases "contents s") auto
    with pop_ok Cons.prems(1) s1 have "inv s1" "contents s1 = q" by fastforce+
    with Cons.IH [of s1] s1 c ok Pop show ?thesis by simp
  qed
qed

text \<open>A tuple put into an empty buffer is the one that comes out, and then the buffer is empty.\<close>

lemma put_get_pop:
  assumes "inv s" "contents s = []" "dbt_ok d" "ready s d" "fits_tuple (view d) dst"
  shows "\<exists>s1 s2 dst'. put s d = Some (0, s1) \<and> \<not> empty s1 \<and> get s1 dst = Some (0, dst') \<and>
           view dst' = view d \<and> pop s1 = Some (0, s2) \<and> empty s2"
proof -
  obtain s1 where s1: "put s d = Some (0, s1)" "inv s1" "contents s1 = [view d]"
    using put_ok assms by force
  obtain dst' where "get s1 dst = Some (0, dst')" "view dst' = view d"
    using get_some s1 assms by blast
  moreover obtain s2 where "pop s1 = Some (0, s2)" "inv s2" "contents s2 = []"
    using pop_ok s1 by blast
  ultimately show ?thesis using s1 empty_iff by fastforce
qed

end

section \<open>commonBuf is a queue\<close>

lemma fits_tuple_iff: "dbt_ok d \<Longrightarrow> fits_tuple (view d) dst \<Longrightarrow> fits d dst"
  by (auto simp: fits_tuple_def fits_def view_def dbt_ok_def area_ok_def area_view_def
      split: option.splits)

lemma dbt_copy_tuple:
  assumes "dbt_ok d" "fits_tuple (view d) dst"
  shows "\<exists>c. dbt_copy dst d = Some c \<and> view c = view d"
  using dbt_copy_view [OF assms(1) fits_tuple_iff [OF assms]] by metis

definition commonBuf_inv :: "dbt list \<Rightarrow> bool" where
  "commonBuf_inv b \<longleftrightarrow> (\<forall>d \<in> set b. dbt_ok d)"

definition commonBuf_contents :: "dbt list \<Rightarrow> tuple list" where
  "commonBuf_contents b = map view b"

interpretation cb: fifo_buffer commonBuf_put commonBuf_get commonBuf_pop commonBuf_empty
  "\<lambda>_ _. True" commonBuf_contents commonBuf_inv
proof
  fix s :: "dbt list" and d :: dbt
  assume "commonBuf_inv s" "dbt_ok d"
  moreover obtain c where "cDBT_of_dbt d = Some c" "dbt_ok c" "view c = view d"
    using cDBT_of_dbt_view \<open>dbt_ok d\<close> .
  ultimately show "\<exists>s'. commonBuf_put s d = Some (0, s') \<and> commonBuf_inv s' \<and>
      commonBuf_contents s' = commonBuf_contents s @ [view d]"
    by (auto simp: commonBuf_put_def commonBuf_inv_def commonBuf_contents_def)
next
  fix s s' :: "dbt list" and d :: dbt and rc
  assume "commonBuf_inv s" "dbt_ok d" and put: "commonBuf_put s d = Some (rc, s')"
  moreover obtain c where "cDBT_of_dbt d = Some c" "dbt_ok c" "view c = view d"
    using cDBT_of_dbt_view \<open>dbt_ok d\<close> .
  ultimately show "commonBuf_inv s' \<and>
      commonBuf_contents s' = (if rc = 0 then commonBuf_contents s @ [view d] else commonBuf_contents s)"
    by (auto simp: commonBuf_put_def commonBuf_inv_def commonBuf_contents_def)
next
  fix s :: "dbt list" and x q and dst :: dbt
  assume "commonBuf_inv s" "commonBuf_contents s = x # q" "fits_tuple x dst"
  then show "\<exists>dst'. commonBuf_get s dst = Some (0, dst') \<and> view dst' = x"
    using dbt_copy_tuple [of _ dst]
    by (auto simp: commonBuf_get_def commonBuf_inv_def commonBuf_contents_def)
qed (auto simp: commonBuf_inv_def commonBuf_contents_def commonBuf_pop_def commonBuf_get_def
    commonBuf_empty_def)

section \<open>sharedBuf is a queue\<close>

text \<open>The addresses of the first \<open>k\<close> nodes from \<open>p\<close> on.\<close>

fun chain :: "(addr \<times> sDBT) list \<Rightarrow> addr option \<Rightarrow> nat \<Rightarrow> addr list" where
  "chain nd p 0 = []"
| "chain nd None (Suc k) = []"
| "chain nd (Some a) (Suc k) =
     a # (case map_of nd a of None \<Rightarrow> [] | Some d \<Rightarrow> chain nd (next d) k)"

text \<open>The list of addresses from \<open>p\<close> to a null pointer.\<close>

fun linked :: "(addr \<times> sDBT) list \<Rightarrow> addr option \<Rightarrow> addr list \<Rightarrow> bool" where
  "linked nd p [] \<longleftrightarrow> p = None"
| "linked nd p (a # as) \<longleftrightarrow>
     p = Some a \<and> (case map_of nd a of None \<Rightarrow> False | Some d \<Rightarrow> dbt_ok d \<and> linked nd (next d) as)"

definition sharedBuf_rep :: "mm \<Rightarrow> sharedBuf \<Rightarrow> addr list \<Rightarrow> bool" where
  "sharedBuf_rep m s as \<longleftrightarrow>
     linked (nodes m) (head s) as \<and> distinct as \<and> sn s = int (length as) \<and>
     (as \<noteq> [] \<longrightarrow> tail s = Some (last as))"

definition sharedBuf_addrs :: "mm \<Rightarrow> sharedBuf \<Rightarrow> addr list" where
  "sharedBuf_addrs m s = chain (nodes m) (head s) (nat (sn s))"

definition sharedBuf_inv :: "mm \<Rightarrow> sharedBuf \<Rightarrow> bool" where
  "sharedBuf_inv m s \<longleftrightarrow> distinct (map fst (nodes m)) \<and> sharedBuf_rep m s (sharedBuf_addrs m s)"

definition sharedBuf_contents :: "mm \<Rightarrow> sharedBuf \<Rightarrow> tuple list" where
  "sharedBuf_contents m s = map (\<lambda>a. view (the (map_of (nodes m) a))) (sharedBuf_addrs m s)"

definition payload_ok :: "mm_env \<Rightarrow> mm \<Rightarrow> 'a dbt_scheme \<Rightarrow> bool" where
  "payload_ok E m d \<longleftrightarrow> mm_ok E m (keysz d) \<and> mm_ok E m (datasz d) \<and> mm_ok E m TS_SZ"

lemma linked_chain: "linked nd p as \<Longrightarrow> chain nd p (length as) = as"
  by (induction nd p as rule: linked.induct) (auto split: option.splits)

lemma linked_lookup: "linked nd p as \<Longrightarrow> a \<in> set as \<Longrightarrow> \<exists>d. map_of nd a = Some d \<and> dbt_ok d"
  by (induction nd p as rule: linked.induct) (auto split: option.splits)

lemma linked_frame:
  "linked nd p as \<Longrightarrow> (\<And>a. a \<in> set as \<Longrightarrow> map_of nd' a = map_of nd a) \<Longrightarrow> linked nd' p as"
  by (induction nd p as rule: linked.induct) (auto split: option.splits)

lemma rep_addrs: "sharedBuf_rep m s as \<Longrightarrow> sharedBuf_addrs m s = as"
  by (simp add: sharedBuf_rep_def sharedBuf_addrs_def linked_chain)

text \<open>Appending a fresh node to a list: its last node now points to it.\<close>

lemma linked_snoc:
  assumes "linked nd p as" "distinct as" "as \<noteq> []" "n \<notin> set as"
    and "map_of nd n = Some d" "next d = None" "dbt_ok d"
    and "map_of nd (last as) = Some l"
  shows "linked (AList.update (last as) (l\<lparr>next := Some n\<rparr>) nd) p (as @ [n])"
  using assms
proof (induction as arbitrary: p)
  case Nil
  then show ?case by simp
next
  case (Cons a as)
  show ?case
  proof (cases "as = []")
    case True
    with Cons.prems show ?thesis by (auto simp: dbt_ok_def)
  next
    case False
    with Cons.prems obtain e where e: "map_of nd a = Some e" "dbt_ok e" "linked nd (next e) as"
      by (auto split: option.splits)
    have "a \<noteq> last as" using Cons.prems False by auto
    with Cons False e show ?thesis by auto
  qed
qed

lemma sharedBuf_link_rep:
  assumes rep: "sharedBuf_rep m s as" and p: "p \<notin> set as" "map_of (nodes m) p = Some d"
    and d: "next d = None" "dbt_ok d"
  shows "\<exists>m' s'. sharedBuf_link m s p = Some (m', s') \<and> sharedBuf_rep m' s' (as @ [p]) \<and>
           (\<forall>a. a \<notin> set as \<longrightarrow> map_of (nodes m') a = map_of (nodes m) a) \<and>
           (\<forall>a. map_option view (map_of (nodes m') a) = map_option view (map_of (nodes m) a)) \<and>
           (distinct (map fst (nodes m)) \<longrightarrow> distinct (map fst (nodes m')))"
proof (cases "as = []")
  case True
  with rep p d show ?thesis
    by (simp add: sharedBuf_link_def sharedBuf_rep_def mm_lock_def mm_unlock_def)
next
  case False
  then have l: "last as \<in> set as" by simp
  with rep obtain e where e: "map_of (nodes m) (last as) = Some e"
    using linked_lookup unfolding sharedBuf_rep_def by blast
  have lk: "linked (AList.update (last as) (e\<lparr>next := Some p\<rparr>) (nodes m)) (head s) (as @ [p])"
    using linked_snoc rep False p d e unfolding sharedBuf_rep_def by blast
  have sn: "sn s \<noteq> 0" "tail s = Some (last as)" "sn s = int (length as)" "distinct as"
    using rep False by (auto simp: sharedBuf_rep_def)
  have vw: "view (e\<lparr>next := Some p\<rparr>) = view e" by (simp add: view_def)
  from lk sn l e p(1) vw show ?thesis
    by (auto simp: sharedBuf_link_def sharedBuf_rep_def mm_lock_def mm_unlock_def)
qed

lemma sharedBuf_contents_rep:
  "sharedBuf_rep m s as \<Longrightarrow>
     sharedBuf_contents m s = map (\<lambda>a. view (the (map_of (nodes m) a))) as"
  by (simp add: sharedBuf_contents_def rep_addrs)

text \<open>
  What \<open>put\<close> does to the pool when a block is served: the addresses of the buffer grow by the
  block, and every other node stays as it was.
\<close>

lemma sharedBuf_put_rep:
  assumes law: "mm_law E" and inv: "distinct (map fst (nodes m))" "sharedBuf_rep m s as"
    and d: "dbt_ok d" "payload_ok E m d" and p: "mm_malloc E m = Some p"
  shows "\<exists>m' s'. sharedBuf_put E m s d = Some (0, m', s') \<and>
           distinct (map fst (nodes m')) \<and> sharedBuf_rep m' s' (as @ [p]) \<and> p \<notin> set as \<and>
           sharedBuf_contents m' s' = sharedBuf_contents m s @ [view d] \<and>
           (\<forall>a. a \<notin> set as \<and> a \<noteq> p \<longrightarrow> map_of (nodes m') a = map_of (nodes m) a)"
proof -
  obtain c where c: "sDBT_of_dbt (mm_ok E m) d = Some c" "dbt_ok c" "view c = view d" "next c = None"
  proof -
    obtain c where "sDBT_of_dbt (\<lambda>_. True) d = Some c" "dbt_ok c" "view c = view d" "next c = None"
      using sDBT_of_dbt_view [OF d(1), of "\<lambda>_. True"] by blast
    with d(2) that show thesis
      by (auto simp: sDBT_of_dbt_def sDBT_init_def payload_ok_def guard_def split: if_splits)
  qed
  let ?m = "m\<lparr>nodes := AList.update p c (nodes m)\<rparr>"
  have fresh: "map_of (nodes m) p = None" using law p by (auto simp: mm_law_def)
  have lk: "linked (nodes m) (head s) as" using inv by (simp add: sharedBuf_rep_def)
  have pn: "p \<notin> set as" using linked_lookup [OF lk] fresh by fastforce
  have "linked (AList.update p c (nodes m)) (head s) as"
    by (rule linked_frame [OF lk]) (use pn in auto)
  then have "sharedBuf_rep ?m s as"
    using inv(2) by (simp add: sharedBuf_rep_def)
  from sharedBuf_link_rep [OF this pn, of c] c obtain m' s' where
    m': "sharedBuf_link ?m s p = Some (m', s')" "sharedBuf_rep m' s' (as @ [p])"
    "\<And>a. a \<notin> set as \<Longrightarrow> map_of (nodes m') a = map_of (nodes ?m) a"
    "\<And>a. map_option view (map_of (nodes m') a) = map_option view (map_of (nodes ?m) a)"
    "distinct (map fst (nodes m'))"
    using inv(1) by auto
  have vw: "view (the (map_of (nodes m') a)) = view (the (map_of (nodes ?m) a))" if "a \<in> set (as @ [p])" for a
  proof -
    have "linked (nodes m') (head s') (as @ [p])" using m'(2) by (simp add: sharedBuf_rep_def)
    from linked_lookup [OF this that] obtain e where "map_of (nodes m') a = Some e" by blast
    with m'(4) [of a] show ?thesis by (cases "map_of (nodes ?m) a") auto
  qed
  have eq: "map (\<lambda>a. view (the (map_of (nodes m') a))) (as @ [p]) =
        map (\<lambda>a. view (the (map_of (nodes ?m) a))) (as @ [p])"
    by (rule map_cong [OF refl vw])
  also have "\<dots> = map (\<lambda>a. view (the (map_of (nodes m) a))) as @ [view d]"
    using pn c by auto
  finally have "sharedBuf_contents m' s' = sharedBuf_contents m s @ [view d]"
    by (simp add: sharedBuf_contents_rep [OF m'(2)] sharedBuf_contents_rep [OF inv(2)])
  with m' c p pn show ?thesis by (auto simp: sharedBuf_put_def)
qed

lemma sharedBuf_pop_rep:
  assumes inv: "distinct (map fst (nodes m))" "sharedBuf_rep m s (a # as)"
  shows "\<exists>m' s'. sharedBuf_pop m s = Some (0, m', s') \<and>
           distinct (map fst (nodes m')) \<and> sharedBuf_rep m' s' as \<and>
           sharedBuf_contents m' s' = tl (sharedBuf_contents m s) \<and>
           (\<forall>b. b \<noteq> a \<longrightarrow> map_of (nodes m') b = map_of (nodes m) b)"
proof -
  obtain h where h: "map_of (nodes m) a = Some h" "linked (nodes m) (next h) as" "head s = Some a"
    using inv(2) by (auto simp: sharedBuf_rep_def split: option.splits)
  have na: "a \<notin> set as" using inv(2) by (simp add: sharedBuf_rep_def)
  let ?m = "mm_unlock ((mm_lock m)\<lparr>nodes := AList.delete a (nodes m)\<rparr>)"
  let ?s = "s\<lparr>head := next h, sn := sn s - 1\<rparr>"
  have pop: "sharedBuf_pop m s = Some (0, ?m, ?s)"
    using h inv(2) by (auto simp: sharedBuf_pop_def sharedBuf_empty_def sharedBuf_rep_def)
  have "linked (AList.delete a (nodes m)) (next h) as"
    by (rule linked_frame [OF h(2)]) (use na in \<open>auto simp: delete_conv\<close>)
  then have rep: "sharedBuf_rep ?m ?s as"
    using inv(2) by (auto simp: sharedBuf_rep_def mm_unlock_def)
  have "sharedBuf_contents ?m ?s = tl (sharedBuf_contents m s)"
    unfolding sharedBuf_contents_rep [OF rep] sharedBuf_contents_rep [OF inv(2)]
    using na by (auto simp: mm_unlock_def mm_lock_def delete_conv)
  with pop rep inv(1) show ?thesis by (auto simp: mm_unlock_def mm_lock_def delete_conv)
qed

lemma sharedBuf_inv_rep:
  "sharedBuf_inv m s \<longleftrightarrow> distinct (map fst (nodes m)) \<and> (\<exists>as. sharedBuf_rep m s as)"
  unfolding sharedBuf_inv_def using rep_addrs by metis

lemma sharedBuf_empty_rep: "sharedBuf_rep m s as \<Longrightarrow> sharedBuf_empty s \<longleftrightarrow> as = []"
  by (cases as) (auto simp: sharedBuf_rep_def sharedBuf_empty_def)

lemma sharedBuf_put_nomem:
  "mm_malloc E m = None \<Longrightarrow> sharedBuf_put E m s d = Some (ERR_BUFFER, mm_unlock m, s)"
  by (simp add: sharedBuf_put_def)

lemma sharedBuf_put_payload:
  assumes "sharedBuf_put E m s d = Some (0, r)" "dbt_ok d"
  shows "sDBT_of_dbt (mm_ok E m) d = sDBT_of_dbt (\<lambda>_. True) d"
  using assms
  by (auto simp: sharedBuf_put_def ERR_BUFFER_def sDBT_of_dbt_def sDBT_init_def guard_def
      split: option.splits if_splits)

lemma sharedBuf_mm_unlock [simp]:
  "sharedBuf_rep (mm_unlock m) s as = sharedBuf_rep m s as"
  "sharedBuf_contents (mm_unlock m) s = sharedBuf_contents m s"
  "nodes (mm_unlock m) = nodes m"
  by (auto simp: sharedBuf_rep_def sharedBuf_contents_def sharedBuf_addrs_def mm_unlock_def)

text \<open>
  The same for a \<open>put\<close> that returns, whatever the pool could serve: live nodes of other buffers
  are as before, and the nodes of this buffer are its old ones and perhaps one that was free.
\<close>

lemma sharedBuf_put_frame:
  assumes law: "mm_law E" and inv: "distinct (map fst (nodes m))" "sharedBuf_rep m s as" and d: "dbt_ok d"
    and put: "sharedBuf_put E m s d = Some (rc, m', s')"
  shows "\<exists>as'. distinct (map fst (nodes m')) \<and> sharedBuf_rep m' s' as' \<and>
     (\<forall>a \<in> set as'. a \<in> set as \<or> map_of (nodes m) a = None) \<and>
     sharedBuf_contents m' s' = (if rc = 0 then sharedBuf_contents m s @ [view d] else sharedBuf_contents m s) \<and>
     (\<forall>a. a \<notin> set as \<and> map_of (nodes m) a \<noteq> None \<longrightarrow> map_of (nodes m') a = map_of (nodes m) a)"
proof (cases "mm_malloc E m")
  case None
  with put inv show ?thesis
    by (intro exI [of _ as]) (auto simp: sharedBuf_put_def ERR_BUFFER_def)
next
  case (Some p)
  then have rc: "rc = 0" using put by (auto simp: sharedBuf_put_def)
  let ?E = "E\<lparr>mm_ok := \<lambda>_ _. True\<rparr>"
  have fresh: "map_of (nodes m) p = None" using law Some by (auto simp: mm_law_def)
  have "sharedBuf_put ?E m s d = sharedBuf_put E m s d"
    using sharedBuf_put_payload [of E m s d "(m', s')"] put rc d Some
    by (simp add: sharedBuf_put_def)
  moreover have "mm_law ?E" "payload_ok ?E m d" "mm_malloc ?E m = Some p"
    using law Some by (auto simp: mm_law_def payload_ok_def)
  ultimately show ?thesis
    using sharedBuf_put_rep [of ?E m s as d p] inv d put rc fresh
    by (intro exI [of _ "as @ [p]"]) auto
qed

lemma sharedBuf_put_any:
  assumes "mm_law E" "distinct (map fst (nodes m))" "sharedBuf_rep m s as" "dbt_ok d"
    and "sharedBuf_put E m s d = Some (rc, m', s')"
  shows "sharedBuf_inv m' s' \<and>
     sharedBuf_contents m' s' = (if rc = 0 then sharedBuf_contents m s @ [view d] else sharedBuf_contents m s)"
  using sharedBuf_put_frame [OF assms] by (auto simp: sharedBuf_inv_rep)

text \<open>The buffer with its pool as one state.\<close>

definition sb_put :: "mm_env \<Rightarrow> mm \<times> sharedBuf \<Rightarrow> dbt \<Rightarrow> (int \<times> mm \<times> sharedBuf) option" where
  "sb_put E = (\<lambda>(m, s) d. sharedBuf_put E m s d)"

definition sb_get :: "mm \<times> sharedBuf \<Rightarrow> dbt \<Rightarrow> (int \<times> dbt) option" where
  "sb_get = (\<lambda>(m, s) d. sharedBuf_get m s d)"

definition sb_pop :: "mm \<times> sharedBuf \<Rightarrow> (int \<times> mm \<times> sharedBuf) option" where
  "sb_pop = (\<lambda>(m, s). sharedBuf_pop m s)"

definition sb_contents :: "mm \<times> sharedBuf \<Rightarrow> tuple list" where
  "sb_contents = (\<lambda>(m, s). sharedBuf_contents m s)"

definition sb_inv :: "mm \<times> sharedBuf \<Rightarrow> bool" where
  "sb_inv = (\<lambda>(m, s). sharedBuf_inv m s)"

definition sb_ready :: "mm_env \<Rightarrow> mm \<times> sharedBuf \<Rightarrow> dbt \<Rightarrow> bool" where
  "sb_ready E = (\<lambda>(m, s) d. mm_malloc E m \<noteq> None \<and> payload_ok E m d)"

lemmas sb_defs = sb_put_def sb_get_def sb_pop_def sb_contents_def sb_inv_def sb_ready_def

lemma sharedBuf_contents_Nil: "sharedBuf_rep m s as \<Longrightarrow> sharedBuf_contents m s = [] \<longleftrightarrow> as = []"
  by (simp add: sharedBuf_contents_rep)

interpretation sb: fifo_buffer "sb_put E" sb_get sb_pop "\<lambda>(m, s). sharedBuf_empty s"
  "sb_ready E" sb_contents "\<lambda>x. mm_law E \<and> sb_inv x" for E
proof (unfold_locales, goal_cases)
  case (1 x d)
  obtain m s where x: "x = (m, s)" by fastforce
  with 1 obtain as p where "mm_law E" "distinct (map fst (nodes m))" "sharedBuf_rep m s as" "dbt_ok d"
    "payload_ok E m d" "mm_malloc E m = Some p"
    by (auto simp: sb_defs sharedBuf_inv_rep)
  from sharedBuf_put_rep [OF this] this(1) show ?case
    by (fastforce simp: x sb_defs sharedBuf_inv_rep)
next
  case (2 x d rc x')
  obtain m s m' s' where x: "x = (m, s)" "x' = (m', s')" by fastforce
  with 2 obtain as where "mm_law E" "distinct (map fst (nodes m))" "sharedBuf_rep m s as" "dbt_ok d"
    "sharedBuf_put E m s d = Some (rc, m', s')"
    by (auto simp: sb_defs sharedBuf_inv_rep)
  from sharedBuf_put_any [OF this] this(1) show ?case by (simp add: x sb_defs)
next
  case (3 x dst)
  then show ?case
    by (auto simp: sb_defs sharedBuf_inv_rep sharedBuf_contents_Nil sharedBuf_get_def sharedBuf_empty_rep
        split: prod.splits)
next
  case (4 x t q dst)
  obtain m s where x: "x = (m, s)" by fastforce
  with 4 obtain as where as: "sharedBuf_rep m s as" by (auto simp: sb_defs sharedBuf_inv_rep)
  with 4 x obtain a as' where "as = a # as'"
    by (cases as) (auto simp: sb_defs sharedBuf_contents_rep)
  with as obtain h where h: "sharedBuf_head m s = Some h" "dbt_ok h" "map_of (nodes m) a = Some h"
    by (auto simp: sharedBuf_head_def sharedBuf_rep_def split: option.splits)
  then have "view h = t" using 4 x as \<open>as = a # as'\<close> by (auto simp: sb_defs sharedBuf_contents_rep)
  with h 4 dbt_copy_tuple [of h dst] x as \<open>as = a # as'\<close> show ?case
    by (auto simp: sb_defs sharedBuf_get_def sharedBuf_empty_rep)
next
  case (5 x t q)
  obtain m s where x: "x = (m, s)" by fastforce
  with 5 obtain as where as: "sharedBuf_rep m s as" "distinct (map fst (nodes m))"
    by (auto simp: sb_defs sharedBuf_inv_rep)
  with 5 x obtain a as' where "as = a # as'"
    by (cases as) (auto simp: sb_defs sharedBuf_contents_rep)
  with as sharedBuf_pop_rep [of m s a as'] 5 x show ?case
    by (fastforce simp: sb_defs sharedBuf_inv_rep)
next
  case (6 x rc x')
  then show ?case
    by (auto simp: sb_defs sharedBuf_inv_rep sharedBuf_contents_Nil sharedBuf_pop_def sharedBuf_empty_rep
        ERR_BUFFER_def split: prod.splits)
next
  case (7 x)
  then show ?case
    by (auto simp: sb_defs sharedBuf_inv_rep sharedBuf_contents_Nil sharedBuf_empty_rep split: prod.splits)
qed

end
