(* ===== verification/WindowBuf.thy ===== *)
theory WindowBuf
  imports Buffer
begin

text \<open>
  Window buffers (\<open>sql/esl/windowBuf.h\<close>, \<open>sql/esl/windowBuf.cc\<close>): the tuples of a sliding window in
  an in-memory relation, each under the value the 32-bit tuple counter had when it arrived. The
  relation is a value-referenced linked list of \<open>im_db\<close> without an index, of which the window
  uses append, \<open>DB_FIRST\<close> and the deletion of the tuple found there: a list. A read goes through
  an area of 1024 bytes of the relation, with four bytes for the object id behind the data.

  Time-based windows compute the counter with \<open>double\<close> arithmetic; that conversion is the
  parameter \<open>to_ms\<close> of \<open>updateTupleID\<close>.
\<close>

section \<open>State and operations\<close>

datatype win_type = ADL_WIN_ROW | ADL_WIN_TIME

record windowBuf =
  rel :: "(32 word \<times> mem) list"
  wtype :: win_type
  first_ts :: "timestamp option"
  tuple_id :: "32 word"
  wsize :: "32 word"
  wn :: int
  wfirst :: bool
  current :: timestamp

definition windowBuf_init :: "32 word \<Rightarrow> win_type \<Rightarrow> windowBuf" where
  "windowBuf_init size_in wtype_in =
     \<lparr>rel = [], wtype = wtype_in, first_ts = None, tuple_id = 0, wsize = size_in, wn = 0,
      wfirst = True, current = Timestamp 0 0\<rparr>"

text \<open>\<open>c_get(..., DB_FIRST)\<close> on the relation of the window.\<close>

definition rel_first :: "windowBuf \<Rightarrow> (32 word \<times> mem) option option" where
  "rel_first w =
     (case rel w of [] \<Rightarrow> Some None
      | (t, d) # _ \<Rightarrow> if length d + 4 \<le> 1024 then Some (Some (t, d)) else None)"

definition windowBuf_put :: "windowBuf \<Rightarrow> mem \<Rightarrow> int \<times> windowBuf" where
  "windowBuf_put w d = (0, w\<lparr>rel := rel w @ [(tuple_id w, d)]\<rparr>)"

definition windowBuf_pop :: "windowBuf \<Rightarrow> (int \<times> windowBuf) option" where
  "windowBuf_pop w = do {
     f \<leftarrow> rel_first w;
     Some (case f of
             None \<Rightarrow> (DB_NOTFOUND, w)
           | Some _ \<Rightarrow> (0, w\<lparr>rel := tl (rel w), wn := wn w - 1\<rparr>))
   }"

definition getTimestamp :: "windowBuf \<Rightarrow> timestamp option" where
  "getTimestamp w =
     (if wtype w = ADL_WIN_TIME then
        (case first_ts w of
           None \<Rightarrow> None
         | Some f \<Rightarrow>
             let microsecsInTho = uint (tuple_id w) mod 1000;
                 microsecs = tv_usec f + 1000 * microsecsInTho;
                 secs = (uint (tuple_id w) - microsecsInTho) div 1000
             in if microsecs \<ge> 1000000
                then Some (Timestamp (tv_sec f + secs + 1) (microsecs - 1000000))
                else Some (Timestamp (tv_sec f + secs) microsecs))
      else Some (current w))"

definition windowBuf_empty :: "windowBuf \<Rightarrow> bool option" where
  "windowBuf_empty w =
     (if tv_sec (current w) = 0 \<and> tv_usec (current w) = 0 then Some False
      else do { t \<leftarrow> getTimestamp w; Some (timeval_cmp t (current w) < 0) })"

definition windowBuf_bufSize :: "windowBuf \<Rightarrow> int" where
  "windowBuf_bufSize w = wn w"

definition UINT_MAX :: "32 word" where
  "UINT_MAX = - 1"

definition getExpired :: "windowBuf \<Rightarrow> (int \<times> mem option) option" where
  "getExpired w = do {
     f \<leftarrow> rel_first w;
     let id = tuple_id w;
     Some (case f of
             None \<Rightarrow> (DB_NOTFOUND, None)
           | Some (t, d) \<Rightarrow>
               if id < wsize w
               then (if t \<le> UINT_MAX - wsize w + id \<and> t > id then 0 else DB_NOTFOUND, Some d)
               else (if t \<le> id - wsize w \<or> t > id then 0 else DB_NOTFOUND, Some d))
   }"

definition hasExpired :: "windowBuf \<Rightarrow> bool option" where
  "hasExpired w = map_option (\<lambda>(rc, _). rc = 0) (getExpired w)"

definition resetTS :: "timestamp \<Rightarrow> windowBuf \<Rightarrow> windowBuf" where
  "resetTS ts w = w\<lparr>first_ts := Some ts\<rparr>"

definition setCurrentTimestamp :: "timestamp \<Rightarrow> windowBuf \<Rightarrow> windowBuf" where
  "setCurrentTimestamp ts w = w\<lparr>current := ts\<rparr>"

definition updateTupleID ::
  "(timestamp \<Rightarrow> timestamp \<Rightarrow> 32 word) \<Rightarrow> timestamp option \<Rightarrow> windowBuf \<Rightarrow> windowBuf option" where
  "updateTupleID to_ms ts w =
     (case ts of
        Some ts \<Rightarrow>
          (let w = (if wfirst w then resetTS ts (w\<lparr>wfirst := False\<rparr>) else w)
           in do { f \<leftarrow> first_ts w; Some (w\<lparr>tuple_id := to_ms ts f\<rparr>) })
      | None \<Rightarrow> Some (w\<lparr>tuple_id := tuple_id w + 1\<rparr>))"

text \<open>
  How a compiled query feeds a count-based window: the counter advances, then the tuple is
  stored; the age of a tuple is the distance of its counter value from the current one.
\<close>

definition win_arrive :: "mem \<Rightarrow> windowBuf \<Rightarrow> windowBuf option" where
  "win_arrive d w = do { w' \<leftarrow> updateTupleID (\<lambda>_ _. 0) None w; Some (snd (windowBuf_put w' d)) }"

definition age :: "windowBuf \<Rightarrow> 32 word \<Rightarrow> 32 word" where
  "age w t = tuple_id w - t"

section \<open>Expiry\<close>

text \<open>
  The two tests of \<open>getExpired\<close> in terms of the age. The one for a counter that has not reached
  the window size is strict.
\<close>

lemma expired_reached:
  fixes id t s :: "32 word"
  assumes "s \<le> id"
  shows "(t \<le> id - s \<or> t > id) \<longleftrightarrow> s \<le> id - t"
proof (cases "t \<le> id")
  case True
  have "unat (id - s) = unat id - unat s" "unat (id - t) = unat id - unat t"
    using assms True by (simp_all add: unat_sub)
  with True assms show ?thesis by (auto simp: word_le_nat_alt word_less_nat_alt)
next
  case False
  have "uint (id - t) = uint id - uint t + 2 ^ 32"
    using False uint_sub_if' [of id t] by (simp add: word_le_def)
  moreover have "uint t < 2 ^ 32" using uint_lt2p [of t] by simp
  ultimately have "s \<le> id - t" using assms by (simp add: word_le_def)
  with False show ?thesis by (simp add: not_le)
qed

lemma expired_before:
  fixes id t s :: "32 word"
  assumes "id < s"
  shows "(t \<le> UINT_MAX - s + id \<and> t > id) \<longleftrightarrow> s < id - t"
proof -
  have b: "uint id < uint s" "0 \<le> uint id" "uint s < 2 ^ 32" "uint t < 2 ^ 32" "0 \<le> uint t"
    using assms uint_lt2p [of s] uint_lt2p [of t] by (auto simp: word_less_def)
  have u: "uint (UINT_MAX - s + id) = 2 ^ 32 - 1 - uint s + uint id"
  proof -
    have "uint (UINT_MAX - s) = 2 ^ 32 - 1 - uint s"
      using b by (simp add: UINT_MAX_def uint_sub_if' unsigned_minus_1_eq_mask mask_eq_exp_minus_1)
    then show ?thesis using b by (simp add: uint_plus_if')
  qed
  show ?thesis
  proof (cases "t > id")
    case True
    have "uint (id - t) = uint id - uint t + 2 ^ 32"
      using True uint_sub_if' [of id t] by (simp add: word_less_def word_le_def)
    with True u show ?thesis by (auto simp: word_less_def word_le_def)
  next
    case False
    then have "uint (id - t) = uint id - uint t"
      using uint_sub_if' [of id t] by (simp add: word_less_def word_le_def)
    then have "uint (id - t) < uint s" using b by linarith
    with False show ?thesis by (simp add: word_less_def)
  qed
qed

lemma getExpired_first:
  assumes "rel w = (t, d) # r" and "length d + 4 \<le> 1024"
  shows "getExpired w =
     Some (if (if wsize w \<le> tuple_id w then wsize w \<le> age w t else wsize w < age w t)
           then 0 else DB_NOTFOUND, Some d)"
proof (cases "tuple_id w < wsize w")
  case True
  then have "\<not> wsize w \<le> tuple_id w" by (simp add: not_le)
  with assms True show ?thesis
    by (simp add: getExpired_def rel_first_def age_def expired_before Let_def)
next
  case False
  then have "wsize w \<le> tuple_id w" by (simp add: not_less)
  with assms False show ?thesis
    by (simp add: getExpired_def rel_first_def age_def expired_reached Let_def)
qed

text \<open>
  C21: The oldest tuple of a window is reported as expired exactly when its age, the distance of
  the 32-bit counter from the value it was stored under, has reached the window size, also when
  the counter has wrapped around; only while the counter itself is below the window size must
  the age exceed the size. No read of the relation is out of bounds when the tuple fits.
\<close>

theorem getExpired_age:
  assumes "rel w = (t, d) # r" and "length d + 4 \<le> 1024"
  shows "getExpired w =
     Some (if (if wsize w \<le> tuple_id w then wsize w \<le> age w t else wsize w < age w t)
           then 0 else DB_NOTFOUND, Some d)"
  by (rule getExpired_first [OF assms])

theorem getExpired_age_witness:
  "getExpired ((windowBuf_init 3 ADL_WIN_ROW)\<lparr>rel := [(4294967295, [])], tuple_id := 5\<rparr>) =
     Some (0, Some [])"
  by (subst getExpired_age [where t = 4294967295 and d = "[]" and r = "[]"])
     (simp_all add: windowBuf_init_def age_def)

section \<open>Count-based windows\<close>

lemma win_arrive_state:
  "win_arrive d w = Some (w\<lparr>tuple_id := tuple_id w + 1, rel := rel w @ [(tuple_id w + 1, d)]\<rparr>)"
  by (simp add: win_arrive_def updateTupleID_def windowBuf_put_def)

lemma win_arrivals_state:
  "foldM win_arrive ds (windowBuf_init s ADL_WIN_ROW) =
     Some ((windowBuf_init s ADL_WIN_ROW)\<lparr>tuple_id := of_nat (length ds),
        rel := map (\<lambda>i. (of_nat (i + 1), ds ! i)) [0..<length ds]\<rparr>)"
proof (induction ds rule: rev_induct)
  case Nil
  show ?case by (simp add: windowBuf_init_def)
next
  case (snoc d ds)
  then show ?case
    by (simp add: win_arrive_state windowBuf_init_def nth_append add.commute)
qed

text \<open>
  C22: A count-based window of size \<open>s\<close> into which fewer than \<open>2\<^sup>3\<^sup>2\<close> tuples have arrived
  and from which none has been removed
  reports an expired tuple exactly when it holds more than \<open>s\<close> tuples, and the expired tuple
  it hands out is the first that arrived.
\<close>

theorem count_window_expires:
  assumes "length ds < 2 ^ 32" and "ds = d0 # rest" and "length d0 + 4 \<le> 1024"
    and "foldM win_arrive ds (windowBuf_init s ADL_WIN_ROW) = Some w"
  shows "hasExpired w = Some (unat s < length ds) \<and> (\<exists>rc. getExpired w = Some (rc, Some d0))"
proof -
  let ?n = "length ds"
  have w: "w = (windowBuf_init s ADL_WIN_ROW)\<lparr>tuple_id := of_nat ?n,
        rel := map (\<lambda>i. (of_nat (i + 1), ds ! i)) [0..<?n]\<rparr>"
    using assms(4) win_arrivals_state by simp
  have "rel w = (1, d0) # map (\<lambda>i. (of_nat (i + 1), ds ! i)) [1..<?n]"
    using assms(2) by (simp add: w upt_rec del: upt_Suc)
  note ex = getExpired_first [OF this assms(3)]
  have id: "unat (of_nat ?n :: 32 word) = ?n"
    using assms(1) by (simp add: unat_of_nat)
  have "age w 1 = of_nat ?n - 1" by (simp add: age_def w)
  moreover have "unat (of_nat ?n - 1 :: 32 word) = ?n - 1"
    using id assms(2) by (subst unat_sub) (auto simp: word_le_nat_alt)
  ultimately have un: "unat (age w 1) = ?n - 1" by simp
  have sz: "wsize w = s" "unat (tuple_id w) = ?n" by (simp_all add: w windowBuf_init_def id)
  have "(if wsize w \<le> tuple_id w then wsize w \<le> age w 1 else wsize w < age w 1) \<longleftrightarrow> unat s < ?n"
    using un sz assms(2) by (auto simp: word_le_nat_alt word_less_nat_alt)
  then show ?thesis
    unfolding hasExpired_def ex by (simp add: DB_NOTFOUND_def)
qed

theorem count_window_expires_witness:
  "hasExpired (the (foldM win_arrive [[], [Some nul]] (windowBuf_init 1 ADL_WIN_ROW))) = Some True"
  using count_window_expires [of "[[], [Some nul]]" "[]" "[[Some nul]]" 1
      "the (foldM win_arrive [[], [Some nul]] (windowBuf_init 1 ADL_WIN_ROW))"]
  by (simp add: win_arrive_state)

end
