(* ===== verification/BufferMngr.thy ===== *)
theory BufferMngr
  imports WindowBuf "HOL-Library.Char_ord" "HOL-Library.List_Lexorder"
begin

text \<open>
  The buffers of a running engine and the buffer manager (\<open>bufferMngr\<close> of \<open>sql/esl/buffer.h\<close> and
  \<open>sql/esl/buffer.cc\<close>). A \<open>world\<close> holds the buffer objects by address, the shared pool and the
  name dictionary, an array kept sorted by \<open>strcmp\<close> with \<open>qsort\<close> and searched with \<open>bsearch\<close>.
  The virtual calls of \<open>class buffer\<close> dispatch on the class of the object. Addresses of new
  objects come from the environment; its law is that they are not in use.
\<close>

section \<open>State\<close>

datatype bufobj =
  CommonBuf buffer_base "dbt list"
| SharedBuf buffer_base sharedBuf
| TableBuf buffer_base
| WindowBuf buffer_base windowBuf

fun obj_base :: "bufobj \<Rightarrow> buffer_base" where
  "obj_base (CommonBuf b _) = b"
| "obj_base (SharedBuf b _) = b"
| "obj_base (TableBuf b) = b"
| "obj_base (WindowBuf b _) = b"

record world =
  bufs :: "(bptr \<times> bufobj) list"
  pool :: mm
  dict :: "(string \<times> bptr) list"
  new_arrival :: int

record env = mm_env +
  new_buf :: "world \<Rightarrow> bptr"
  mm_buf :: "world \<Rightarrow> bptr option"

definition env_law :: "'e env_scheme \<Rightarrow> bool" where
  "env_law E \<longleftrightarrow>
     (\<forall>m p. mm_malloc E m = Some p \<longrightarrow> map_of (nodes m) p = None) \<and>
     (\<forall>w. map_of (bufs w) (new_buf E w) = None) \<and>
     (\<forall>w p. mm_buf E w = Some p \<longrightarrow> map_of (bufs w) p = None)"

definition MAX_BUF :: nat where
  "MAX_BUF = 500"

definition MAX_NAME :: nat where
  "MAX_NAME = 256"

definition set_obj :: "bptr \<Rightarrow> bufobj \<Rightarrow> world \<Rightarrow> world" where
  "set_obj p ob w = w\<lparr>bufs := AList.update p ob (bufs w)\<rparr>"

section \<open>Virtual calls of a buffer\<close>

definition buf_put :: "'e env_scheme \<Rightarrow> bptr \<Rightarrow> dbt \<Rightarrow> world \<Rightarrow> (int \<times> world) option" where
  "buf_put E p d w = do {
     ob \<leftarrow> map_of (bufs w) p;
     case ob of
       CommonBuf b q \<Rightarrow> do { (rc, q') \<leftarrow> commonBuf_put q d; Some (rc, set_obj p (CommonBuf b q') w) }
     | SharedBuf b s \<Rightarrow> do {
         (rc, m, s') \<leftarrow> sharedBuf_put (mm_env.truncate E) (pool w) s d;
         Some (rc, (set_obj p (SharedBuf b s') w)\<lparr>pool := m\<rparr>)
       }
     | TableBuf _ \<Rightarrow> Some (-1, w)
     | WindowBuf _ _ \<Rightarrow> Some (-1, w)
   }"

definition buf_put_DBT ::
  "'e env_scheme \<Rightarrow> bptr \<Rightarrow> DBT \<Rightarrow> timestamp option \<Rightarrow> DBT option \<Rightarrow> world \<Rightarrow> (int \<times> world) option" where
  "buf_put_DBT E p d t k w = do {
     ob \<leftarrow> map_of (bufs w) p;
     case ob of
       CommonBuf b q \<Rightarrow> do { (rc, q') \<leftarrow> commonBuf_put_DBT q d t k; Some (rc, set_obj p (CommonBuf b q') w) }
     | SharedBuf b s \<Rightarrow> do {
         (rc, m, s') \<leftarrow> sharedBuf_put_DBT (mm_env.truncate E) (pool w) s d t k;
         Some (rc, (set_obj p (SharedBuf b s') w)\<lparr>pool := m\<rparr>)
       }
     | TableBuf _ \<Rightarrow> Some (-1, w)
     | WindowBuf _ _ \<Rightarrow> Some (-1, w)
   }"

definition buf_get :: "bptr \<Rightarrow> dbt \<Rightarrow> world \<Rightarrow> (int \<times> dbt) option" where
  "buf_get p dst w = do {
     ob \<leftarrow> map_of (bufs w) p;
     case ob of
       CommonBuf b q \<Rightarrow> commonBuf_get q dst
     | SharedBuf b s \<Rightarrow> sharedBuf_get (pool w) s dst
     | TableBuf _ \<Rightarrow> Some (-1, dst)
     | WindowBuf _ _ \<Rightarrow> Some (-1, dst)
   }"

definition buf_get_time :: "bptr \<Rightarrow> timestamp option \<Rightarrow> world \<Rightarrow> (int \<times> timestamp option) option" where
  "buf_get_time p t w = do {
     ob \<leftarrow> map_of (bufs w) p;
     case ob of
       CommonBuf b q \<Rightarrow> commonBuf_get_time q t
     | SharedBuf b s \<Rightarrow> sharedBuf_get_time (pool w) s t
     | TableBuf _ \<Rightarrow> Some (-1, t)
     | WindowBuf _ _ \<Rightarrow> Some (-1, t)
   }"

definition buf_pop :: "bptr \<Rightarrow> world \<Rightarrow> (int \<times> world) option" where
  "buf_pop p w = do {
     ob \<leftarrow> map_of (bufs w) p;
     case ob of
       CommonBuf b q \<Rightarrow> do { (rc, q') \<leftarrow> commonBuf_pop q; Some (rc, set_obj p (CommonBuf b q') w) }
     | SharedBuf b s \<Rightarrow> do {
         (rc, m, s') \<leftarrow> sharedBuf_pop (pool w) s;
         Some (rc, (set_obj p (SharedBuf b s') w)\<lparr>pool := m\<rparr>)
       }
     | TableBuf _ \<Rightarrow> Some (-1, w)
     | WindowBuf b v \<Rightarrow> do { (rc, v') \<leftarrow> windowBuf_pop v; Some (rc, set_obj p (WindowBuf b v') w) }
   }"

text \<open>\<open>empty()\<close> returns an int; \<open>table::empty\<close> returns -1, which its callers read as true.\<close>

definition buf_empty_rc :: "bptr \<Rightarrow> world \<Rightarrow> int option" where
  "buf_empty_rc p w = do {
     ob \<leftarrow> map_of (bufs w) p;
     case ob of
       CommonBuf b q \<Rightarrow> Some (if commonBuf_empty q then 1 else 0)
     | SharedBuf b s \<Rightarrow> Some (if sharedBuf_empty s then 1 else 0)
     | TableBuf _ \<Rightarrow> Some (-1)
     | WindowBuf b v \<Rightarrow> do { e \<leftarrow> windowBuf_empty v; Some (if e then 1 else 0) }
   }"

definition buf_empty :: "bptr \<Rightarrow> world \<Rightarrow> bool option" where
  "buf_empty p w = map_option (\<lambda>rc. rc \<noteq> 0) (buf_empty_rc p w)"

definition buf_bufSize :: "bptr \<Rightarrow> world \<Rightarrow> int option" where
  "buf_bufSize p w = do {
     ob \<leftarrow> map_of (bufs w) p;
     case ob of
       CommonBuf b q \<Rightarrow> Some (commonBuf_bufSize q)
     | SharedBuf b s \<Rightarrow> Some (sharedBuf_bufSize s)
     | TableBuf _ \<Rightarrow> Some (-1)
     | WindowBuf b v \<Rightarrow> Some (windowBuf_bufSize v)
   }"

definition buf_bufByteSize :: "bptr \<Rightarrow> world \<Rightarrow> int option" where
  "buf_bufByteSize p w = do {
     ob \<leftarrow> map_of (bufs w) p;
     case ob of
       CommonBuf b q \<Rightarrow> Some (commonBuf_bufByteSize q)
     | SharedBuf b s \<Rightarrow> sharedBuf_bufByteSize (pool w) s
     | TableBuf _ \<Rightarrow> Some (-1)
     | WindowBuf b v \<Rightarrow> Some (-1)
   }"

section \<open>Coded messages\<close>

text \<open>
  \<open>buffer::put(int, const char*, const char*)\<close>: a code and up to two strings in one tuple. A
  second string without a first one takes \<open>strlen\<close> of a null pointer.
\<close>

definition code_area :: "32 word \<Rightarrow> string option \<Rightarrow> string option \<Rightarrow> mem option" where
  "code_area code s1 s2 =
     (if s2 \<noteq> None \<and> s1 = None then None
      else Some (map Some (enc32 code)
             @ (case s1 of None \<Rightarrow> [] | Some s \<Rightarrow> str_bytes s)
             @ (case s2 of None \<Rightarrow> [] | Some s \<Rightarrow> str_bytes s)))"

definition buf_put_code ::
  "'e env_scheme \<Rightarrow> bptr \<Rightarrow> 32 word \<Rightarrow> string option \<Rightarrow> string option \<Rightarrow> world \<Rightarrow> (int \<times> world) option" where
  "buf_put_code E p code s1 s2 w = do {
     m \<leftarrow> code_area code s1 s2;
     c \<leftarrow> cDBT_space (int (length m)) None 0;
     buf_put E p (c\<lparr>data := Some m\<rparr>) w
   }"

text \<open>
  \<open>buffer::get(int&, char*, char*)\<close>: \<open>s1\<close> and \<open>s2\<close> are the caller's areas with their present
  contents, \<open>None\<close> where the caller passes null; the areas are large enough for the strings.
\<close>

definition decode_code ::
  "dbt \<Rightarrow> string option \<Rightarrow> string option
     \<Rightarrow> (int \<times> 32 word option \<times> string option \<times> string option) option" where
  "decode_code c s1 s2 = do {
     m \<leftarrow> data c;
     guard (None \<notin> set (take 4 m));
     let code = dec32 (map the (take 4 m));
     s1' \<leftarrow> (case s1 of
               Some a \<Rightarrow> if datasz c > 4 then map_option Some (cstr (drop 4 m)) else Some (Some a)
             | None \<Rightarrow> Some None);
     s2' \<leftarrow> (case s2 of
               Some a \<Rightarrow> do {
                 x \<leftarrow> s1';
                 if datasz c > 4 + int (length x) + 1
                 then map_option Some (cstr (drop (4 + length x + 1) m)) else Some (Some a)
               }
             | None \<Rightarrow> Some None);
     Some (0, Some code, s1', s2')
   }"

definition buf_get_code ::
  "bptr \<Rightarrow> string option \<Rightarrow> string option \<Rightarrow> world
     \<Rightarrow> (int \<times> 32 word option \<times> string option \<times> string option) option" where
  "buf_get_code p s1 s2 w = do {
     c \<leftarrow> cDBT_space MAX_STR_LEN None 0;
     (rc, c) \<leftarrow> buf_get p c w;
     if rc \<noteq> 0 then Some (rc, None, s1, s2) else decode_code c s1 s2
   }"

section \<open>The dictionary\<close>

text \<open>\<open>strcmp\<close> of two C strings, by its sign.\<close>

fun strcmp :: "string \<Rightarrow> string \<Rightarrow> int" where
  "strcmp [] [] = 0"
| "strcmp [] (_ # _) = -1"
| "strcmp (_ # _) [] = 1"
| "strcmp (x # xs) (y # ys) =
     (if (of_char x :: nat) < of_char y then -1
      else if (of_char y :: nat) < of_char x then 1 else strcmp xs ys)"

definition bufMap_cmp :: "string \<times> bptr \<Rightarrow> string \<times> bptr \<Rightarrow> int" where
  "bufMap_cmp m1 m2 = strcmp (fst m1) (fst m2)"

text \<open>\<open>qsort\<close> with a comparison function (by insertion), and \<open>bsearch\<close> on \<open>[l, u)\<close>.\<close>

fun qsort_insert :: "('a \<Rightarrow> 'a \<Rightarrow> int) \<Rightarrow> 'a \<Rightarrow> 'a list \<Rightarrow> 'a list" where
  "qsort_insert cmp x [] = [x]"
| "qsort_insert cmp x (y # ys) = (if cmp x y \<le> 0 then x # y # ys else y # qsort_insert cmp x ys)"

definition qsort :: "('a \<Rightarrow> 'a \<Rightarrow> int) \<Rightarrow> 'a list \<Rightarrow> 'a list" where
  "qsort cmp xs = foldr (qsort_insert cmp) xs []"

function bsearch :: "('a \<Rightarrow> int) \<Rightarrow> 'a list \<Rightarrow> nat \<Rightarrow> nat \<Rightarrow> nat option" where
  "bsearch cmp xs l u =
     (if l < u then
        let i = (l + u) div 2 in
        if cmp (xs ! i) < 0 then bsearch cmp xs l i
        else if cmp (xs ! i) > 0 then bsearch cmp xs (i + 1) u
        else Some i
      else None)"
  by pat_completeness auto

termination
  by (relation "measure (\<lambda>(cmp, xs, l, u). u - l)") auto

declare bsearch.simps [simp del]

text \<open>A name is copied to an array of \<open>MAX_NAME\<close> bytes before the search.\<close>

definition lookupBufMapIdx :: "string \<Rightarrow> world \<Rightarrow> nat option option" where
  "lookupBufMapIdx name w = do {
     guard (length name < MAX_NAME);
     Some (bsearch (\<lambda>m. bufMap_cmp (name, 0) m) (dict w) 0 (length (dict w)))
   }"

definition lookup :: "string \<Rightarrow> world \<Rightarrow> bptr option option" where
  "lookup name w = map_option (map_option (\<lambda>i. snd (dict w ! i))) (lookupBufMapIdx name w)"

definition bufferMngr_init :: world where
  "bufferMngr_init =
     \<lparr>bufs = [], pool = \<lparr>nodes = [], locked = False\<rparr>, dict = [], new_arrival = 1\<rparr>"

text \<open>
  \<open>bufferMngr::create\<close>. The dictionary has room for \<open>MAX_BUF\<close> entries and no test for it. An
  unknown type is reported and an uninitialised pointer stored.
\<close>

definition new_buffer ::
  "'e env_scheme \<Rightarrow> string \<Rightarrow> buf_t \<Rightarrow> 32 word \<Rightarrow> win_type \<Rightarrow> world \<Rightarrow> (bptr \<times> bufobj) option option" where
  "new_buffer E name shared size_in wtype_in w =
     (case shared of
        SHARED \<Rightarrow> Some (map_option (\<lambda>p. (p, SharedBuf (buffer_init name SHARED) sharedBuf_init)) (mm_buf E w))
      | NOT_SHARED \<Rightarrow> Some (Some (new_buf E w, CommonBuf (buffer_init name NOT_SHARED) []))
      | BUF_BTREE \<Rightarrow> Some (Some (new_buf E w, TableBuf (buffer_init name BUF_BTREE)))
      | BUF_RECNO \<Rightarrow> Some (Some (new_buf E w, TableBuf (buffer_init name BUF_RECNO)))
      | WINBUF \<Rightarrow> Some (Some (new_buf E w, WindowBuf (buffer_init name WINBUF) (windowBuf_init size_in wtype_in)))
      | BUF_STDOUT \<Rightarrow> None)"

definition create ::
  "'e env_scheme \<Rightarrow> string \<Rightarrow> buf_t \<Rightarrow> 32 word \<Rightarrow> win_type \<Rightarrow> world \<Rightarrow> (int \<times> world) option" where
  "create E name shared size_in wtype_in w = do {
     r \<leftarrow> lookup name w;
     if r \<noteq> None then Some (-1, w)
     else do {
       nb \<leftarrow> new_buffer E name shared size_in wtype_in w;
       case nb of
         None \<Rightarrow> Some (-1, w)
       | Some (p, ob) \<Rightarrow> do {
           guard (length (dict w) < MAX_BUF);
           Some (0, (set_obj p ob w)\<lparr>
             dict := qsort bufMap_cmp (dict w @ [(name, p)]),
             pool := mm_unlock (mm_lock (pool w))\<rparr>)
         }
     }
   }"

text \<open>
  \<open>bufferMngr::kill\<close>: a name that is not there returns with the lock of the pool held. The
  tuples of a shared buffer are not freed with it.
\<close>

definition kill :: "string \<Rightarrow> world \<Rightarrow> (int \<times> world) option" where
  "kill name w = do {
     let w = w\<lparr>pool := mm_lock (pool w)\<rparr>;
     r \<leftarrow> lookupBufMapIdx name w;
     case r of
       None \<Rightarrow> Some (-1, w)
     | Some r \<Rightarrow> do {
         let p = snd (dict w ! r);
         ob \<leftarrow> map_of (bufs w) p;
         let w = (if btype (obj_base ob) = BUF_STDOUT then w else w\<lparr>bufs := AList.delete p (bufs w)\<rparr>);
         Some (0, w\<lparr>dict := take r (dict w) @ drop (r + 1) (dict w), pool := mm_unlock (pool w)\<rparr>)
       }
   }"

definition bm_put :: "'e env_scheme \<Rightarrow> string \<Rightarrow> dbt \<Rightarrow> world \<Rightarrow> (int \<times> world) option" where
  "bm_put E name d w = do {
     b \<leftarrow> lookup name w;
     case b of None \<Rightarrow> Some (-1, w) | Some p \<Rightarrow> buf_put E p d w
   }"

definition bm_get :: "string \<Rightarrow> dbt \<Rightarrow> world \<Rightarrow> (int \<times> dbt) option" where
  "bm_get name d w = do {
     b \<leftarrow> lookup name w;
     case b of None \<Rightarrow> Some (-1, d) | Some p \<Rightarrow> buf_get p d w
   }"

definition bm_get_time :: "string \<Rightarrow> timestamp option \<Rightarrow> world \<Rightarrow> (int \<times> timestamp option) option" where
  "bm_get_time name t w = do {
     b \<leftarrow> lookup name w;
     case b of None \<Rightarrow> Some (-1, t) | Some p \<Rightarrow> buf_get_time p t w
   }"

definition bm_pop :: "string \<Rightarrow> world \<Rightarrow> (int \<times> world) option" where
  "bm_pop name w = do {
     b \<leftarrow> lookup name w;
     case b of None \<Rightarrow> Some (-1, w) | Some p \<Rightarrow> buf_pop p w
   }"

definition bm_empty :: "string \<Rightarrow> world \<Rightarrow> int option" where
  "bm_empty name w = do {
     b \<leftarrow> lookup name w;
     case b of None \<Rightarrow> Some 1 | Some p \<Rightarrow> buf_empty_rc p w
   }"

text \<open>\<open>bufferMngr::get(const char*, DB*&)\<close>: the return code and whether the handle of a table is set.\<close>

definition bm_get_db :: "string \<Rightarrow> world \<Rightarrow> (int \<times> bptr option) option" where
  "bm_get_db name w = do {
     b \<leftarrow> lookup name w;
     case b of None \<Rightarrow> Some (-1, None)
     | Some p \<Rightarrow> do {
         ob \<leftarrow> map_of (bufs w) p;
         Some (if isTable (obj_base ob) then (0, Some p) else (-1, None))
       }
   }"

section \<open>The dictionary stays sorted\<close>

lemma strcmp_sign: "strcmp s t < 0 \<longleftrightarrow> s < t" "0 < strcmp s t \<longleftrightarrow> t < s" "strcmp s t = 0 \<longleftrightarrow> s = t"
proof -
  have "(strcmp s t < 0 \<longleftrightarrow> s < t) \<and> (0 < strcmp s t \<longleftrightarrow> t < s) \<and> (strcmp s t = 0 \<longleftrightarrow> s = t)"
    by (induction s t rule: strcmp.induct) (auto simp: less_char_def)
  then show "strcmp s t < 0 \<longleftrightarrow> s < t" "0 < strcmp s t \<longleftrightarrow> t < s" "strcmp s t = 0 \<longleftrightarrow> s = t" by auto
qed

definition dict_ok :: "(string \<times> bptr) list \<Rightarrow> bool" where
  "dict_ok d \<longleftrightarrow> sorted (map fst d) \<and> distinct (map fst d)"

lemma set_qsort_insert [simp]: "set (qsort_insert cmp x xs) = insert x (set xs)"
  by (induction xs) auto

lemma length_qsort_insert [simp]: "length (qsort_insert cmp x xs) = Suc (length xs)"
  by (induction xs) auto

lemma set_qsort [simp]: "set (qsort cmp xs) = set xs"
  by (induction xs) (auto simp: qsort_def)

lemma bufMap_cmp_le: "bufMap_cmp a b \<le> 0 \<longleftrightarrow> fst a \<le> fst b"
  using strcmp_sign(2) [of "fst a" "fst b"] by (auto simp: bufMap_cmp_def not_less [symmetric])

lemma qsort_insert_ok:
  "dict_ok d \<Longrightarrow> fst x \<notin> fst ` set d \<Longrightarrow> dict_ok (qsort_insert bufMap_cmp x d)"
  by (induction d) (auto simp: dict_ok_def bufMap_cmp_le intro: order_trans)

lemma qsort_dict_ok: "distinct (map fst d) \<Longrightarrow> dict_ok (qsort bufMap_cmp d)"
proof (induction d)
  case Nil
  show ?case by (simp add: qsort_def dict_ok_def)
next
  case (Cons x d)
  then have "dict_ok (qsort_insert bufMap_cmp x (qsort bufMap_cmp d))"
    by (intro qsort_insert_ok) auto
  then show ?case by (simp add: qsort_def)
qed

lemma bsearch_range: "bsearch cmp xs l u = Some i \<Longrightarrow> l \<le> i \<and> i < u \<and> cmp (xs ! i) = 0"
proof (induction cmp xs l u rule: bsearch.induct)
  case (1 cmp xs l u)
  from 1(3) show ?case
    by (subst (asm) bsearch.simps) (use 1(1,2) in \<open>fastforce simp: Let_def split: if_splits\<close>)
qed

text \<open>A binary search finds a hit if the range has one and the comparison is monotone on it.\<close>

lemma bsearch_complete:
  assumes "u \<le> length xs" "l \<le> i" "i < u" "cmp (xs ! i) = 0"
    and "\<And>j k. j < k \<Longrightarrow> k < length xs \<Longrightarrow> cmp (xs ! j) \<le> 0 \<Longrightarrow> cmp (xs ! k) < 0"
  shows "\<exists>k. bsearch cmp xs l u = Some k"
  using assms
proof (induction cmp xs l u rule: bsearch.induct)
  case (1 cmp xs l u)
  let ?m = "(l + u) div 2"
  have m: "l < u" "l \<le> ?m" "?m < u" using "1.prems" by auto
  consider "cmp (xs ! ?m) < 0" | "cmp (xs ! ?m) > 0" | "cmp (xs ! ?m) = 0" by linarith
  then show ?case
  proof cases
    case 1
    have "\<not> ?m < i" using "1.prems"(5) [of ?m i] "1.prems"(1,3,4) 1 by linarith
    moreover have "i \<noteq> ?m" using "1.prems"(4) 1 by auto
    ultimately have "i < ?m" by linarith
    with "1.IH"(1) [OF m(1) refl 1] "1.prems" m 1 show ?thesis
      by (subst bsearch.simps) (auto simp: Let_def)
  next
    case 2
    have "\<not> i < ?m" using "1.prems"(5) [of i ?m] "1.prems"(1,4) m 2 by linarith
    moreover have "i \<noteq> ?m" using "1.prems"(4) 2 by auto
    ultimately have "?m < i" by linarith
    with "1.IH"(2) [OF m(1) refl _ 2] "1.prems" m 2 show ?thesis
      by (subst bsearch.simps) (auto simp: Let_def)
  next
    case 3
    with m show ?thesis by (subst bsearch.simps) (auto simp: Let_def)
  qed
qed

lemma dict_ok_nth: "dict_ok d \<Longrightarrow> j < k \<Longrightarrow> k < length d \<Longrightarrow> fst (d ! j) < fst (d ! k)"
proof -
  assume a: "dict_ok d" "j < k" "k < length d"
  then have "map fst d ! j \<le> map fst d ! k" "map fst d ! j \<noteq> map fst d ! k"
    by (auto simp: dict_ok_def sorted_nth_mono nth_eq_iff_index_eq simp del: nth_map)
  with a show ?thesis by simp
qed

text \<open>On a sorted dictionary the search is the lookup of an association list.\<close>

lemma bsearch_dict:
  assumes "dict_ok d"
  shows "bsearch (\<lambda>m. bufMap_cmp (name, 0) m) d 0 (length d) = None \<longleftrightarrow> map_of d name = None"
    and "bsearch (\<lambda>m. bufMap_cmp (name, 0) m) d 0 (length d) = Some i \<Longrightarrow>
           i < length d \<and> fst (d ! i) = name \<and> map_of d name = Some (snd (d ! i))"
proof -
  let ?b = "bsearch (\<lambda>m. bufMap_cmp (name, 0) m) d 0 (length d)"
  have dist: "distinct (map fst d)" using assms by (simp add: dict_ok_def)
  have hit: "i < length d \<and> fst (d ! i) = name \<and> map_of d name = Some (snd (d ! i))"
    if "?b = Some i" for i
  proof -
    from bsearch_range [OF that] have "i < length d" "fst (d ! i) = name"
      by (auto simp: bufMap_cmp_def strcmp_sign)
    moreover from this have "(name, snd (d ! i)) \<in> set d" by (metis nth_mem prod.collapse)
    ultimately show ?thesis using dist by simp
  qed
  have "\<exists>k. ?b = Some k" if "map_of d name = Some p" for p
  proof -
    from map_of_SomeD [OF that] obtain i where i: "i < length d" "d ! i = (name, p)"
      by (auto simp: in_set_conv_nth)
    show ?thesis
    proof (rule bsearch_complete [where i = i])
      fix j k assume "j < k" "k < length d" "bufMap_cmp (name, 0) (d ! j) \<le> 0"
      with dict_ok_nth [OF assms, of j k] show "bufMap_cmp (name, 0) (d ! k) < 0"
        by (auto simp: bufMap_cmp_le) (auto simp: bufMap_cmp_def strcmp_sign)
    qed (use i in \<open>auto simp: bufMap_cmp_def strcmp_sign\<close>)
  qed
  with hit show "?b = None \<longleftrightarrow> map_of d name = None" by (cases ?b; cases "map_of d name") force+
  show "?b = Some i \<Longrightarrow> i < length d \<and> fst (d ! i) = name \<and> map_of d name = Some (snd (d ! i))"
    by (rule hit)
qed

lemma lookup_map_of:
  assumes "dict_ok (dict w)" "length name < MAX_NAME"
  shows "lookup name w = Some (map_of (dict w) name)"
  using bsearch_dict [OF assms(1), of name] assms(2)
  by (cases "bsearch (\<lambda>m. bufMap_cmp (name, 0) m) (dict w) 0 (length (dict w))")
     (auto simp: lookup_def lookupBufMapIdx_def guard_def)

section \<open>The manager as a dictionary of buffers\<close>

text \<open>
  The invariant of the manager: the array is sorted without duplicates, and every entry points
  to a live buffer of that name.
\<close>

definition mgr_ok :: "world \<Rightarrow> bool" where
  "mgr_ok w \<longleftrightarrow>
     dict_ok (dict w) \<and> length (dict w) \<le> MAX_BUF \<and>
     (\<forall>(n, p) \<in> set (dict w). length n < MAX_NAME \<and>
        (case map_of (bufs w) p of None \<Rightarrow> False
         | Some ob \<Rightarrow> bname (obj_base ob) = n \<and> btype (obj_base ob) \<noteq> BUF_STDOUT))"

text \<open>The contract of the manager towards its clients, over the names it accepts.\<close>

locale buffer_dictionary =
  fixes look :: "string \<Rightarrow> 's \<Rightarrow> bptr option option"
    and make :: "string \<Rightarrow> 's \<Rightarrow> (int \<times> 's) option"
    and remove :: "string \<Rightarrow> 's \<Rightarrow> (int \<times> 's) option"
    and name_ok :: "string \<Rightarrow> bool"
    and inv :: "'s \<Rightarrow> bool"
  assumes look_total: "inv s \<Longrightarrow> name_ok n \<Longrightarrow> \<exists>r. look n s = Some r"
    and make_dup: "inv s \<Longrightarrow> name_ok n \<Longrightarrow> look n s = Some (Some p) \<Longrightarrow> make n s = Some (-1, s)"
    and make_new: "inv s \<Longrightarrow> name_ok n \<Longrightarrow> make n s = Some (0, s') \<Longrightarrow>
      inv s' \<and> look n s = Some None \<and> (\<exists>p. look n s' = Some (Some p)) \<and>
      (\<forall>m. m \<noteq> n \<longrightarrow> look m s' = look m s)"
    and remove_hit: "inv s \<Longrightarrow> name_ok n \<Longrightarrow> look n s = Some (Some p) \<Longrightarrow>
      \<exists>s'. remove n s = Some (0, s') \<and> inv s' \<and> look n s' = Some None \<and>
        (\<forall>m. m \<noteq> n \<longrightarrow> look m s' = look m s)"
begin

text \<open>Creating a buffer and killing it again gives every name its old meaning.\<close>

lemma make_remove:
  assumes "inv s" "name_ok n" "make n s = Some (0, s')"
  shows "\<exists>s''. remove n s' = Some (0, s'') \<and> inv s'' \<and> (\<forall>m. look m s'' = look m s)"
proof -
  obtain p where s': "inv s'" "look n s = Some None" "look n s' = Some (Some p)"
    "\<And>m. m \<noteq> n \<Longrightarrow> look m s' = look m s"
    using make_new assms by blast
  obtain s'' where "remove n s' = Some (0, s'')" "inv s''" "look n s'' = Some None"
    "\<And>m. m \<noteq> n \<Longrightarrow> look m s'' = look m s'"
    using remove_hit s' assms(2) by blast
  with s' show ?thesis by metis
qed

text \<open>A second creation under the same name fails and changes nothing.\<close>

lemma make_twice:
  assumes "inv s" "name_ok n" "make n s = Some (0, s')"
  shows "make n s' = Some (-1, s')"
  using make_new [OF assms] make_dup assms(2) by blast

end

lemma lookup_dict_cong:
  "dict_ok (dict w) \<Longrightarrow> dict_ok (dict w') \<Longrightarrow> map_of (dict w') m = map_of (dict w) m \<Longrightarrow>
     lookup m w' = lookup m w"
proof (cases "length m < MAX_NAME")
  case True
  then show "dict_ok (dict w) \<Longrightarrow> dict_ok (dict w') \<Longrightarrow> map_of (dict w') m = map_of (dict w) m \<Longrightarrow>
     lookup m w' = lookup m w"
    by (simp add: lookup_map_of)
qed (simp add: lookup_def lookupBufMapIdx_def guard_def)

lemma new_buffer_fresh:
  "env_law E \<Longrightarrow> new_buffer E name shared sz wt w = Some (Some (p, ob)) \<Longrightarrow>
     map_of (bufs w) p = None \<and> bname (obj_base ob) = name \<and> btype (obj_base ob) = shared \<and> shared \<noteq> BUF_STDOUT"
  by (auto simp: new_buffer_def env_law_def buffer_init_def split: buf_t.splits)

lemma map_of_qsort:
  assumes "distinct (map fst d)" "n \<notin> fst ` set d"
  shows "map_of (qsort bufMap_cmp (d @ [(n, p)])) = (map_of d)(n \<mapsto> p)"
proof
  fix m
  have dist: "distinct (map fst (d @ [(n, p)]))" using assms by auto
  then have q: "distinct (map fst (qsort bufMap_cmp (d @ [(n, p)])))"
    using qsort_dict_ok dict_ok_def by blast
  have "map_of (qsort bufMap_cmp (d @ [(n, p)])) m = map_of (d @ [(n, p)]) m"
    using map_of_inject_set [OF q dist] by simp
  also have "\<dots> = ((map_of d)(n \<mapsto> p)) m"
    using map_of_eq_None_iff [of d n] assms(2) by (auto simp: map_add_def split: option.splits)
  finally show "map_of (qsort bufMap_cmp (d @ [(n, p)])) m = ((map_of d)(n \<mapsto> p)) m" .
qed

lemma length_qsort [simp]: "length (qsort cmp xs) = length xs"
  by (induction xs) (auto simp: qsort_def)

text \<open>A successful \<open>create\<close>: what the new state is.\<close>

lemma create_success:
  assumes "mgr_ok w" "length n < MAX_NAME" "env_law E" "create E n shared sz wt w = Some (0, w')"
  obtains p ob where "map_of (dict w) n = None" "map_of (bufs w) p = None"
    "new_buffer E n shared sz wt w = Some (Some (p, ob))"
    "map_of (dict w') = (map_of (dict w))(n \<mapsto> p)" "bufs w' = AList.update p ob (bufs w)"
    "nodes (pool w') = nodes (pool w)" "mgr_ok w'"
proof -
  have d: "dict_ok (dict w)" using assms(1) by (simp add: mgr_ok_def)
  have none: "map_of (dict w) n = None"
    using assms(4) lookup_map_of [OF d assms(2)] by (auto simp: create_def split: if_splits)
  then have nin: "n \<notin> fst ` set (dict w)" by (simp add: map_of_eq_None_iff)
  obtain p ob where nb: "new_buffer E n shared sz wt w = Some (Some (p, ob))"
    and len: "length (dict w) < MAX_BUF"
    and w': "w' = (set_obj p ob w)\<lparr>dict := qsort bufMap_cmp (dict w @ [(n, p)]),
             pool := mm_unlock (mm_lock (pool w))\<rparr>"
    using assms(4) none lookup_map_of [OF d assms(2)]
    by (auto simp: create_def split: option.splits)
  have dist: "distinct (map fst (dict w))" using d by (simp add: dict_ok_def)
  note fresh = new_buffer_fresh [OF assms(3) nb]
  have "dict_ok (qsort bufMap_cmp (dict w @ [(n, p)]))"
    using dist nin by (intro qsort_dict_ok) auto
  then have "mgr_ok w'"
    using assms(1,2) fresh len nin unfolding mgr_ok_def w' set_obj_def
    by (auto split: option.splits)
  show thesis
    by (rule that [OF none _ nb _ _ _ \<open>mgr_ok w'\<close>])
       (use fresh map_of_qsort [OF dist nin] in \<open>auto simp: w' set_obj_def mm_lock_def\<close>)
qed

lemma map_of_remove_nth:
  assumes "distinct (map fst d)" "r < length d"
  shows "map_of (take r d @ drop (r + 1) d) m = (if m = fst (d ! r) then None else map_of d m)"
proof -
  have d: "d = take r d @ d ! r # drop (r + 1) d" using assms(2) by (simp add: id_take_nth_drop)
  have "distinct (map fst (take r d @ d ! r # drop (r + 1) d))" using assms(1) d by simp
  then have nin: "fst (d ! r) \<notin> fst ` set (take r d)" "fst (d ! r) \<notin> fst ` set (drop (r + 1) d)" by auto
  have "map_of d m = map_of (take r d @ d ! r # drop (r + 1) d) m" using d by simp
  moreover have "map_of (take r d) (fst (d ! r)) = None" "map_of (drop (r + 1) d) (fst (d ! r)) = None"
    using nin by (simp_all add: map_of_eq_None_iff)
  ultimately show ?thesis by (cases "d ! r") (auto simp: map_add_def split: option.splits)
qed

lemma dict_ok_remove_nth:
  assumes "dict_ok d" "r < length d"
  shows "dict_ok (take r d @ drop (r + 1) d)"
proof -
  have "d = take r d @ d ! r # drop (r + 1) d" using assms(2) by (simp add: id_take_nth_drop)
  with assms(1) have "dict_ok (take r d @ d ! r # drop (r + 1) d)" by simp
  then show ?thesis by (auto simp: dict_ok_def sorted_append)
qed

text \<open>\<open>kill\<close> of a name that is there.\<close>

lemma kill_success:
  assumes "mgr_ok w" "length n < MAX_NAME" "map_of (dict w) n = Some p"
  obtains w' where "kill n w = Some (0, w')" "mgr_ok w'" "map_of (dict w') n = None"
    "\<And>m. m \<noteq> n \<Longrightarrow> map_of (dict w') m = map_of (dict w) m"
    "bufs w' = AList.delete p (bufs w)" "pool w' = mm_unlock (pool w)"
proof -
  have d: "dict_ok (dict w)" and dist: "distinct (map fst (dict w))"
    using assms(1) by (auto simp: mgr_ok_def dict_ok_def)
  let ?b = "bsearch (\<lambda>m. bufMap_cmp (n, 0) m) (dict w) 0 (length (dict w))"
  obtain r where r: "?b = Some r" using bsearch_dict(1) [OF d, of n] assms(3) by fastforce
  from bsearch_dict(2) [OF d r] assms(3) have
    r': "r < length (dict w)" "fst (dict w ! r) = n" "snd (dict w ! r) = p" by auto
  obtain ob where ob: "map_of (bufs w) p = Some ob" "bname (obj_base ob) = n"
    "btype (obj_base ob) \<noteq> BUF_STDOUT"
    using assms(1) map_of_SomeD [OF assms(3)] by (auto simp: mgr_ok_def split: option.splits)
  let ?d = "take r (dict w) @ drop (r + 1) (dict w)"
  let ?w = "w\<lparr>pool := mm_unlock (mm_lock (pool w)), bufs := AList.delete p (bufs w), dict := ?d\<rparr>"
  have k: "kill n w = Some (0, ?w)"
    using r r' ob assms(2) by (simp add: kill_def lookupBufMapIdx_def guard_def Let_def)
  have mo: "map_of ?d m = (if m = n then None else map_of (dict w) m)" for m
    using map_of_remove_nth [OF dist r'(1)] r'(2) by simp
  have dd: "dict_ok ?d" by (rule dict_ok_remove_nth [OF d r'(1)])
  have ent: "(m, q) \<in> set (dict w) \<and> m \<noteq> n" if "(m, q) \<in> set ?d" for m q
  proof -
    have "map_of ?d m = Some q" using dd that by (intro map_of_is_SomeI) (auto simp: dict_ok_def)
    with mo [of m] show ?thesis using map_of_SomeD by (force split: if_splits)
  qed
  have "mgr_ok ?w"
    unfolding mgr_ok_def
  proof (intro conjI ballI, goal_cases)
    case 2
    have "length (dict w) \<le> MAX_BUF" using assms(1) by (simp add: mgr_ok_def)
    then show ?case using r'(1) by simp
  next
    case (3 x)
    obtain m q where x: "x = (m, q)" by fastforce
    with 3 have e: "(m, q) \<in> set (dict w)" "m \<noteq> n" using ent by auto
    then have "q \<noteq> p" using assms(1) ob by (auto simp: mgr_ok_def)
    then show ?case using e assms(1) x by (fastforce simp: mgr_ok_def split: option.splits)
  qed (use dd in simp)
  show thesis
    by (rule that [OF k \<open>mgr_ok ?w\<close>]) (use mo in \<open>auto simp: mm_lock_def mm_unlock_def\<close>)
qed

text \<open>The buffer manager, for a fixed kind of buffer, is such a dictionary.\<close>

interpretation bm: buffer_dictionary lookup "\<lambda>n. create E n shared sz wt" kill
  "\<lambda>n. length n < MAX_NAME" "\<lambda>w. env_law E \<and> mgr_ok w" for E shared sz wt
proof (unfold_locales, goal_cases)
  case (1 s n)
  then show ?case by (auto simp: lookup_map_of mgr_ok_def)
next
  case (2 s n p)
  then show ?case by (auto simp: create_def)
next
  case (3 s n s')
  then have d: "dict_ok (dict s)" by (simp add: mgr_ok_def)
  from 3 obtain p where p: "map_of (dict s) n = None" "map_of (dict s') = (map_of (dict s))(n \<mapsto> p)"
    "mgr_ok s'"
    by (blast elim: create_success)
  then have d': "dict_ok (dict s')" by (simp add: mgr_ok_def)
  show ?case
    using 3 p d d' by (auto simp: lookup_map_of intro!: lookup_dict_cong)
next
  case (4 s n p)
  then have d: "dict_ok (dict s)" by (simp add: mgr_ok_def)
  with 4 have "map_of (dict s) n = Some p" by (simp add: lookup_map_of)
  with 4 obtain s' where s': "kill n s = Some (0, s')" "mgr_ok s'" "map_of (dict s') n = None"
    "\<And>m. m \<noteq> n \<Longrightarrow> map_of (dict s') m = map_of (dict s) m"
    by (blast elim: kill_success)
  then have d': "dict_ok (dict s')" by (simp add: mgr_ok_def)
  show ?case
    using 4 s' d d' by (auto simp: lookup_map_of intro!: lookup_dict_cong)
qed

end
