(* ===== verification/BufWorld.thy ===== *)
theory BufWorld
  imports BufferMngr
begin

text \<open>
  All buffers of a world together: each queue holds the tuples its \<open>contents\<close> names, and an
  operation on one buffer leaves the contents of every other one alone, although the shared
  buffers keep their nodes in one pool.
\<close>

section \<open>Contents and well-formedness\<close>

definition contents :: "world \<Rightarrow> bptr \<Rightarrow> tuple list" where
  "contents w p =
     (case map_of (bufs w) p of
        Some (CommonBuf b q) \<Rightarrow> commonBuf_contents q
      | Some (SharedBuf b s) \<Rightarrow> sharedBuf_contents (pool w) s
      | _ \<Rightarrow> [])"

definition is_queue :: "world \<Rightarrow> bptr \<Rightarrow> bool" where
  "is_queue w p =
     (case map_of (bufs w) p of
        Some (CommonBuf b q) \<Rightarrow> True
      | Some (SharedBuf b s) \<Rightarrow> True
      | _ \<Rightarrow> False)"

definition buf_addrs :: "world \<Rightarrow> bptr \<Rightarrow> addr list" where
  "buf_addrs w p =
     (case map_of (bufs w) p of
        Some (SharedBuf b s) \<Rightarrow> sharedBuf_addrs (pool w) s
      | _ \<Rightarrow> [])"

fun obj_ok :: "mm \<Rightarrow> bufobj \<Rightarrow> bool" where
  "obj_ok m (CommonBuf b q) = commonBuf_inv q"
| "obj_ok m (SharedBuf b s) = sharedBuf_inv m s"
| "obj_ok m _ = True"

definition world_ok :: "world \<Rightarrow> bool" where
  "world_ok w \<longleftrightarrow>
     distinct (map fst (bufs w)) \<and> distinct (map fst (nodes (pool w))) \<and>
     (\<forall>p ob. map_of (bufs w) p = Some ob \<longrightarrow> obj_ok (pool w) ob) \<and>
     (\<forall>p q. p \<noteq> q \<longrightarrow> set (buf_addrs w p) \<inter> set (buf_addrs w q) = {})"

text \<open>What no buffer operation changes: the classes and the fields of the buffers, the dictionary.\<close>

fun obj_kind :: "bufobj \<Rightarrow> nat" where
  "obj_kind (CommonBuf _ _) = 0"
| "obj_kind (SharedBuf _ _) = 1"
| "obj_kind (TableBuf _) = 2"
| "obj_kind (WindowBuf _ _) = 3"

definition same_shape :: "world \<Rightarrow> world \<Rightarrow> bool" where
  "same_shape w w' \<longleftrightarrow>
     dict w' = dict w \<and> new_arrival w' = new_arrival w \<and>
     (\<forall>p. map_option (\<lambda>ob. (obj_base ob, obj_kind ob)) (map_of (bufs w') p)
          = map_option (\<lambda>ob. (obj_base ob, obj_kind ob)) (map_of (bufs w) p))"

lemma same_shape_refl [simp]: "same_shape w w"
  by (simp add: same_shape_def)

lemma same_shape_trans: "same_shape a b \<Longrightarrow> same_shape b c \<Longrightarrow> same_shape a c"
  by (simp add: same_shape_def)

lemma same_shape_queue: "same_shape w w' \<Longrightarrow> is_queue w' p = is_queue w p"
proof -
  assume "same_shape w w'"
  then have "map_option obj_kind (map_of (bufs w') p) = map_option obj_kind (map_of (bufs w) p)"
    using arg_cong [where f = "map_option snd"] unfolding same_shape_def
    by (fastforce simp: option.map_comp comp_def)
  moreover have "is_queue v p \<longleftrightarrow> (case map_option obj_kind (map_of (bufs v) p) of None \<Rightarrow> False | Some k \<Rightarrow> k \<le> 1)" for v
    by (auto simp: is_queue_def split: option.splits bufobj.splits)
  ultimately show ?thesis by (simp only:)
qed

section \<open>The frame of an operation\<close>

lemma rep_frame:
  assumes "sharedBuf_rep m s as" "\<And>a. a \<in> set as \<Longrightarrow> map_of (nodes m') a = map_of (nodes m) a"
  shows "sharedBuf_rep m' s as" "sharedBuf_contents m' s = sharedBuf_contents m s"
    "sharedBuf_addrs m' s = sharedBuf_addrs m s"
proof -
  have "linked (nodes m') (head s) as"
    by (rule linked_frame) (use assms in \<open>auto simp: sharedBuf_rep_def\<close>)
  then show rep: "sharedBuf_rep m' s as" using assms(1) by (simp add: sharedBuf_rep_def)
  show "sharedBuf_addrs m' s = sharedBuf_addrs m s" using rep_addrs assms(1) rep by metis
  show "sharedBuf_contents m' s = sharedBuf_contents m s"
    unfolding sharedBuf_contents_rep [OF rep] sharedBuf_contents_rep [OF assms(1)]
    using assms(2) by simp
qed

text \<open>
  An update of the object at \<open>p\<close> and of the pool that only touches nodes of that object, or nodes
  no object had, keeps the world well-formed and every other object as it was.
\<close>

lemma update_frame:
  assumes ok: "world_ok w" and p: "map_of (bufs w) p = Some ob"
    and w': "bufs w' = AList.update p ob' (bufs w)"
    and nd: "distinct (map fst (nodes (pool w')))" and ok': "obj_ok (pool w') ob'"
    and keep: "\<And>q a. q \<noteq> p \<Longrightarrow> a \<in> set (buf_addrs w q) \<Longrightarrow>
                 map_of (nodes (pool w')) a = map_of (nodes (pool w)) a"
    and disj: "\<And>q. q \<noteq> p \<Longrightarrow> set (buf_addrs w' p) \<inter> set (buf_addrs w q) = {}"
  shows "world_ok w'" and "\<And>q. q \<noteq> p \<Longrightarrow> contents w' q = contents w q"
proof -
  have other: "map_of (bufs w') q = map_of (bufs w) q" if "q \<noteq> p" for q using that w' by simp
  have rep: "sharedBuf_rep (pool w) s (sharedBuf_addrs (pool w) s)"
    if "map_of (bufs w) q = Some (SharedBuf b s)" for q b s
    using ok that unfolding world_ok_def by (force simp: sharedBuf_inv_def)
  have fr: "sharedBuf_rep (pool w') s (sharedBuf_addrs (pool w) s) \<and>
        sharedBuf_contents (pool w') s = sharedBuf_contents (pool w) s \<and>
        sharedBuf_addrs (pool w') s = sharedBuf_addrs (pool w) s"
    if "map_of (bufs w) q = Some (SharedBuf b s)" "q \<noteq> p" for q b s
    using rep_frame [OF rep [OF that(1)], of "pool w'"] keep [OF that(2)] that(1)
    by (auto simp: buf_addrs_def)
  show "contents w' q = contents w q" if "q \<noteq> p" for q
    using fr that other [OF that] by (auto simp: contents_def split: option.splits bufobj.splits)
  have addrs: "buf_addrs w' q = buf_addrs w q" if "q \<noteq> p" for q
    using fr that other [OF that] by (auto simp: buf_addrs_def split: option.splits bufobj.splits)
  have obs: "obj_ok (pool w') o2" if "map_of (bufs w') q = Some o2" for q o2
  proof (cases "q = p")
    case True
    then show ?thesis using that w' ok' by simp
  next
    case False
    then have o2: "map_of (bufs w) q = Some o2" using that other by simp
    then have "obj_ok (pool w) o2" using ok by (auto simp: world_ok_def)
    then show ?thesis
      using fr o2 False nd by (cases o2) (auto simp: sharedBuf_inv_def)
  qed
  have dis: "set (buf_addrs w' q) \<inter> set (buf_addrs w' q') = {}" if "q \<noteq> q'" for q q'
  proof -
    have "set (buf_addrs w q) \<inter> set (buf_addrs w q') = {}" using that ok by (simp add: world_ok_def)
    with that disj [of q] disj [of q'] addrs [of q] addrs [of q'] show ?thesis
      by (cases "q = p"; cases "q' = p") auto
  qed
  show "world_ok w'"
    unfolding world_ok_def using ok nd obs dis w' by (auto simp: world_ok_def)
qed

lemma other_addrs_live:
  assumes "world_ok w" "a \<in> set (buf_addrs w q)"
  shows "map_of (nodes (pool w)) a \<noteq> None"
proof -
  obtain b s where q: "map_of (bufs w) q = Some (SharedBuf b s)" "a \<in> set (sharedBuf_addrs (pool w) s)"
    using assms(2) by (cases "map_of (bufs w) q") (auto simp: buf_addrs_def split: bufobj.splits)
  then have "linked (nodes (pool w)) (head s) (sharedBuf_addrs (pool w) s)"
    using assms(1) unfolding world_ok_def by (force simp: sharedBuf_inv_def sharedBuf_rep_def)
  from linked_lookup [OF this q(2)] show ?thesis by auto
qed

lemma same_shape_update:
  "map_of (bufs w) p = Some ob \<Longrightarrow> bufs w' = AList.update p ob' (bufs w) \<Longrightarrow>
     obj_base ob' = obj_base ob \<Longrightarrow> obj_kind ob' = obj_kind ob \<Longrightarrow>
     dict w' = dict w \<Longrightarrow> new_arrival w' = new_arrival w \<Longrightarrow> same_shape w w'"
  by (auto simp: same_shape_def)

lemma env_law_mm: "env_law E \<Longrightarrow> mm_law (mm_env.truncate E)"
  by (simp add: env_law_def mm_law_def mm_env.defs)

text \<open>What a \<open>put\<close> that returns did, for every class of buffer.\<close>

lemma buf_put_effect:
  assumes ok: "world_ok w" and law: "env_law E" and d: "dbt_ok d" and put: "buf_put E p d w = Some (rc, w')"
  shows "world_ok w' \<and> same_shape w w' \<and> (\<forall>q. q \<noteq> p \<longrightarrow> contents w' q = contents w q) \<and>
     (is_queue w p \<longrightarrow> contents w' p = (if rc = 0 then contents w p @ [view d] else contents w p))"
proof -
  obtain ob where ob: "map_of (bufs w) p = Some ob" using put by (auto simp: buf_put_def)
  have oko: "obj_ok (pool w) ob" using ok ob by (auto simp: world_ok_def)
  have nd: "distinct (map fst (nodes (pool w)))" using ok by (simp add: world_ok_def)
  show ?thesis
  proof (cases ob)
    case (CommonBuf b q)
    with put ob obtain q' where q': "commonBuf_put q d = Some (rc, q')" and w': "w' = set_obj p (CommonBuf b q') w"
      by (auto simp: buf_put_def)
    have eff: "commonBuf_inv q'"
      "commonBuf_contents q' = (if rc = 0 then commonBuf_contents q @ [view d] else commonBuf_contents q)"
      using cb.put_any [OF _ d q'] oko CommonBuf by auto
    have bw: "bufs w' = AList.update p (CommonBuf b q') (bufs w)" "pool w' = pool w"
      by (auto simp: w' set_obj_def)
    have fr: "world_ok w' \<and> (\<forall>x. x \<noteq> p \<longrightarrow> contents w' x = contents w x)"
      using update_frame [OF ok ob bw(1)] bw nd eff by (auto simp: buf_addrs_def)
    moreover have "same_shape w w'"
      by (rule same_shape_update [OF ob bw(1)]) (simp_all add: w' set_obj_def CommonBuf)
    ultimately show ?thesis using eff ob bw CommonBuf by (auto simp: contents_def is_queue_def)
  next
    case (SharedBuf b s)
    with put ob obtain m s' where s': "sharedBuf_put (mm_env.truncate E) (pool w) s d = Some (rc, m, s')"
      and w': "w' = (set_obj p (SharedBuf b s') w)\<lparr>pool := m\<rparr>"
      by (auto simp: buf_put_def)
    have rep: "sharedBuf_rep (pool w) s (sharedBuf_addrs (pool w) s)"
      using oko SharedBuf by (simp add: sharedBuf_inv_def)
    obtain as' where as': "distinct (map fst (nodes m))" "sharedBuf_rep m s' as'"
      "\<And>a. a \<in> set as' \<Longrightarrow> a \<in> set (buf_addrs w p) \<or> map_of (nodes (pool w)) a = None"
      "sharedBuf_contents m s' = (if rc = 0 then sharedBuf_contents (pool w) s @ [view d] else sharedBuf_contents (pool w) s)"
      "\<And>a. a \<notin> set (buf_addrs w p) \<Longrightarrow> map_of (nodes (pool w)) a \<noteq> None \<Longrightarrow>
         map_of (nodes m) a = map_of (nodes (pool w)) a"
      using sharedBuf_put_frame [OF env_law_mm [OF law] nd rep d s'] ob SharedBuf
      by (auto simp: buf_addrs_def)
    have bw: "bufs w' = AList.update p (SharedBuf b s') (bufs w)" "pool w' = m"
      by (auto simp: w' set_obj_def)
    have "buf_addrs w' p = as'" using bw rep_addrs [OF as'(2)] by (simp add: buf_addrs_def)
    then have fr: "world_ok w'" "\<And>x. x \<noteq> p \<Longrightarrow> contents w' x = contents w x"
      using update_frame [OF ok ob bw(1)] bw as' ok other_addrs_live [OF ok]
      by (fastforce simp: sharedBuf_inv_rep world_ok_def)+
    moreover have "same_shape w w'"
      by (rule same_shape_update [OF ob bw(1)]) (simp_all add: w' set_obj_def SharedBuf)
    ultimately show ?thesis using as'(4) ob bw SharedBuf by (auto simp: contents_def is_queue_def)
  qed (use put ob ok in \<open>auto simp: buf_put_def is_queue_def\<close>)
qed

text \<open>What a \<open>pop\<close> did that found a tuple, and that it does find the oldest one.\<close>

lemma buf_pop_effect:
  assumes ok: "world_ok w" and c: "contents w p = x # q"
  shows "\<exists>w'. buf_pop p w = Some (0, w') \<and> world_ok w' \<and> same_shape w w' \<and> contents w' p = q \<and>
     (\<forall>r. r \<noteq> p \<longrightarrow> contents w' r = contents w r)"
proof -
  obtain ob where ob: "map_of (bufs w) p = Some ob" using c by (auto simp: contents_def split: option.splits)
  have oko: "obj_ok (pool w) ob" using ok ob by (auto simp: world_ok_def)
  have nd: "distinct (map fst (nodes (pool w)))" using ok by (simp add: world_ok_def)
  show ?thesis
  proof (cases ob)
    case (CommonBuf b l)
    with c ob have cl: "commonBuf_contents l = x # q" by (simp add: contents_def)
    obtain l' where l': "commonBuf_pop l = Some (0, l')" "commonBuf_inv l'" "commonBuf_contents l' = q"
      using cb.pop_ok [OF _ cl] oko CommonBuf by auto
    let ?w = "set_obj p (CommonBuf b l') w"
    have bw: "bufs ?w = AList.update p (CommonBuf b l') (bufs w)" by (simp add: set_obj_def)
    have "world_ok ?w \<and> (\<forall>r. r \<noteq> p \<longrightarrow> contents ?w r = contents w r)"
      using update_frame [OF ok ob bw] nd l' by (auto simp: buf_addrs_def set_obj_def)
    moreover have "same_shape w ?w"
      by (rule same_shape_update [OF ob bw]) (simp_all add: set_obj_def CommonBuf)
    ultimately show ?thesis using l' ob CommonBuf
      by (intro exI [of _ ?w]) (auto simp: buf_pop_def contents_def set_obj_def)
  next
    case (SharedBuf b s)
    have rep: "sharedBuf_rep (pool w) s (sharedBuf_addrs (pool w) s)"
      using oko SharedBuf by (simp add: sharedBuf_inv_def)
    have cs: "sharedBuf_contents (pool w) s = x # q" using c ob SharedBuf by (simp add: contents_def)
    then obtain a as where as: "sharedBuf_addrs (pool w) s = a # as"
      by (cases "sharedBuf_addrs (pool w) s") (auto simp: sharedBuf_contents_def)
    obtain m s' where s': "sharedBuf_pop (pool w) s = Some (0, m, s')" "distinct (map fst (nodes m))"
      "sharedBuf_rep m s' as" "sharedBuf_contents m s' = q"
      "\<And>r. r \<noteq> a \<Longrightarrow> map_of (nodes m) r = map_of (nodes (pool w)) r"
      using sharedBuf_pop_rep [OF nd, of s a as] rep as cs by auto
    let ?w = "(set_obj p (SharedBuf b s') w)\<lparr>pool := m\<rparr>"
    have bw: "bufs ?w = AList.update p (SharedBuf b s') (bufs w)" by (simp add: set_obj_def)
    have addrs: "buf_addrs ?w p = as" "buf_addrs w p = a # as"
      using rep_addrs [OF s'(3)] ob SharedBuf as by (simp_all add: buf_addrs_def set_obj_def)
    have dj: "set (a # as) \<inter> set (buf_addrs w r) = {}" if "r \<noteq> p" for r
      using ok that unfolding world_ok_def addrs(2) [symmetric] by blast
    have "world_ok ?w \<and> (\<forall>r. r \<noteq> p \<longrightarrow> contents ?w r = contents w r)"
      using update_frame [OF ok ob bw] s' dj addrs by (fastforce simp: sharedBuf_inv_rep)
    moreover have "same_shape w ?w"
      by (rule same_shape_update [OF ob bw]) (simp_all add: set_obj_def SharedBuf)
    ultimately show ?thesis using s' ob SharedBuf
      by (intro exI [of _ ?w]) (auto simp: buf_pop_def contents_def set_obj_def)
  qed (use c ob in \<open>auto simp: contents_def\<close>)
qed

lemma buf_empty_contents:
  assumes "world_ok w" "is_queue w p"
  shows "buf_empty p w = Some (contents w p = [])"
proof -
  obtain ob where ob: "map_of (bufs w) p = Some ob" "obj_ok (pool w) ob"
    using assms by (auto simp: is_queue_def world_ok_def split: option.splits)
  then show ?thesis
    using assms(2) sharedBuf_empty_rep sharedBuf_contents_Nil
    by (cases ob) (auto simp: buf_empty_def buf_empty_rc_def is_queue_def contents_def
        cb.empty_iff sharedBuf_inv_def)
qed

lemma buf_get_contents:
  assumes "world_ok w" "contents w p = x # q" "fits_tuple x dst"
  shows "\<exists>dst'. buf_get p dst w = Some (0, dst') \<and> view dst' = x"
proof -
  obtain ob where ob: "map_of (bufs w) p = Some ob" "obj_ok (pool w) ob"
    using assms by (auto simp: contents_def world_ok_def split: option.splits)
  show ?thesis
  proof (cases ob)
    case (CommonBuf b l)
    with ob assms cb.get_some [of l x q dst] show ?thesis by (simp add: buf_get_def contents_def)
  next
    case (SharedBuf b s)
    let ?E = "\<lparr>mm_malloc = \<lambda>_. None, mm_ok = \<lambda>_ _. True\<rparr>"
    have "mm_law ?E" by (simp add: mm_law_def)
    with SharedBuf ob assms sb.get_some [of ?E "(pool w, s)" x q dst] show ?thesis
      by (simp add: buf_get_def contents_def sb_defs)
  qed (use assms ob in \<open>auto simp: contents_def\<close>)
qed

section \<open>Interleaved operations on many buffers\<close>

datatype wop = WPut bptr dbt | WPop bptr

text \<open>The operations one after the other, stopping at the first error code.\<close>

fun run_wops :: "'e env_scheme \<Rightarrow> wop list \<Rightarrow> world \<Rightarrow> (int \<times> world) option" where
  "run_wops E [] w = Some (0, w)"
| "run_wops E (WPut p d # ops) w = do {
     (rc, w') \<leftarrow> buf_put E p d w;
     if rc = 0 then run_wops E ops w' else Some (rc, w')
   }"
| "run_wops E (WPop p # ops) w = do {
     (rc, w') \<leftarrow> buf_pop p w;
     if rc = 0 then run_wops E ops w' else Some (rc, w')
   }"

text \<open>What they promise: a family of queues, of which each operation changes one.\<close>

fun spec_wops :: "wop list \<Rightarrow> (bptr \<Rightarrow> tuple list) \<Rightarrow> (bptr \<Rightarrow> tuple list) option" where
  "spec_wops [] c = Some c"
| "spec_wops (WPut p d # ops) c = spec_wops ops (c(p := c p @ [view d]))"
| "spec_wops (WPop p # ops) c = (case c p of [] \<Rightarrow> None | _ # q \<Rightarrow> spec_wops ops (c(p := q)))"

definition wops_ok :: "world \<Rightarrow> wop list \<Rightarrow> bool" where
  "wops_ok w ops \<longleftrightarrow> list_all (\<lambda>x. case x of WPut p d \<Rightarrow> is_queue w p \<and> dbt_ok d | WPop p \<Rightarrow> True) ops"

definition pool_serves :: "'e env_scheme \<Rightarrow> bool" where
  "pool_serves E \<longleftrightarrow> (\<forall>m k. mm_malloc E m \<noteq> None \<and> mm_ok E m k)"

lemma buf_put_served:
  assumes ok: "world_ok w" and law: "env_law E" "pool_serves E" and d: "dbt_ok d" and q: "is_queue w p"
  shows "\<exists>w'. buf_put E p d w = Some (0, w')"
proof -
  obtain ob where ob: "map_of (bufs w) p = Some ob" "obj_ok (pool w) ob"
    using ok q by (auto simp: is_queue_def world_ok_def split: option.splits)
  show ?thesis
  proof (cases ob)
    case (CommonBuf b l)
    with ob cb.put_ok [of l d] d show ?thesis by (auto simp: buf_put_def)
  next
    case (SharedBuf b s)
    let ?E = "mm_env.truncate E"
    have "sb_ready ?E (pool w, s) d"
      using law(2) by (auto simp: sb_defs pool_serves_def payload_ok_def mm_env.defs)
    with SharedBuf ob sb.put_ok [of ?E "(pool w, s)" d] d env_law_mm [OF law(1)] show ?thesis
      by (fastforce simp: buf_put_def sb_defs)
  qed (use q ob in \<open>auto simp: is_queue_def\<close>)
qed

lemma wops_ok_shape: "same_shape w w' \<Longrightarrow> wops_ok w' ops = wops_ok w ops"
  by (simp add: wops_ok_def same_shape_queue cong: wop.case_cong)

text \<open>
  C6: Interleaved \<open>put\<close> and \<open>pop\<close> operations on any number of heap and shared-memory buffers
  that share one pool do exactly what the same operations do on a family of independent
  queues: every legal sequence runs to the end, each buffer holds what its queue holds, the
  linked lists in the pool stay well-formed and disjoint, and classes, fields and names of the
  buffers are as before.
\<close>

theorem buffers_are_queues:
  assumes "env_law E" "pool_serves E" "world_ok w" "wops_ok w ops"
    and "spec_wops ops (contents w) = Some c"
  shows "\<exists>w'. run_wops E ops w = Some (0, w') \<and> contents w' = c \<and> world_ok w' \<and> same_shape w w'"
  using assms(3-)
proof (induction ops arbitrary: w)
  case Nil
  then show ?case by simp
next
  case (Cons a ops)
  show ?case
  proof (cases a)
    case (WPut p d)
    with Cons.prems have pre: "is_queue w p" "dbt_ok d" "wops_ok w ops" by (auto simp: wops_ok_def)
    obtain w1 where w1: "buf_put E p d w = Some (0, w1)"
      using buf_put_served assms(1,2) Cons.prems(1) pre by blast
    from buf_put_effect [OF Cons.prems(1) assms(1) pre(2) w1] pre(1) have
      eff: "world_ok w1" "same_shape w w1" "contents w1 = (contents w)(p := contents w p @ [view d])" by auto
    have "spec_wops ops (contents w1) = Some c" using Cons.prems(3) WPut eff(3) by simp
    from Cons.IH [OF eff(1) _ this] wops_ok_shape [OF eff(2)] pre(3) w1 WPut eff(2)
    show ?thesis by (auto intro: same_shape_trans)
  next
    case (WPop p)
    with Cons.prems obtain x q where q: "contents w p = x # q" "spec_wops ops ((contents w)(p := q)) = Some c"
      by (auto split: list.splits)
    from buf_pop_effect [OF Cons.prems(1) q(1)] obtain w1 where
      w1: "buf_pop p w = Some (0, w1)" "world_ok w1" "same_shape w w1" and
      c1: "contents w1 p = q" "\<And>r. r \<noteq> p \<Longrightarrow> contents w1 r = contents w r"
      by blast
    have "contents w1 = (contents w)(p := q)" using c1 by (intro ext) simp
    then have spec: "spec_wops ops (contents w1) = Some c" using q(2) by simp
    have "wops_ok w1 ops" using wops_ok_shape [OF w1(3)] Cons.prems(2) WPop by (simp add: wops_ok_def)
    from Cons.IH [OF w1(2) this spec] w1 WPop show ?thesis by (auto intro: same_shape_trans)
  qed
qed

section \<open>A concrete environment\<close>

text \<open>An allocator that hands out the address above all addresses in use; its pool is never full.\<close>

definition bump :: "(nat \<times> 'a) list \<Rightarrow> nat" where
  "bump l = Suc (foldr max (map fst l) 0)"

definition bump_env :: env where
  "bump_env = \<lparr>mm_malloc = \<lambda>m. Some (bump (nodes m)), mm_ok = \<lambda>_ _. True,
     new_buf = \<lambda>w. bump (bufs w), mm_buf = \<lambda>w. Some (bump (bufs w))\<rparr>"

lemma bump_fresh: "map_of l (bump l) = None"
proof -
  have "a \<in> set (map fst l) \<Longrightarrow> a < bump l" for a
    unfolding bump_def by (induction l) (auto simp: less_Suc_eq_le le_max_iff_disj)
  then have "bump l \<notin> fst ` set l" by force
  then show ?thesis by (simp add: map_of_eq_None_iff)
qed

lemma bump_env_law: "env_law bump_env" and bump_env_serves: "pool_serves bump_env"
  by (auto simp: env_law_def pool_serves_def bump_env_def bump_fresh)

text \<open>Two empty buffers, one of each class, and a small tuple.\<close>

definition demo_world :: world where
  "demo_world = bufferMngr_init\<lparr>bufs := [(1, CommonBuf (buffer_init ''a'' NOT_SHARED) []),
     (2, SharedBuf (buffer_init ''b'' SHARED) sharedBuf_init)]\<rparr>"

definition demo_dbt :: "char \<Rightarrow> int \<Rightarrow> dbt" where
  "demo_dbt ch t = \<lparr>key = None, keysz = 0, data = Some [Some ch], datasz = 1,
     atime = Some (Timestamp t 0)\<rparr>"

lemma demo_world_ok: "world_ok demo_world"
  by (auto simp: world_ok_def demo_world_def bufferMngr_init_def buf_addrs_def sharedBuf_addrs_def
      sharedBuf_init_def commonBuf_inv_def sharedBuf_inv_def sharedBuf_rep_def
      split: if_splits)

lemma demo_dbt_ok [simp]: "dbt_ok (demo_dbt ch t)"
  by (simp add: dbt_ok_def demo_dbt_def area_ok_def)

lemma demo_contents: "contents demo_world = (\<lambda>_. [])"
  by (auto simp: contents_def demo_world_def bufferMngr_init_def sharedBuf_contents_def
      sharedBuf_addrs_def sharedBuf_init_def commonBuf_contents_def)

lemma demo_queues: "is_queue demo_world 1" "is_queue demo_world 2"
  by (simp_all add: is_queue_def demo_world_def bufferMngr_init_def)

theorem buffers_are_queues_witness:
  "\<exists>w'. run_wops bump_env
      [WPut 2 (demo_dbt CHR ''x'' 1), WPut 1 (demo_dbt CHR ''y'' 2), WPut 2 (demo_dbt CHR ''z'' 3), WPop 2]
      demo_world = Some (0, w') \<and>
    contents w' 1 = [view (demo_dbt CHR ''y'' 2)] \<and> contents w' 2 = [view (demo_dbt CHR ''z'' 3)]"
proof -
  let ?ops = "[WPut 2 (demo_dbt CHR ''x'' 1), WPut 1 (demo_dbt CHR ''y'' 2), WPut 2 (demo_dbt CHR ''z'' 3), WPop 2]"
  let ?c = "(contents demo_world)(2 := [view (demo_dbt CHR ''z'' 3)], 1 := [view (demo_dbt CHR ''y'' 2)])"
  have "wops_ok demo_world ?ops" by (simp add: wops_ok_def demo_queues del: One_nat_def)
  moreover have "spec_wops ?ops (contents demo_world) = Some ?c"
    by (auto simp: demo_contents fun_eq_iff)
  ultimately obtain w' where "run_wops bump_env ?ops demo_world = Some (0, w')" "contents w' = ?c"
    using buffers_are_queues [OF bump_env_law bump_env_serves demo_world_ok] by blast
  then show ?thesis by (intro exI [of _ w']) (simp del: run_wops.simps)
qed

text \<open>
  C24: When the pool cannot serve a block, \<open>put\<close> on a shared-memory buffer returns
  \<open>ERR_BUFFER\<close>, the lock of the pool is released, and no buffer has lost or gained a tuple.
\<close>

theorem put_out_of_memory:
  assumes "world_ok w" "env_law E" "dbt_ok d"
    and "map_of (bufs w) p = Some (SharedBuf b s)" and "mm_malloc E (pool w) = None"
  shows "\<exists>w'. buf_put E p d w = Some (ERR_BUFFER, w') \<and> contents w' = contents w \<and> world_ok w' \<and>
           \<not> locked (pool w')"
proof -
  let ?w = "(set_obj p (SharedBuf b s) w)\<lparr>pool := mm_unlock (pool w)\<rparr>"
  have put: "buf_put E p d w = Some (ERR_BUFFER, ?w)"
    using assms(4,5) by (simp add: buf_put_def sharedBuf_put_def mm_env.defs)
  from buf_put_effect [OF assms(1-3) put] assms(4) have
    "world_ok ?w" "contents ?w p = contents w p" "\<And>q. q \<noteq> p \<Longrightarrow> contents ?w q = contents w q"
    by (auto simp: ERR_BUFFER_def is_queue_def)
  then have "contents ?w = contents w" by (intro ext) metis
  with put \<open>world_ok ?w\<close> show ?thesis by (simp add: mm_unlock_def)
qed

theorem put_out_of_memory_witness:
  "\<exists>w'. buf_put (bump_env\<lparr>mm_malloc := \<lambda>_. None\<rparr>) 2 (demo_dbt CHR ''x'' 1) demo_world = Some (ERR_BUFFER, w') \<and>
     contents w' 2 = []"
proof -
  have "env_law (bump_env\<lparr>mm_malloc := \<lambda>_. None\<rparr>)"
    using bump_env_law by (simp add: env_law_def bump_env_def)
  moreover have "map_of (bufs demo_world) 2 = Some (SharedBuf (buffer_init ''b'' SHARED) sharedBuf_init)"
    by (simp add: demo_world_def)
  ultimately show ?thesis
    using put_out_of_memory [OF demo_world_ok _ demo_dbt_ok, of _ 2] demo_contents by fastforce
qed

section \<open>Coded messages survive a buffer\<close>

lemma cstr_code:
  assumes "code_area code s1 s2 = Some m" "\<And>s. s1 = Some s \<Longrightarrow> nul \<notin> set s" "\<And>s. s2 = Some s \<Longrightarrow> nul \<notin> set s"
  shows "take 4 (m @ r) = map Some (enc32 code)"
    and "s1 = Some x \<Longrightarrow> cstr (drop 4 (m @ r)) = Some x"
    and "s1 = Some x \<Longrightarrow> s2 = Some y \<Longrightarrow> cstr (drop (4 + length x + 1) (m @ r)) = Some y"
  using assms by (auto simp: code_area_def split: option.splits if_splits)

lemma dbt_copy_bytes:
  assumes "length m \<le> length a" "m \<noteq> []"
  shows "dbt_copy \<lparr>key = None, keysz = 0, data = Some a, datasz = z, atime = None\<rparr>
           \<lparr>key = None, keysz = 0, data = Some m, datasz = int (length m), atime = None\<rparr> =
         Some \<lparr>key = None, keysz = 0, data = Some (m @ drop (length m) a), datasz = int (length m), atime = None\<rparr>"
  using assms by (simp add: dbt_copy_def copy_key_def copy_data_def copy_atime_def memcpy_def)

lemma length_code_area:
  "code_area code s1 s2 = Some m \<Longrightarrow>
     length m = 4 + (case s1 of None \<Rightarrow> 0 | Some s \<Rightarrow> length s + 1) + (case s2 of None \<Rightarrow> 0 | Some s \<Rightarrow> length s + 1)"
  by (auto simp: code_area_def split: if_splits option.splits)

text \<open>
  C23: A coded message, an \<open>int\<close> and up to two strings, put into an empty heap buffer comes out
  as it went in: \<open>get\<close> returns the same code and the same strings into the areas the caller
  offers.
\<close>

theorem code_message_roundtrip:
  assumes "map_of (bufs w) p = Some (CommonBuf b [])"
    and "code_area code s1 s2 = Some m" and "int (length m) \<le> MAX_STR_LEN"
    and "\<forall>s. s1 = Some s \<or> s2 = Some s \<longrightarrow> nul \<notin> set s"
    and "a1 \<noteq> None \<longleftrightarrow> s1 \<noteq> None" "a2 \<noteq> None \<longleftrightarrow> s2 \<noteq> None"
  shows "\<exists>w'. buf_put_code E p code s1 s2 w = Some (0, w') \<and>
           buf_get_code p a1 a2 w' = Some (0, Some code, s1, s2)"
proof -
  have ne: "m \<noteq> []" "0 < length m" using length_code_area [OF assms(2)] by auto
  let ?d = "\<lparr>key = None, keysz = 0, data = Some m, datasz = int (length m), atime = None\<rparr> :: dbt"
  let ?w = "set_obj p (CommonBuf b [?d]) w"
  have put: "buf_put_code E p code s1 s2 w = Some (0, ?w)"
    using assms(1,2) ne
    by (simp add: buf_put_code_def cDBT_space_def cDBT_init_def area_init_def buf_put_def
        commonBuf_put_def cDBT_of_dbt_def)
  let ?a = "malloc_area (nat MAX_STR_LEN)"
  let ?m = "m @ drop (length m) ?a"
  let ?c0 = "\<lparr>key = None, keysz = 0, data = Some ?a, datasz = MAX_STR_LEN, atime = None\<rparr> :: dbt"
  let ?c1 = "\<lparr>key = None, keysz = 0, data = Some ?m, datasz = int (length m), atime = None\<rparr> :: dbt"
  have len: "length m \<le> nat MAX_STR_LEN" "0 < MAX_STR_LEN" using assms(3) ne by linarith+
  have c0: "cDBT_space MAX_STR_LEN None 0 = Some ?c0"
    using len(2) by (simp add: cDBT_space_def cDBT_init_def area_init_def)
  have get: "buf_get p ?c0 ?w = Some (0, ?c1)"
    using ne len(1) by (simp add: buf_get_def set_obj_def commonBuf_get_def dbt_copy_bytes)
  have nn: "\<And>s. s1 = Some s \<Longrightarrow> nul \<notin> set s" "\<And>s. s2 = Some s \<Longrightarrow> nul \<notin> set s" using assms(4) by auto
  note cs = cstr_code [OF assms(2) nn, where r = "drop (length m) ?a"]
  have t4: "take 4 ?m = map Some (enc32 code)" by (rule cs(1))
  have "map the (map Some (enc32 code)) = enc32 code" by (simp add: map_idI)
  moreover have "None \<notin> set (map Some (enc32 code))" by auto
  ultimately have c4: "map the (take 4 ?m) = enc32 code" "None \<notin> set (take 4 ?m)"
    by (simp_all only: t4 not_False_eq_True)
  have "decode_code ?c1 a1 a2 = Some (0, Some code, s1, s2)"
    using assms(5,6) length_code_area [OF assms(2)] assms(2) cs(2,3) c4
    unfolding decode_code_def
    by (cases s1; cases s2; cases a1; cases a2)
       (simp_all add: guard_def code_area_def del: take_append drop_append)
  then have "buf_get_code p a1 a2 ?w = Some (0, Some code, s1, s2)"
    by (simp add: buf_get_code_def c0 get)
  with put show ?thesis by blast
qed

theorem code_message_roundtrip_witness:
  "\<exists>w'. buf_put_code bump_env 1 7 (Some ''add'') (Some ''q1'') demo_world = Some (0, w') \<and>
     buf_get_code 1 (Some []) (Some []) w' = Some (0, Some 7, Some ''add'', Some ''q1'')"
  by (rule code_message_roundtrip)
     (auto simp: demo_world_def code_area_def str_bytes_def MAX_STR_LEN_def nul_def)

section \<open>Creating and killing buffers\<close>

lemma fresh_obj_ok:
  assumes "world_ok w" "map_of (bufs w) p = None" "obj_ok (pool w) ob" "\<And>b s. ob = SharedBuf b s \<Longrightarrow> s = sharedBuf_init"
    and "bufs w' = AList.update p ob (bufs w)" "nodes (pool w') = nodes (pool w)"
  shows "world_ok w'" "\<And>q. q \<noteq> p \<Longrightarrow> contents w' q = contents w q"
proof -
  have ad: "sharedBuf_addrs (pool w') s = sharedBuf_addrs (pool w) s" for s
    by (simp add: sharedBuf_addrs_def assms(6))
  have ba: "buf_addrs w' q = (if q = p then [] else buf_addrs w q)" for q
    using assms(4,5) ad
    by (auto simp: buf_addrs_def sharedBuf_addrs_def sharedBuf_init_def split: option.splits bufobj.splits)
  have inv: "obj_ok (pool w') x = obj_ok (pool w) x" for x
    using ad assms(6) by (cases x) (auto simp: sharedBuf_inv_def sharedBuf_rep_def)
  show "world_ok w'"
    using assms(1,3,5,6) by (auto simp: world_ok_def ba inv)
  show "contents w' q = contents w q" if "q \<noteq> p" for q
    using that assms(5,6) ad by (simp add: contents_def sharedBuf_contents_def cong: option.case_cong bufobj.case_cong)
qed

lemma new_buffer_obj:
  assumes "new_buffer E n shared sz wt w = Some (Some (p, ob))" "world_ok w"
  shows "obj_ok (pool w) ob" "ob = SharedBuf b s \<Longrightarrow> s = sharedBuf_init"
  using assms
  by (auto simp: new_buffer_def commonBuf_inv_def sharedBuf_inv_def sharedBuf_rep_def sharedBuf_addrs_def
      sharedBuf_init_def world_ok_def split: buf_t.splits)

text \<open>
  C19: \<open>create\<close> of a name that is not in use, while the dictionary has room, succeeds; the name
  then leads to a new, empty buffer of the requested type, every other name to the buffer it
  had, with its tuples, and the dictionary is sorted again, so that every later lookup is
  right.
\<close>

theorem create_makes_buffer:
  assumes "env_law E" "mgr_ok w" "world_ok w"
    and "length n < MAX_NAME" "length (dict w) < MAX_BUF" "map_of (dict w) n = None"
    and "shared \<noteq> BUF_STDOUT" "shared = SHARED \<longrightarrow> mm_buf E w \<noteq> None"
  shows "\<exists>w' p. create E n shared sz wt w = Some (0, w') \<and> mgr_ok w' \<and> world_ok w' \<and>
     lookup n w' = Some (Some p) \<and> map_of (bufs w) p = None \<and> contents w' p = [] \<and>
     map_option (btype \<circ> obj_base) (map_of (bufs w') p) = Some shared \<and>
     (\<forall>m. m \<noteq> n \<longrightarrow> lookup m w' = lookup m w) \<and> (\<forall>q. q \<noteq> p \<longrightarrow> contents w' q = contents w q)"
proof -
  have d: "dict_ok (dict w)" using assms(2) by (simp add: mgr_ok_def)
  obtain p0 ob0 where "new_buffer E n shared sz wt w = Some (Some (p0, ob0))"
    using assms(7,8) by (cases shared) (auto simp: new_buffer_def)
  then obtain w' where c: "create E n shared sz wt w = Some (0, w')"
    using assms(5,6) by (simp add: create_def lookup_map_of [OF d assms(4)] guard_def)
  from create_success [OF assms(2,4,1) c] obtain p ob where
    p: "map_of (bufs w) p = None" "new_buffer E n shared sz wt w = Some (Some (p, ob))"
    "map_of (dict w') = (map_of (dict w))(n \<mapsto> p)" "bufs w' = AList.update p ob (bufs w)"
    "nodes (pool w') = nodes (pool w)" "mgr_ok w'"
    by blast
  note no = new_buffer_obj [OF p(2) assms(3)]
  note fr = fresh_obj_ok [OF assms(3) p(1) no(1) no(2) p(4,5)]
  have d': "dict_ok (dict w')" using p(6) by (simp add: mgr_ok_def)
  have "contents w' p = []"
    using p(2,4) by (auto simp: contents_def new_buffer_def commonBuf_contents_def sharedBuf_contents_def
        sharedBuf_addrs_def sharedBuf_init_def split: buf_t.splits)
  moreover have "\<forall>m. m \<noteq> n \<longrightarrow> lookup m w' = lookup m w"
    using lookup_dict_cong [OF d d'] p(3) by simp
  moreover have "btype (obj_base ob) = shared" using new_buffer_fresh [OF assms(1) p(2)] by simp
  ultimately show ?thesis
    using c p fr lookup_map_of [OF d' assms(4)] by (intro exI [of _ w'] exI [of _ p]) auto
qed

lemma init_ok: "mgr_ok bufferMngr_init" "world_ok bufferMngr_init"
  by (auto simp: mgr_ok_def bufferMngr_init_def dict_ok_def world_ok_def buf_addrs_def)

theorem create_makes_buffer_witness:
  "\<exists>w' p. create bump_env ''in'' SHARED 0 ADL_WIN_ROW bufferMngr_init = Some (0, w') \<and>
     lookup ''in'' w' = Some (Some p) \<and> contents w' p = []"
  using create_makes_buffer [OF bump_env_law init_ok, of "''in''" SHARED 0 ADL_WIN_ROW]
  by (auto simp: bufferMngr_init_def MAX_NAME_def MAX_BUF_def bump_env_def)

text \<open>
  C20: Killing a buffer right after it was created gives every name, the new one included, the
  meaning it had before, and the dictionary invariant holds again.
\<close>

theorem create_kill_roundtrip:
  assumes "env_law E" "mgr_ok w" "length n < MAX_NAME" "create E n shared sz wt w = Some (0, w')"
  shows "\<exists>w''. kill n w' = Some (0, w'') \<and> mgr_ok w'' \<and> (\<forall>m. lookup m w'' = lookup m w)"
  using bm.make_remove [of E w n shared sz wt w'] assms by blast

theorem create_kill_roundtrip_witness:
  "\<exists>w' w''. create bump_env ''in'' NOT_SHARED 0 ADL_WIN_ROW bufferMngr_init = Some (0, w') \<and>
     kill ''in'' w' = Some (0, w'') \<and> lookup ''in'' w'' = Some None"
proof -
  obtain w' where c: "create bump_env ''in'' NOT_SHARED 0 ADL_WIN_ROW bufferMngr_init = Some (0, w')"
    by (simp add: create_def lookup_def lookupBufMapIdx_def bufferMngr_init_def MAX_NAME_def MAX_BUF_def
        bsearch.simps new_buffer_def)
  have "lookup ''in'' bufferMngr_init = Some None"
    by (simp add: lookup_def lookupBufMapIdx_def bufferMngr_init_def MAX_NAME_def bsearch.simps)
  with create_kill_roundtrip [OF bump_env_law init_ok(1) _ c] c show ?thesis
    by (auto simp: MAX_NAME_def)
qed

text \<open>
  C25: \<open>kill\<close> of a name that is not in the dictionary returns -1, changes no buffer and no name,
  and returns with the lock of the shared pool held.
\<close>

theorem kill_unknown_keeps_lock:
  assumes "mgr_ok w" "length n < MAX_NAME" "map_of (dict w) n = None"
  shows "kill n w = Some (-1, w\<lparr>pool := (pool w)\<lparr>locked := True\<rparr>\<rparr>)"
proof -
  have "dict_ok (dict w)" using assms(1) by (simp add: mgr_ok_def)
  from bsearch_dict(1) [OF this, of n] assms(2,3) show ?thesis
    by (simp add: kill_def lookupBufMapIdx_def guard_def mm_lock_def Let_def)
qed

theorem kill_unknown_keeps_lock_witness:
  "map_option (\<lambda>(rc, w). (rc, locked (pool w))) (kill ''x'' bufferMngr_init) = Some (-1, True)"
  by (subst kill_unknown_keeps_lock [OF init_ok(1)]) (simp_all add: MAX_NAME_def bufferMngr_init_def)

end
