(* ===== verification/Stmt.thy ===== *)
theory Stmt
  imports BufWorld "HOL-Library.Multiset"
begin

text \<open>
  Statements (\<open>sql/esl/stmt.h\<close>, \<open>sql/esl/stmt.cc\<close>): the nodes of a continuous query. A normal
  statement and a join call the function compiled for the query, which is loaded from a library
  and is the parameter \<open>env_func\<close>; the two union statements are executed by the engine itself:
  the timed union moves the tuple with the smallest time stamp once every input has one, the
  timeless union the next tuple it finds going round its inputs.
\<close>

section \<open>Data\<close>

datatype stmt_t = stmt_normal | stmt_join | stmt_t_union | stmt_tl_union | stmt_coll

definition s_failure :: int where "s_failure = -2"
definition s_no_input :: int where "s_no_input = -1"
definition s_no_output :: int where "s_no_output = 0"
definition s_success :: int where "s_success = 1"

lemmas stmt_rc_defs = s_failure_def s_no_input_def s_no_output_def s_success_def

record stmt =
  stype :: stmt_t
  sin :: "bptr option"
  inBufName :: string
  sout :: "bptr option"
  outBufName :: string
  func :: "nat option"
  sname :: string
  sub_stmt :: bool
  deadline :: int
  valid :: bool
  rankSet :: bool
  weight :: int
  weightSet :: bool
  monitor_src_stat :: bool
  monitor_sink_stat :: bool
  quota :: int
  quota_left :: int
  deadline_quota :: int
  union_bufs :: "bptr list"
  sub_stmts :: "sptr list"
  window_bufs :: "bptr list"
  back_buf :: "bptr option"

text \<open>
  The environment of a query: the compiled functions, called with the number of the function,
  \<open>freeVar\<close> and the backtracking buffer; and the contents of the uninitialised local \<open>tv1\<close>.
\<close>

record qenv = env +
  env_func :: "nat \<Rightarrow> world \<Rightarrow> int \<Rightarrow> bptr option \<Rightarrow> int \<times> world"
  env_tv1 :: timestamp

definition WEIGHT_MIN :: int where
  "WEIGHT_MIN = 1"

text \<open>The constructors; \<open>func\<close> and \<open>stmtEntry\<close> are set when the library is loaded.\<close>

definition stmt_init :: "stmt_t \<Rightarrow> string \<Rightarrow> bool \<Rightarrow> stmt" where
  "stmt_init t name sub =
     \<lparr>stype = t, sin = None, inBufName = [], sout = None, outBufName = [], func = None, sname = name,
      sub_stmt = sub, deadline = 0, valid = True, rankSet = False, weight = WEIGHT_MIN,
      weightSet = False, monitor_src_stat = False, monitor_sink_stat = False, quota = 0,
      quota_left = 0, deadline_quota = 0, union_bufs = [], sub_stmts = [], window_bufs = [],
      back_buf = None\<rparr>"

definition buf_name :: "world \<Rightarrow> bptr \<Rightarrow> string option" where
  "buf_name w p = map_option (\<lambda>ob. bname (obj_base ob)) (map_of (bufs w) p)"

definition nStmt :: "world \<Rightarrow> string \<Rightarrow> bptr \<Rightarrow> bptr \<Rightarrow> bool \<Rightarrow> stmt option" where
  "nStmt w name i ot sub = do {
     iname \<leftarrow> buf_name w i;
     oname \<leftarrow> buf_name w ot;
     Some ((stmt_init stmt_normal name sub)\<lparr>sin := Some i, sout := Some ot, inBufName := iname, outBufName := oname\<rparr>)
   }"

definition utStmt :: "world \<Rightarrow> string \<Rightarrow> bptr \<Rightarrow> bool \<Rightarrow> stmt option" where
  "utStmt w name ot sub = do {
     oname \<leftarrow> buf_name w ot;
     Some ((stmt_init stmt_t_union name sub)\<lparr>sout := Some ot, outBufName := oname\<rparr>)
   }"

definition utlStmt :: "world \<Rightarrow> string \<Rightarrow> bptr \<Rightarrow> bool \<Rightarrow> stmt option" where
  "utlStmt w name ot sub = do {
     oname \<leftarrow> buf_name w ot;
     Some ((stmt_init stmt_tl_union name sub)\<lparr>sout := Some ot, outBufName := oname\<rparr>)
   }"

definition jStmt :: "world \<Rightarrow> string \<Rightarrow> bptr \<Rightarrow> bptr \<Rightarrow> bool \<Rightarrow> stmt option" where
  "jStmt w name i ot sub = do {
     iname \<leftarrow> buf_name w i;
     oname \<leftarrow> buf_name w ot;
     Some ((stmt_init stmt_join name sub)\<lparr>sin := Some i, sout := Some ot, inBufName := iname,
        outBufName := oname, back_buf := None\<rparr>)
   }"

definition cStmt :: "string \<Rightarrow> stmt" where
  "cStmt name = stmt_init stmt_coll name False"

text \<open>\<open>addSubStmt\<close> of a union and of a join: the output buffer of the part becomes an input.\<close>

definition uStmt_addSubStmt :: "sptr \<Rightarrow> stmt \<Rightarrow> stmt \<Rightarrow> stmt option" where
  "uStmt_addSubStmt p part s = do {
     ot \<leftarrow> sout part;
     Some (s\<lparr>sub_stmts := sub_stmts s @ [p], union_bufs := union_bufs s @ [ot]\<rparr>)
   }"

definition jStmt_addSubStmt :: "sptr \<Rightarrow> stmt \<Rightarrow> stmt \<Rightarrow> stmt option" where
  "jStmt_addSubStmt p part s = do {
     ot \<leftarrow> sout part;
     Some (s\<lparr>sub_stmts := sub_stmts s @ [p], window_bufs := window_bufs s @ [ot]\<rparr>)
   }"

text \<open>
  \<open>cStmt::addSubStmt\<close>: a union swallows those parts of the collection that are its own parts,
  found by name. \<open>list::remove\<close> removes every element equal to the pointer.
\<close>

definition cStmt_addSubStmt :: "(sptr \<Rightarrow> stmt option) \<Rightarrow> sptr \<Rightarrow> stmt \<Rightarrow> stmt option" where
  "cStmt_addSubStmt st p c = do {
     s \<leftarrow> st p;
     let subs = sub_stmts c @ [p];
     if stype s = stmt_t_union \<or> stype s = stmt_tl_union then do {
       guard (list_all (\<lambda>q. st q \<noteq> None) (subs @ sub_stmts s));
       let names = map (\<lambda>q. sname (the (st q))) (sub_stmts s);
       let toRemove = [q \<leftarrow> subs. sname (the (st q)) \<in> set names];
       Some (c\<lparr>sub_stmts := [q \<leftarrow> subs. q \<notin> set toRemove]\<rparr>)
     } else Some (c\<lparr>sub_stmts := subs\<rparr>)
   }"

section \<open>Execution\<close>

definition nStmt_exe :: "'q qenv_scheme \<Rightarrow> int \<Rightarrow> stmt \<Rightarrow> world \<Rightarrow> int \<times> stmt \<times> world" where
  "nStmt_exe E freeVar s w =
     (case func s of
        None \<Rightarrow> (s_failure, s, w)
      | Some f \<Rightarrow> (let (rc, w') = env_func E f w freeVar None in (rc, s, w')))"

text \<open>
  \<open>utStmt::exe_set_in\<close>: the loop over the inputs with its locals \<open>d\<close>, \<open>current\<close>, \<open>first\<close> and
  the field \<open>in\<close>; the flag of its result is \<open>empty\<close>.
\<close>

fun ut_loop ::
  "bptr list \<Rightarrow> world \<Rightarrow> dbt \<Rightarrow> dbt \<Rightarrow> bool \<Rightarrow> bptr option \<Rightarrow> (bool \<times> dbt \<times> bptr option) option" where
  "ut_loop [] w d cur first i = Some (False, cur, i)"
| "ut_loop (b # bs) w d cur first i = do {
     e \<leftarrow> buf_empty b w;
     if e then Some (True, cur, Some b)
     else do {
       (_, d) \<leftarrow> buf_get b d w;
       if first then do {
         cur \<leftarrow> dbt_copy cur d;
         ut_loop bs w d cur False (Some b)
       } else do {
         ct \<leftarrow> atime cur;
         dt \<leftarrow> atime d;
         if tv_sec ct > tv_sec dt \<or> (tv_sec ct = tv_sec dt \<and> tv_usec ct > tv_usec dt)
         then do {
           cur \<leftarrow> dbt_copy cur d;
           ut_loop bs w d cur False (Some b)
         } else ut_loop bs w d cur False i
       }
     }
   }"

definition utStmt_exe_set_in :: "'q qenv_scheme \<Rightarrow> stmt \<Rightarrow> world \<Rightarrow> (int \<times> stmt \<times> world) option" where
  "utStmt_exe_set_in E s w = do {
     d \<leftarrow> cDBT_space MAX_STR_LEN (Some (env_tv1 E)) 0;
     cur \<leftarrow> cDBT_space MAX_STR_LEN (Some (env_tv1 E)) 0;
     (empty, cur, i) \<leftarrow> ut_loop (union_bufs s) w d cur True (sin s);
     let s = s\<lparr>sin := i\<rparr>;
     if empty then Some (s_no_input, s, w)
     else (case sout s of
             None \<Rightarrow> Some (s_failure, s, w)
           | Some ot \<Rightarrow> do { (_, w) \<leftarrow> buf_put E ot cur w; Some (s_success, s, w) })
   }"

text \<open>
  \<open>utlStmt::exe_set_in\<close>: the loop with its two iterators as positions in the list of inputs.
  One round visits every input at most once after the last used one was found, so that
  \<open>2 * n + 2\<close> steps are enough.
\<close>

fun utl_loop ::
  "nat \<Rightarrow> 'q qenv_scheme \<Rightarrow> stmt \<Rightarrow> world \<Rightarrow> dbt \<Rightarrow> nat \<Rightarrow> nat \<Rightarrow> bool \<Rightarrow> (int \<times> stmt \<times> world) option" where
  "utl_loop 0 E s w d itr itr2 in_found = None"
| "utl_loop (Suc fuel) E s w d itr itr2 in_found =
     (let bs = union_bufs s; n = length bs in
      if itr = itr2 then
        (if itr2 < n then Some (s_no_input, s\<lparr>sin := Some (bs ! itr2)\<rparr>, w) else None)
      else if n \<le> itr then None
      else if sin s \<noteq> None \<and> \<not> in_found \<and> Some (bs ! itr) \<noteq> sin s then
        utl_loop fuel E s w d (itr + 1) itr2 False
      else
        (let itr2 = (if sin s = None then (if itr2 = n then 0 else itr2)
                     else if in_found then itr2 else itr);
             in_found = (in_found \<or> sin s \<noteq> None)
         in do {
           e \<leftarrow> buf_empty (bs ! itr) w;
           if e then utl_loop fuel E s w d (if itr + 1 = n then 0 else itr + 1) itr2 in_found
           else do {
             (_, d) \<leftarrow> buf_get (bs ! itr) d w;
             case sout s of
               None \<Rightarrow> Some (s_failure, s, w)
             | Some ot \<Rightarrow> do {
                 (_, w) \<leftarrow> buf_put E ot d w;
                 Some (s_success, s\<lparr>sin := Some (bs ! itr)\<rparr>, w)
               }
           }
         }))"

definition utlStmt_exe_set_in :: "'q qenv_scheme \<Rightarrow> stmt \<Rightarrow> world \<Rightarrow> (int \<times> stmt \<times> world) option" where
  "utlStmt_exe_set_in E s w = do {
     d \<leftarrow> cDBT_space MAX_STR_LEN (Some (env_tv1 E)) 0;
     utl_loop (2 * length (union_bufs s) + 2) E s w d 0 (length (union_bufs s)) False
   }"

definition uStmt_exe :: "'q qenv_scheme \<Rightarrow> int \<Rightarrow> stmt \<Rightarrow> world \<Rightarrow> (int \<times> stmt \<times> world) option" where
  "uStmt_exe E freeVar s w =
     (if freeVar = 0
      then (if stype s = stmt_t_union then utStmt_exe_set_in E s w else utlStmt_exe_set_in E s w)
      else Some (s_success, s, w))"

definition jStmt_exe :: "'q qenv_scheme \<Rightarrow> int \<Rightarrow> stmt \<Rightarrow> world \<Rightarrow> (int \<times> stmt \<times> world) option" where
  "jStmt_exe E freeVar s w =
     (let s = s\<lparr>back_buf := None\<rparr>;
          call = (case func s of
                    None \<Rightarrow> (s_failure, s, w)
                  | Some f \<Rightarrow> (let (rc, w') = env_func E f w freeVar (back_buf s) in (rc, s, w')))
      in if freeVar = 1 then Some call
         else do {
           i \<leftarrow> sin s;
           e \<leftarrow> buf_empty i w;
           Some (if e then (s_no_input, s\<lparr>back_buf := Some i\<rparr>, w) else call)
         })"

definition stmt_exe :: "'q qenv_scheme \<Rightarrow> int \<Rightarrow> stmt \<Rightarrow> world \<Rightarrow> (int \<times> stmt \<times> world) option" where
  "stmt_exe E freeVar s w =
     (case stype s of
        stmt_normal \<Rightarrow> Some (nStmt_exe E freeVar s w)
      | stmt_join \<Rightarrow> jStmt_exe E freeVar s w
      | stmt_t_union \<Rightarrow> uStmt_exe E freeVar s w
      | stmt_tl_union \<Rightarrow> uStmt_exe E freeVar s w
      | stmt_coll \<Rightarrow> Some (s_failure, s, w))"

section \<open>Copies into the scratch tuples of a union\<close>

text \<open>
  The tuples a union can carry: no key, some data that fits the scratch area, a time stamp.
\<close>

definition tuple_ok :: "tuple \<Rightarrow> bool" where
  "tuple_ok x =
     (case x of (k, m, t) \<Rightarrow> k = [] \<and> m \<noteq> [] \<and> int (length m) \<le> MAX_STR_LEN \<and> t \<noteq> None)"

definition tuple_time :: "tuple \<Rightarrow> timestamp" where
  "tuple_time x = the (snd (snd x))"

definition scratch_ok :: "dbt \<Rightarrow> bool" where
  "scratch_ok d \<longleftrightarrow>
     key d = None \<and> (\<exists>a. data d = Some a \<and> length a = nat MAX_STR_LEN) \<and> atime d \<noteq> None"

lemma scratch_space:
  "\<exists>d. cDBT_space MAX_STR_LEN (Some t) 0 = Some d \<and> scratch_ok d"
proof -
  have "0 < MAX_STR_LEN" by (simp add: MAX_STR_LEN_def)
  then show ?thesis by (simp add: cDBT_space_def cDBT_init_def area_init_def scratch_ok_def)
qed

lemma scratch_copy:
  assumes "scratch_ok dst" "dbt_ok src" "tuple_ok (view src)"
  shows "\<exists>c. dbt_copy dst src = Some c \<and> scratch_ok c \<and> dbt_ok c \<and> view c = view src"
proof -
  obtain a t0 where dst: "key dst = None" "data dst = Some a" "length a = nat MAX_STR_LEN" "atime dst = Some t0"
    using assms(1) by (auto simp: scratch_ok_def)
  have k: "key src = None" "keysz src = 0"
    using assms(2,3) by (auto simp: tuple_ok_def view_def dbt_ok_def area_ok_def area_view_def split: option.splits)
  obtain m t where m: "data src = Some m" "0 < datasz src" "nat (datasz src) \<le> length m" "atime src = Some t"
    using assms(2,3) by (auto simp: tuple_ok_def view_def dbt_ok_def area_ok_def area_view_def split: option.splits)
  have le: "nat (datasz src) \<le> length a"
    using assms(3) m dst(3) by (auto simp: tuple_ok_def view_def area_view_def intro: nat_mono)
  let ?c = "dst\<lparr>keysz := 0, datasz := datasz src, key := None,
              data := Some (take (nat (datasz src)) m @ drop (nat (datasz src)) a), atime := Some t\<rparr>"
  have "dbt_copy dst src = Some ?c"
    using dst k m le by (simp add: dbt_copy_def copy_key_def copy_data_def copy_atime_def memcpy_def)
  moreover have "scratch_ok ?c" using dst m le by (simp add: scratch_ok_def)
  moreover have "dbt_ok ?c" using dst m le by (simp add: dbt_ok_def area_ok_def)
  moreover have "view ?c = view src" using k m le by (simp add: view_def area_view_def)
  ultimately show ?thesis by blast
qed

text \<open>Reading the head of a queue into a scratch tuple.\<close>

lemma scratch_get:
  assumes w: "world_ok w" "contents w p = x # q" and x: "tuple_ok x" and d: "scratch_ok d"
  shows "\<exists>c. buf_get p d w = Some (0, c) \<and> scratch_ok c \<and> dbt_ok c \<and> view c = x"
proof -
  obtain ob where ob: "map_of (bufs w) p = Some ob" "obj_ok (pool w) ob"
    using w by (auto simp: contents_def world_ok_def split: option.splits)
  show ?thesis
  proof (cases ob)
    case (CommonBuf b l)
    with ob w(2) obtain h r where "l = h # r" "view h = x" "dbt_ok h"
      by (auto simp: contents_def commonBuf_contents_def commonBuf_inv_def)
    with scratch_copy [OF d, of h] x ob CommonBuf show ?thesis
      by (auto simp: buf_get_def commonBuf_get_def)
  next
    case (SharedBuf b s)
    have rep: "sharedBuf_rep (pool w) s (sharedBuf_addrs (pool w) s)"
      using ob SharedBuf by (simp add: sharedBuf_inv_def)
    have cs: "sharedBuf_contents (pool w) s = x # q" using w(2) ob SharedBuf by (simp add: contents_def)
    then obtain a as where as: "sharedBuf_addrs (pool w) s = a # as"
      by (cases "sharedBuf_addrs (pool w) s") (auto simp: sharedBuf_contents_def)
    with rep obtain h where h: "sharedBuf_head (pool w) s = Some h" "dbt_ok h" "map_of (nodes (pool w)) a = Some h"
      by (auto simp: sharedBuf_head_def sharedBuf_rep_def split: option.splits)
    have "view h = x" using cs as h(3) by (simp add: sharedBuf_contents_def)
    moreover have "\<not> sharedBuf_empty s" using sharedBuf_empty_rep [OF rep] as by simp
    ultimately show ?thesis
      using scratch_copy [OF d, of h] h x ob SharedBuf by (auto simp: buf_get_def sharedBuf_get_def)
  qed (use w ob in \<open>auto simp: contents_def\<close>)
qed

section \<open>The timed union\<close>

text \<open>
  What the loop computes: the first empty input if there is one, otherwise the first of the
  inputs whose head has the smallest time stamp.
\<close>

definition head_time :: "world \<Rightarrow> bptr \<Rightarrow> timestamp" where
  "head_time w b = tuple_time (hd (contents w b))"

fun earliest :: "world \<Rightarrow> bptr \<Rightarrow> bptr list \<Rightarrow> bptr" where
  "earliest w b [] = b"
| "earliest w b (c # cs) = earliest w (if head_time w c < head_time w b then c else b) cs"

definition heads_ok :: "world \<Rightarrow> bptr list \<Rightarrow> bool" where
  "heads_ok w bs \<longleftrightarrow> (\<forall>b \<in> set bs. is_queue w b \<and> (contents w b = [] \<or> tuple_ok (hd (contents w b))))"

lemma ut_loop_found:
  assumes "world_ok w" "heads_ok w bs" "scratch_ok d" "scratch_ok cur" "dbt_ok cur"
    and "\<forall>b \<in> set bs. contents w b \<noteq> []" "contents w b0 \<noteq> []" "view cur = hd (contents w b0)"
  shows "\<exists>c. ut_loop bs w d cur False (Some b0) = Some (False, c, Some (earliest w b0 bs)) \<and>
     dbt_ok c \<and> scratch_ok c \<and> view c = hd (contents w (earliest w b0 bs))"
  using assms
proof (induction bs arbitrary: d cur b0)
  case Nil
  then show ?case by simp
next
  case (Cons b bs)
  obtain x q where xq: "contents w b = x # q" using Cons.prems(6) by (cases "contents w b") auto
  have q: "is_queue w b" "tuple_ok x" using Cons.prems(2) xq by (auto simp: heads_ok_def)
  have ne: "buf_empty b w = Some False" using buf_empty_contents [OF Cons.prems(1) q(1)] xq by simp
  obtain d' where d': "buf_get b d w = Some (0, d')" "scratch_ok d'" "dbt_ok d'" "view d' = x"
    using scratch_get [OF Cons.prems(1) xq q(2) Cons.prems(3)] by blast
  obtain ct dt where t: "atime cur = Some ct" "atime d' = Some dt"
    using Cons.prems(4) d'(2) by (auto simp: scratch_ok_def)
  have times: "ct = head_time w b0" "dt = head_time w b"
    using t Cons.prems(8) d'(4) xq
    by (auto simp: head_time_def tuple_time_def view_def dest: arg_cong [where f = "snd \<circ> snd"])
       (metis option.sel snd_conv)+
  have rest: "heads_ok w bs" "\<forall>b \<in> set bs. contents w b \<noteq> []"
    using Cons.prems(2,6) by (auto simp: heads_ok_def)
  show ?case
  proof (cases "head_time w b < head_time w b0")
    case True
    obtain c where c: "dbt_copy cur d' = Some c" "scratch_ok c" "dbt_ok c" "view c = view d'"
      using scratch_copy [OF Cons.prems(4) d'(3)] d'(4) q(2) by auto
    with Cons.IH [OF Cons.prems(1) rest(1) d'(2) c(2,3) rest(2), of b] True xq d' t times ne show ?thesis
      by (simp add: timestamp_greater_iff [symmetric])
  next
    case False
    with Cons.IH [OF Cons.prems(1) rest(1) d'(2) Cons.prems(4,5) rest(2) Cons.prems(7,8)] d' t times ne
    show ?thesis by (simp add: timestamp_greater_iff [symmetric])
  qed
qed

lemma ut_loop_first:
  assumes "world_ok w" "heads_ok w (b # bs)" "scratch_ok d" "scratch_ok cur"
    and "\<forall>b \<in> set (b # bs). contents w b \<noteq> []"
  shows "\<exists>c. ut_loop (b # bs) w d cur True i = Some (False, c, Some (earliest w b bs)) \<and>
     dbt_ok c \<and> view c = hd (contents w (earliest w b bs))"
proof -
  obtain x q where xq: "contents w b = x # q" using assms(5) by (cases "contents w b") auto
  have q: "is_queue w b" "tuple_ok x" using assms(2) xq by (auto simp: heads_ok_def)
  obtain d' where d': "buf_get b d w = Some (0, d')" "scratch_ok d'" "dbt_ok d'" "view d' = x"
    using scratch_get [OF assms(1) xq q(2) assms(3)] by blast
  obtain c where c: "dbt_copy cur d' = Some c" "scratch_ok c" "dbt_ok c" "view c = view d'"
    using scratch_copy [OF assms(4) d'(3)] d'(4) q(2) by auto
  have "heads_ok w bs" "\<forall>b \<in> set bs. contents w b \<noteq> []" using assms(2,5) by (auto simp: heads_ok_def)
  from ut_loop_found [OF assms(1) this(1) d'(2) c(2,3) this(2), of b] c d' xq
    buf_empty_contents [OF assms(1) q(1)]
  show ?thesis by auto
qed

text \<open>With an empty input the loop stops at the first one.\<close>

lemma ut_loop_empty:
  assumes "world_ok w" "heads_ok w (pre @ b # post)" "scratch_ok d" "scratch_ok cur"
    and "\<forall>b \<in> set pre. contents w b \<noteq> []" "contents w b = []"
  shows "\<exists>c. ut_loop (pre @ b # post) w d cur first i = Some (True, c, Some b)"
  using assms
proof (induction pre arbitrary: d cur first i)
  case Nil
  then have "buf_empty b w = Some True" using buf_empty_contents by (simp add: heads_ok_def)
  then show ?case by simp
next
  case (Cons a pre)
  obtain x q where xq: "contents w a = x # q" using Cons.prems(5) by (cases "contents w a") auto
  have q: "is_queue w a" "tuple_ok x" using Cons.prems(2) xq by (auto simp: heads_ok_def)
  obtain d' where d': "buf_get a d w = Some (0, d')" "scratch_ok d'" "dbt_ok d'" "view d' = x"
    using scratch_get [OF Cons.prems(1) xq q(2) Cons.prems(3)] by blast
  obtain c where c: "dbt_copy cur d' = Some c" "scratch_ok c"
    using scratch_copy [OF Cons.prems(4) d'(3)] d'(4) q(2) by auto
  have h: "heads_ok w (pre @ b # post)" "\<forall>b \<in> set pre. contents w b \<noteq> []"
    using Cons.prems(2,5) by (auto simp: heads_ok_def)
  note IH = Cons.IH [OF Cons.prems(1) h(1) d'(2) _ h(2) Cons.prems(6)]
  obtain ct dt where t: "atime cur = Some ct" "atime d' = Some dt"
    using Cons.prems(4) d'(2) by (auto simp: scratch_ok_def)
  show ?case
    using IH [OF c(2), of False "Some a"] IH [OF Cons.prems(4), of False i] c(1) d' t
      buf_empty_contents [OF Cons.prems(1) q(1)] xq
    by (simp add: if_split)
qed

lemma earliest_in: "earliest w b bs \<in> set (b # bs)"
proof (induction bs arbitrary: b)
  case (Cons c bs)
  show ?case using Cons.IH [of c] Cons.IH [of b] by auto
qed simp

lemma earliest_le: "c \<in> set (b # bs) \<Longrightarrow> head_time w (earliest w b bs) \<le> head_time w c"
proof (induction bs arbitrary: b c)
  case Nil
  then show ?case by simp
next
  case (Cons a bs)
  let ?m = "if head_time w a < head_time w b then a else b"
  have "head_time w (earliest w ?m bs) \<le> head_time w ?m" using Cons.IH [of ?m ?m] by simp
  moreover have "head_time w ?m \<le> head_time w a" "head_time w ?m \<le> head_time w b" by auto
  moreover have "c \<in> set bs \<Longrightarrow> head_time w (earliest w ?m bs) \<le> head_time w c"
    using Cons.IH [of c ?m] by simp
  ultimately show ?case using Cons.prems by (auto intro: order_trans)
qed

text \<open>One execution of a timed union, on each branch.\<close>

lemma ut_exe_no_input:
  assumes "world_ok w" "heads_ok w (union_bufs s)" "union_bufs s = pre @ b # post"
    and "\<forall>c \<in> set pre. contents w c \<noteq> []" "contents w b = []"
  shows "utStmt_exe_set_in E s w = Some (s_no_input, s\<lparr>sin := Some b\<rparr>, w)"
proof -
  obtain d where d: "cDBT_space MAX_STR_LEN (Some (env_tv1 E)) 0 = Some d" "scratch_ok d"
    using scratch_space by blast
  obtain c where "ut_loop (pre @ b # post) w d d True (sin s) = Some (True, c, Some b)"
    using ut_loop_empty [OF assms(1) _ d(2) d(2) assms(4,5)] assms(2,3) by metis
  then show ?thesis using d assms(3) by (simp add: utStmt_exe_set_in_def)
qed

lemma ut_exe_success:
  assumes "world_ok w" "env_law E" "pool_serves E" "heads_ok w (union_bufs s)" "union_bufs s = b # bs"
    and "\<forall>c \<in> set (b # bs). contents w c \<noteq> []" "sout s = Some ot" "is_queue w ot"
  shows "\<exists>w'. utStmt_exe_set_in E s w = Some (s_success, s\<lparr>sin := Some (earliest w b bs)\<rparr>, w') \<and>
     world_ok w' \<and> same_shape w w' \<and>
     contents w' = (contents w)(ot := contents w ot @ [hd (contents w (earliest w b bs))])"
proof -
  obtain d where d: "cDBT_space MAX_STR_LEN (Some (env_tv1 E)) 0 = Some d" "scratch_ok d"
    using scratch_space by blast
  obtain c where c: "ut_loop (b # bs) w d d True (sin s) = Some (False, c, Some (earliest w b bs))"
    "dbt_ok c" "view c = hd (contents w (earliest w b bs))"
    using ut_loop_first [OF assms(1) _ d(2) d(2) assms(6)] assms(4,5) by metis
  obtain w' where w': "buf_put E ot c w = Some (0, w')"
    using buf_put_served [OF assms(1,2,3) c(2) assms(8)] by blast
  have "utStmt_exe_set_in E s w = Some (s_success, s\<lparr>sin := Some (earliest w b bs)\<rparr>, w')"
    using d c(1) w' assms(5,7) by (simp add: utStmt_exe_set_in_def del: ut_loop.simps)
  with buf_put_effect [OF assms(1,2) c(2) w'] assms(8) c(3) show ?thesis by auto
qed

section \<open>A timed union merges its inputs\<close>

text \<open>
  The engine executes a timed union and pops the input it took the tuple from, as long as the
  union succeeds.
\<close>

fun ut_run :: "nat \<Rightarrow> 'q qenv_scheme \<Rightarrow> stmt \<Rightarrow> world \<Rightarrow> (int \<times> stmt \<times> world) option" where
  "ut_run 0 E s w = None"
| "ut_run (Suc k) E s w = do {
     (rc, s, w) \<leftarrow> utStmt_exe_set_in E s w;
     if rc = s_success then do {
       i \<leftarrow> sin s;
       (_, w) \<leftarrow> buf_pop i w;
       ut_run k E s w
     } else Some (rc, s, w)
   }"

lemma ut_run_stop:
  "utStmt_exe_set_in E s w = Some (s_no_input, s', w') \<Longrightarrow> ut_run (Suc k) E s w = Some (s_no_input, s', w')"
  by (simp add: stmt_rc_defs)

definition sorted_q :: "tuple list \<Rightarrow> bool" where
  "sorted_q q \<longleftrightarrow> sorted (map tuple_time q)"

definition merge_inv :: "world \<Rightarrow> bptr \<Rightarrow> bptr list \<Rightarrow> bool" where
  "merge_inv w ot bs \<longleftrightarrow>
     sorted_q (contents w ot) \<and>
     (\<forall>b \<in> set bs. sorted_q (contents w b) \<and> list_all tuple_ok (contents w b) \<and>
        (\<forall>x \<in> set (contents w ot). \<forall>y \<in> set (contents w b). tuple_time x \<le> tuple_time y))"

definition total :: "world \<Rightarrow> bptr list \<Rightarrow> tuple multiset" where
  "total w bs = (\<Sum>b \<leftarrow> bs. mset (contents w b))"

lemma total_pop:
  assumes "distinct bs" "b \<in> set bs" "contents w b = x # q"
    and "\<And>c. c \<in> set bs \<Longrightarrow> contents w' c = (if c = b then q else contents w c)"
  shows "total w bs = add_mset x (total w' bs)"
  using assms
proof (induction bs)
  case Nil
  then show ?case by simp
next
  case (Cons a bs)
  show ?case
  proof (cases "a = b")
    case True
    have "total w bs = total w' bs"
      unfolding total_def using Cons.prems True by (intro arg_cong [where f = sum_list] map_cong) auto
    then show ?thesis using True Cons.prems by (simp add: total_def)
  next
    case False
    then have "total w bs = add_mset x (total w' bs)" using Cons by auto
    then show ?thesis using False Cons.prems by (simp add: total_def)
  qed
qed

lemma heads_ok_tuples:
  "\<forall>b \<in> set bs. is_queue w b \<Longrightarrow> merge_inv w ot bs \<Longrightarrow> heads_ok w bs"
  unfolding heads_ok_def merge_inv_def list_all_iff by (metis hd_in_set)

text \<open>One round: the earliest head moves from its input to the output.\<close>

lemma merge_inv_round:
  assumes inv: "merge_inv w ot (b # bs)" and ne: "\<forall>c \<in> set (b # bs). contents w c \<noteq> []"
    and d: "distinct (b # bs)" "ot \<notin> set (b # bs)"
    and c: "contents w' = (contents w)(ot := contents w ot @ [hd (contents w e)], e := tl (contents w e))"
    and e: "e = earliest w b bs"
  shows "merge_inv w' ot (b # bs)"
proof -
  have ein: "e \<in> set (b # bs)" using earliest_in e by blast
  obtain x q where xq: "contents w e = x # q" using ne ein by (cases "contents w e") auto
  have min: "tuple_time x \<le> tuple_time y" if cy: "c \<in> set (b # bs)" "y \<in> set (contents w c)" for c y
  proof -
    obtain z r where zr: "contents w c = z # r" using cy(2) by (cases "contents w c") auto
    have "head_time w e \<le> head_time w c" unfolding e by (rule earliest_le [OF cy(1)])
    moreover have "sorted_q (contents w c)" using inv cy(1) by (auto simp: merge_inv_def)
    ultimately show ?thesis using xq zr cy(2) by (auto simp: head_time_def sorted_q_def intro: order_trans)
  qed
  have last: "tuple_time y \<le> tuple_time x" if "y \<in> set (contents w ot)" for y
    using inv ein xq that by (auto simp: merge_inv_def)
  have ot: "contents w' ot = contents w ot @ [x]" using c xq ein d(2) by auto
  have sub: "set (contents w' c) \<subseteq> set (contents w c)" "sorted_q (contents w' c)" "list_all tuple_ok (contents w' c)"
    if "c \<in> set (b # bs)" for c
    using c inv that d(2) xq by (auto simp: merge_inv_def sorted_q_def)
  show ?thesis
    unfolding merge_inv_def
  proof (intro conjI ballI)
    show "sorted_q (contents w' ot)"
      using inv last by (auto simp: ot sorted_q_def merge_inv_def sorted_append)
    fix c y z assume "c \<in> set (b # bs)" "y \<in> set (contents w' ot)" "z \<in> set (contents w' c)"
    with sub(1) have "z \<in> set (contents w c)" by blast
    then show "tuple_time y \<le> tuple_time z"
      using \<open>y \<in> _\<close> \<open>c \<in> _\<close> inv min [of c z] unfolding ot merge_inv_def by auto
  qed (use sub in auto)
qed

text \<open>The static side conditions of a union statement and its buffers.\<close>

definition union_ok :: "stmt \<Rightarrow> world \<Rightarrow> bptr \<Rightarrow> bptr list \<Rightarrow> bool" where
  "union_ok s w ot bs \<longleftrightarrow>
     union_bufs s = bs \<and> bs \<noteq> [] \<and> sout s = Some ot \<and> distinct bs \<and> ot \<notin> set bs \<and>
     list_all (is_queue w) (ot # bs)"

lemma union_ok_shape: "same_shape w w' \<Longrightarrow> union_ok (s\<lparr>sin := i\<rparr>) w' ot bs = union_ok s w ot bs"
  by (simp add: union_ok_def same_shape_queue list_all_iff)

lemma ut_round_stop:
  assumes "world_ok w" "union_ok s w ot bs" "merge_inv w ot bs" "\<exists>c \<in> set bs. contents w c = []"
  shows "\<exists>c \<in> set bs. contents w c = [] \<and> ut_run (Suc k) E s w = Some (s_no_input, s\<lparr>sin := Some c\<rparr>, w)"
proof -
  obtain pre c post where c: "bs = pre @ c # post" "contents w c = []" "\<forall>x \<in> set pre. contents w x \<noteq> []"
    using assms(4) split_list_first_prop [of bs "\<lambda>x. contents w x = []"] by blast
  have "heads_ok w bs"
    using assms(2,3) by (intro heads_ok_tuples) (auto simp: union_ok_def list_all_iff)
  then have "ut_run (Suc k) E s w = Some (s_no_input, s\<lparr>sin := Some c\<rparr>, w)"
    using c assms(2) by (intro ut_run_stop ut_exe_no_input [OF assms(1)]) (auto simp: union_ok_def)
  with c show ?thesis by auto
qed

lemma ut_round_move:
  assumes law: "env_law E" "pool_serves E" and ok: "world_ok w" "union_ok s w ot bs" "merge_inv w ot bs"
    and ne: "\<forall>c \<in> set bs. contents w c \<noteq> []"
  obtains e x w2 where "ut_run (Suc k) E s w = ut_run k E (s\<lparr>sin := Some e\<rparr>) w2"
    "world_ok w2" "same_shape w w2" "merge_inv w2 ot bs" "contents w2 ot = contents w ot @ [x]"
    "total w bs = add_mset x (total w2 bs)"
proof -
  obtain b bs' where bs: "bs = b # bs'" using ok(2) by (cases bs) (auto simp: union_ok_def)
  have u: "union_bufs s = b # bs'" "sout s = Some ot" "distinct (b # bs')" "ot \<notin> set (b # bs')"
    "is_queue w ot" "\<forall>c \<in> set bs. is_queue w c"
    using ok(2) bs by (auto simp: union_ok_def list_all_iff)
  let ?e = "earliest w b bs'"
  have ein: "?e \<in> set (b # bs')" by (rule earliest_in)
  then have eot: "?e \<noteq> ot" using u(4) by auto
  obtain x q where xq: "contents w ?e = x # q" using ne ein bs by (cases "contents w ?e") auto
  have heads: "heads_ok w (b # bs')" using heads_ok_tuples [OF u(6) ok(3)] bs by simp
  obtain w1 where w1: "utStmt_exe_set_in E s w = Some (s_success, s\<lparr>sin := Some ?e\<rparr>, w1)"
    "world_ok w1" "same_shape w w1" "contents w1 = (contents w)(ot := contents w ot @ [x])"
    using ut_exe_success [OF ok(1) law, of s b bs' ot] heads ne bs u xq by auto
  then obtain w2 where w2: "buf_pop ?e w1 = Some (0, w2)" "world_ok w2" "same_shape w1 w2"
    "contents w2 ?e = q" "\<And>r. r \<noteq> ?e \<Longrightarrow> contents w2 r = contents w1 r"
    using buf_pop_effect [OF w1(2), of ?e x q] xq eot by auto
  have c2: "contents w2 = (contents w)(ot := contents w ot @ [hd (contents w ?e)], ?e := tl (contents w ?e))"
    using w1(4) w2(4,5) xq by (auto simp: fun_eq_iff)
  show thesis
  proof (rule that [of ?e w2 x])
    show "merge_inv w2 ot bs" using merge_inv_round [OF _ _ u(3,4) c2 refl] ok(3) ne bs by simp
    show "total w bs = add_mset x (total w2 bs)"
      unfolding bs by (rule total_pop [OF u(3) ein xq]) (use c2 xq u(4) in auto)
    show "ut_run (Suc k) E s w = ut_run k E (s\<lparr>sin := Some ?e\<rparr>) w2" using w1(1) w2(1) by simp
  qed (use w2 w1 c2 eot xq in \<open>auto intro: same_shape_trans\<close>)
qed

text \<open>
  C5: A timed union over inputs that are each in time stamp order merges them: the engine's loop
  of executing the union and popping the input it chose ends, after at most as many rounds as
  there are tuples, because some input has run empty; then the output is in time stamp order,
  it continues what was there before with tuples of the inputs, no tuple is lost or duplicated,
  and nothing left in an input is older than what has been output. The statement's input field
  names an empty input, the one to backtrack to.
\<close>

theorem timed_union_merges:
  assumes "env_law E" "pool_serves E" "world_ok w" "union_ok s w ot bs" "merge_inv w ot bs"
    and "k = size (total w bs)"
  shows "\<exists>s' w' e. ut_run (Suc k) E s w = Some (s_no_input, s', w') \<and>
     sin s' = Some e \<and> e \<in> set bs \<and> contents w' e = [] \<and>
     merge_inv w' ot bs \<and> (\<exists>new. contents w' ot = contents w ot @ new) \<and>
     mset (contents w' ot) + total w' bs = mset (contents w ot) + total w bs"
  using assms(3-)
proof (induction k arbitrary: s w)
  case 0
  then obtain b where "b \<in> set bs" "contents w b = []"
    by (cases bs) (auto simp: union_ok_def total_def)
  with ut_round_stop [OF 0(1-3), of 0 E] 0(3) show ?case by fastforce
next
  case (Suc k)
  show ?case
  proof (cases "\<exists>c \<in> set bs. contents w c = []")
    case True
    with ut_round_stop [OF Suc.prems(1-3), of "Suc k" E] Suc.prems(3) show ?thesis by fastforce
  next
    case False
    then have "\<forall>c \<in> set bs. contents w c \<noteq> []" by blast
    from ut_round_move [OF assms(1,2) Suc.prems(1-3) this, of "Suc k"] obtain e x w2 where
      r: "ut_run (Suc (Suc k)) E s w = ut_run (Suc k) E (s\<lparr>sin := Some e\<rparr>) w2" "world_ok w2" "same_shape w w2"
      "merge_inv w2 ot bs" "contents w2 ot = contents w ot @ [x]" "total w bs = add_mset x (total w2 bs)"
      by metis
    have "union_ok (s\<lparr>sin := Some e\<rparr>) w2 ot bs" using union_ok_shape [OF r(3)] Suc.prems(2) by simp
    from Suc.IH [OF r(2) this r(4)] Suc.prems(4) r show ?thesis by fastforce
  qed
qed

text \<open>An environment and a union of two inputs to run it on.\<close>

definition demo_qenv :: qenv where
  "demo_qenv = \<lparr>mm_malloc = \<lambda>m. Some (bump (nodes m)), mm_ok = \<lambda>_ _. True,
     new_buf = \<lambda>w. bump (bufs w), mm_buf = \<lambda>w. Some (bump (bufs w)),
     env_func = \<lambda>_ w _ _. (s_no_output, w), env_tv1 = Timestamp 0 0\<rparr>"

lemma demo_qenv_law: "env_law demo_qenv" "pool_serves demo_qenv"
  by (auto simp: env_law_def pool_serves_def demo_qenv_def bump_fresh)

definition demo_inputs :: world where
  "demo_inputs = bufferMngr_init\<lparr>bufs :=
     [(1, CommonBuf (buffer_init ''a'' NOT_SHARED) [demo_dbt CHR ''x'' 1, demo_dbt CHR ''z'' 3]),
      (2, CommonBuf (buffer_init ''b'' NOT_SHARED) [demo_dbt CHR ''y'' 2]),
      (3, CommonBuf (buffer_init ''o'' NOT_SHARED) [])]\<rparr>"

definition demo_union :: "stmt_t \<Rightarrow> stmt" where
  "demo_union t = (stmt_init t ''u'' False)\<lparr>union_bufs := [1, 2], sout := Some 3\<rparr>"

lemma demo_inputs_contents:
  "contents demo_inputs 1 = [view (demo_dbt CHR ''x'' 1), view (demo_dbt CHR ''z'' 3)]"
  "contents demo_inputs 2 = [view (demo_dbt CHR ''y'' 2)]" "contents demo_inputs 3 = []"
  by (simp_all add: contents_def demo_inputs_def commonBuf_contents_def)

lemma demo_inputs_ok: "world_ok demo_inputs"
  by (auto simp: world_ok_def demo_inputs_def bufferMngr_init_def buf_addrs_def commonBuf_inv_def
      split: if_splits)

lemma demo_union_ok: "union_ok (demo_union t) demo_inputs 3 [1, 2]"
  by (simp add: union_ok_def demo_union_def is_queue_def demo_inputs_def)

lemma demo_tuple_ok: "tuple_ok (view (demo_dbt ch t))" "tuple_time (view (demo_dbt ch t)) = Timestamp t 0"
  by (simp_all add: tuple_ok_def view_def demo_dbt_def area_view_def MAX_STR_LEN_def tuple_time_def)

theorem timed_union_merges_witness:
  "\<exists>s' w'. ut_run 4 demo_qenv (demo_union stmt_t_union) demo_inputs = Some (s_no_input, s', w') \<and>
     sorted_q (contents w' 3) \<and>
     mset (contents w' 3) + total w' [1, 2] = total demo_inputs [1, 2]"
proof -
  have inv: "merge_inv demo_inputs 3 [1, 2]"
    by (simp add: merge_inv_def demo_inputs_contents sorted_q_def demo_tuple_ok less_eq_timestamp_def
        del: One_nat_def)
  have "size (total demo_inputs [1, 2]) = 3"
    by (simp add: total_def demo_inputs_contents del: One_nat_def)
  then have k: "3 = size (total demo_inputs [1, 2])" by simp
  obtain s' w' where r: "ut_run (Suc 3) demo_qenv (demo_union stmt_t_union) demo_inputs = Some (s_no_input, s', w')"
    "merge_inv w' 3 [1, 2]"
    "mset (contents w' 3) + total w' [1, 2] = mset (contents demo_inputs 3) + total demo_inputs [1, 2]"
    using timed_union_merges [OF demo_qenv_law demo_inputs_ok demo_union_ok inv k, of stmt_t_union] by blast
  have "sorted_q (contents w' 3)" using r(2) by (simp only: merge_inv_def)
  moreover have "mset (contents w' 3) + total w' [1, 2] = total demo_inputs [1, 2]"
    using r(3) by (simp only: demo_inputs_contents mset.simps add_0)
  moreover have "(4 :: nat) = Suc 3" by simp
  ultimately show ?thesis using r(1) by metis
qed

section \<open>The timeless union\<close>

text \<open>The inputs in the order in which they are visited, and the outcome for a part of that order.\<close>

definition utl_post ::
  "'q qenv_scheme \<Rightarrow> stmt \<Rightarrow> world \<Rightarrow> bptr \<Rightarrow> bptr \<Rightarrow> bptr list \<Rightarrow> (int \<times> stmt \<times> world) option \<Rightarrow> bool" where
  "utl_post E s w ot b0 order res =
     (case find (\<lambda>b. contents w b \<noteq> []) order of
        None \<Rightarrow> res = Some (s_no_input, s\<lparr>sin := Some b0\<rparr>, w)
      | Some b \<Rightarrow> (\<exists>w'. res = Some (s_success, s\<lparr>sin := Some b\<rparr>, w') \<and> world_ok w' \<and> same_shape w w' \<and>
                     contents w' = (contents w)(ot := contents w ot @ [hd (contents w b)])))"

lemma utl_visit:
  assumes "env_law E" "pool_serves E" "world_ok w" "heads_ok w [b]" "is_queue w ot" "scratch_ok d"
    and "contents w b \<noteq> []"
  shows "\<exists>d' w'. buf_empty b w = Some False \<and> buf_get b d w = Some (0, d') \<and> buf_put E ot d' w = Some (0, w') \<and>
     world_ok w' \<and> same_shape w w' \<and> contents w' = (contents w)(ot := contents w ot @ [hd (contents w b)])"
proof -
  obtain x q where xq: "contents w b = x # q" using assms(7) by (cases "contents w b") auto
  have b: "is_queue w b" "tuple_ok x" using assms(4) xq by (auto simp: heads_ok_def)
  obtain d' where d': "buf_get b d w = Some (0, d')" "dbt_ok d'" "view d' = x"
    using scratch_get [OF assms(3) xq b(2) assms(6)] by blast
  obtain w' where w': "buf_put E ot d' w = Some (0, w')"
    using buf_put_served [OF assms(3,1,2) d'(2) assms(5)] by blast
  from buf_put_effect [OF assms(3,1) d'(2) w'] assms(5) d' w' xq buf_empty_contents [OF assms(3) b(1)]
  show ?thesis by auto
qed

lemma rotate_step: "j < length bs \<Longrightarrow> k < length bs \<Longrightarrow>
  drop j (rotate k bs) = bs ! ((k + j) mod length bs) # drop (Suc j) (rotate k bs)"
  by (metis Cons_nth_drop_Suc length_rotate nth_rotate add.commute)

lemma mod_shift: "0 < j \<Longrightarrow> j < n \<Longrightarrow> k < n \<Longrightarrow> (k + j) mod n \<noteq> (k :: nat)"
  by (cases "k + j < n") (auto simp: le_mod_geq)

text \<open>
  From the visit of an input on: the loop has found its starting point \<open>k\<close>, stands at the
  \<open>j\<close>-th input of the round and has seen only empty ones.
\<close>

lemma utl_loop_round:
  assumes "env_law E" "pool_serves E" "world_ok w" "union_ok s w ot bs" "heads_ok w bs" "scratch_ok d"
    and "k < length bs" "0 < j" "j \<le> length bs" "length bs - j < fuel"
  shows "utl_post E s w ot (bs ! k) (drop j (rotate k bs))
           (utl_loop fuel E s w d ((k + j) mod length bs) k (sin s \<noteq> None))"
  using assms(8-)
proof (induction fuel arbitrary: j)
  case 0
  then show ?case by simp
next
  case (Suc fuel)
  let ?n = "length bs"
  have u: "union_bufs s = bs" "sout s = Some ot" "is_queue w ot" using assms(4) by (auto simp: union_ok_def)
  show ?case
  proof (cases "j = ?n")
    case True
    then show ?thesis using assms(7) u by (simp add: utl_post_def)
  next
    case False
    then have j: "j < ?n" using Suc.prems by simp
    let ?i = "(k + j) mod ?n"
    have i: "?i < ?n" using assms(7) by (intro mod_less_divisor) auto
    have ik: "?i \<noteq> k" using mod_shift [OF Suc.prems(1) j assms(7)] .
    show ?thesis
    proof (cases "contents w (bs ! ?i) = []")
      case True
      have "buf_empty (bs ! ?i) w = Some True"
        using buf_empty_contents [OF assms(3)] assms(5) True i by (auto simp: heads_ok_def)
      moreover have "utl_post E s w ot (bs ! k) (drop (Suc j) (rotate k bs))
           (utl_loop fuel E s w d ((k + Suc j) mod ?n) k (sin s \<noteq> None))"
        using Suc.IH [of "Suc j"] Suc.prems j by auto
      moreover have "utl_loop (Suc fuel) E s w d ?i k (sin s \<noteq> None) =
          utl_loop fuel E s w d ((k + Suc j) mod ?n) k (sin s \<noteq> None)"
        using calculation(1) ik i u assms(7)
        by (cases "sin s") (simp_all add: Let_def mod_Suc)
      ultimately show ?thesis
        using True unfolding rotate_step [OF j assms(7)] by (simp add: utl_post_def)
    next
      case False
      have "heads_ok w [bs ! ?i]" using assms(5) i by (auto simp: heads_ok_def)
      from utl_visit [OF assms(1-3) this u(3) assms(6) False] False ik i u assms(7) show ?thesis
        unfolding rotate_step [OF j assms(7)]
        by (cases "sin s") (auto simp: utl_post_def Let_def)
    qed
  qed
qed

lemma utl_loop_start:
  assumes ok: "env_law E" "pool_serves E" "world_ok w" "union_ok s w ot bs" "heads_ok w bs" "scratch_ok d"
    and k: "k < length bs" "sin s = None \<and> k = 0 \<or> sin s = Some (bs ! k)" and fuel: "length bs < fuel"
  shows "utl_post E s w ot (bs ! k) (rotate k bs) (utl_loop (Suc fuel) E s w d k (length bs) False)"
proof -
  let ?n = "length bs"
  have u: "union_bufs s = bs" "sout s = Some ot" "is_queue w ot" using ok(4) by (auto simp: union_ok_def)
  have rot: "rotate k bs = bs ! k # drop 1 (rotate k bs)"
    using rotate_step [of 0 bs k] k(1) by (cases bs) auto
  show ?thesis
  proof (cases "contents w (bs ! k) = []")
    case True
    have "buf_empty (bs ! k) w = Some True"
      using buf_empty_contents [OF ok(3)] ok(5) True k(1) by (auto simp: heads_ok_def)
    moreover have "utl_post E s w ot (bs ! k) (drop 1 (rotate k bs))
        (utl_loop fuel E s w d ((k + 1) mod ?n) k (sin s \<noteq> None))"
      using utl_loop_round [OF ok k(1), of 1 fuel] fuel k(1) by auto
    moreover have "utl_loop (Suc fuel) E s w d k ?n False =
        utl_loop fuel E s w d ((k + 1) mod ?n) k (sin s \<noteq> None)"
      using calculation(1) u k by (cases "sin s") (auto simp: Let_def mod_Suc)
    ultimately show ?thesis
      using True by (subst rot) (simp add: utl_post_def)
  next
    case False
    have "heads_ok w [bs ! k]" using ok(5) k(1) by (auto simp: heads_ok_def)
    from utl_visit [OF ok(1-3) this u(3) ok(6) False] False u k show ?thesis
      by (subst rot) (auto simp: utl_post_def Let_def)
  qed
qed

text \<open>The search for the input used last.\<close>

lemma utl_loop_scan:
  assumes "union_bufs s = bs" "distinct bs" "k < length bs" "sin s = Some (bs ! k)" "i \<le> k"
  shows "utl_loop (fuel + (k - i)) E s w d i (length bs) False = utl_loop fuel E s w d k (length bs) False"
  using assms(5)
proof (induction "k - i" arbitrary: i)
  case 0
  then show ?case by simp
next
  case (Suc m)
  then have i: "i < k" by simp
  have "bs ! i \<noteq> bs ! k" using assms(2,3) i by (simp add: nth_eq_iff_index_eq)
  moreover obtain f where f: "fuel + (k - i) = Suc (fuel + (k - Suc i))" using i by simp
  ultimately show ?case
    using Suc(1) [of "Suc i"] Suc(2) i assms by (simp add: f Let_def)
qed

text \<open>
  C18: A timeless union goes round its inputs from the one it used last, or from the first one:
  it takes the head of the first input that has a tuple, appends it to the output and names
  that input; if no input has one it reports that there is no input and names the input it
  started from. It always returns, within its bound of steps, and changes no other buffer.
\<close>

theorem timeless_union_round_robin:
  assumes "env_law E" "pool_serves E" "world_ok w" "union_ok s w ot bs" "heads_ok w bs"
    and "k < length bs" "sin s = None \<and> k = 0 \<or> sin s = Some (bs ! k)"
  shows "case find (\<lambda>b. contents w b \<noteq> []) (rotate k bs) of
      None \<Rightarrow> utlStmt_exe_set_in E s w = Some (s_no_input, s\<lparr>sin := Some (bs ! k)\<rparr>, w)
    | Some b \<Rightarrow> \<exists>w'. utlStmt_exe_set_in E s w = Some (s_success, s\<lparr>sin := Some b\<rparr>, w') \<and>
        world_ok w' \<and> same_shape w w' \<and>
        contents w' = (contents w)(ot := contents w ot @ [hd (contents w b)])"
proof -
  obtain d where d: "cDBT_space MAX_STR_LEN (Some (env_tv1 E)) 0 = Some d" "scratch_ok d"
    using scratch_space by blast
  let ?n = "length bs"
  have u: "union_bufs s = bs" "distinct bs" using assms(4) by (auto simp: union_ok_def)
  have "utlStmt_exe_set_in E s w = utl_loop (Suc (2 * ?n + 1)) E s w d 0 ?n False"
    using d u by (simp add: utlStmt_exe_set_in_def del: utl_loop.simps)
  also have "\<dots> = utl_loop (Suc (2 * ?n + 1 - k)) E s w d k ?n False"
  proof (cases "sin s = None")
    case True
    then show ?thesis using assms(7) by simp
  next
    case False
    then have "sin s = Some (bs ! k)" using assms(7) by auto
    from utl_loop_scan [OF u assms(6) this, of 0 "Suc (2 * ?n + 1 - k)"] assms(6) show ?thesis
      by (simp del: utl_loop.simps)
  qed
  finally have eq: "utlStmt_exe_set_in E s w = utl_loop (Suc (2 * ?n + 1 - k)) E s w d k ?n False" .
  have "utl_post E s w ot (bs ! k) (rotate k bs) (utlStmt_exe_set_in E s w)"
    unfolding eq by (rule utl_loop_start [OF assms(1-5) d(2) assms(6,7)]) (use assms(6) in simp)
  then show ?thesis by (simp add: utl_post_def)
qed

theorem timeless_union_round_robin_witness:
  "\<exists>w'. utlStmt_exe_set_in demo_qenv ((demo_union stmt_tl_union)\<lparr>sin := Some 2\<rparr>) demo_inputs =
       Some (s_success, (demo_union stmt_tl_union)\<lparr>sin := Some 2\<rparr>, w') \<and>
     contents w' 3 = [view (demo_dbt CHR ''y'' 2)]"
proof -
  have h: "heads_ok demo_inputs [1, 2]"
    using demo_union_ok
    by (auto simp: heads_ok_def demo_inputs_contents [simplified] demo_tuple_ok union_ok_def)
  have u: "union_ok ((demo_union stmt_tl_union)\<lparr>sin := Some 2\<rparr>) demo_inputs 3 [1, 2]"
    using union_ok_shape [OF same_shape_refl] demo_union_ok by blast
  have k: "(1 :: nat) < length [1 :: nat, 2]" by simp
  have i: "sin ((demo_union stmt_tl_union)\<lparr>sin := Some 2\<rparr>) = Some ([1, 2] ! 1)" by simp
  have f: "find (\<lambda>b. contents demo_inputs b \<noteq> []) (rotate 1 [1, 2]) = Some 2"
    by (simp add: demo_inputs_contents)
  from timeless_union_round_robin [OF demo_qenv_law demo_inputs_ok u h k disjI2 [OF i], unfolded f]
  show ?thesis by (auto simp: demo_inputs_contents)
qed

end
