(* ===== verification/Driver.thy ===== *)
theory Driver
  imports Stmt
begin

text \<open>
  The query graph of a driver (\<open>sql/esl/driver.h\<close>, \<open>sql/esl/driver.cc\<close>). A driver owns a
  connected set of statements and a state table with one entry per buffer: what kind of buffer
  it is, which statement reads it, where a tuple goes next and where to backtrack to. A buffer
  read by several statements is a fork; it has one dummy entry per reader, under the
  concatenation of the two buffer names. \<open>addStmt\<close> and \<open>dropStmt\<close> edit the table.

  The unions of the source are datatypes: reading a member that was not written last is
  undefined, \<open>None\<close>. The hash table is an association list; its keys are the names.
\<close>

section \<open>Data\<close>

datatype d_action =
  act_none | act_cjump | act_merge_jump | act_cfork | act_jump | act_merge | act_merge_cfork

datatype buffer_ty =
  t_normal | t_source | t_fork | t_source_fork | t_merge | t_sink | t_merge_sink | t_merge_fork
| t_fork_dummy | t_none

datatype fw_entry = ForwardBuf "string option" | ForkCount int

datatype bk_entry = BackBuf "string option" | UnionStmt sptr | Processed bool

record b_entry =
  b_type :: buffer_ty
  statement :: "sptr option"
  ebuf :: "bptr option"
  bback :: bk_entry
  inplace :: "string option"
  forward :: fw_entry
  action :: d_action

type_synonym table = "(string \<times> b_entry) list"

record driver =
  did :: int
  tbl :: table
  priority :: int
  dstmts :: "sptr list"
  dbufs :: "bptr list"
  last_run_name :: string
  dirty :: bool
  stateTableChanged :: bool

definition SUCCESS :: int where "SUCCESS = 0"
definition FAILURE :: int where "FAILURE = 1"

definition DEFAULT_TUPLE_PER_PROMPT :: int where
  "DEFAULT_TUPLE_PER_PROMPT = 100000"

definition Driver_init :: "bool \<Rightarrow> int \<Rightarrow> driver" where
  "Driver_init monitor_exp_mode prty =
     \<lparr>did = 0, tbl = [], priority = (if monitor_exp_mode then 30000 else prty), dstmts = [], dbufs = [],
      last_run_name = [], dirty = False, stateTableChanged = False\<rparr>"

definition is_fork :: "buffer_ty \<Rightarrow> bool" where
  "is_fork t \<longleftrightarrow> t = t_fork \<or> t = t_source_fork \<or> t = t_merge_fork"

definition is_merge :: "buffer_ty \<Rightarrow> bool" where
  "is_merge t \<longleftrightarrow> t = t_merge \<or> t = t_merge_sink \<or> t = t_merge_fork"

definition is_union :: "stmt_t \<Rightarrow> bool" where
  "is_union t \<longleftrightarrow> t = stmt_t_union \<or> t = stmt_tl_union"

text \<open>The copy constructor of an entry copies the union members its type calls for.\<close>

definition buffer_entry_copy :: "b_entry \<Rightarrow> b_entry option" where
  "buffer_entry_copy e = do {
     guard (case bback e of
              UnionStmt _ \<Rightarrow> is_merge (b_type e)
            | Processed _ \<Rightarrow> b_type e = t_fork_dummy
            | BackBuf _ \<Rightarrow> \<not> is_merge (b_type e) \<and> b_type e \<noteq> t_fork_dummy);
     guard (case forward e of ForkCount _ \<Rightarrow> is_fork (b_type e) | ForwardBuf _ \<Rightarrow> \<not> is_fork (b_type e));
     Some e
   }"

definition getStmtByName :: "(sptr \<Rightarrow> stmt option) \<Rightarrow> string option \<Rightarrow> driver \<Rightarrow> sptr option" where
  "getStmtByName st nm d =
     (case nm of None \<Rightarrow> None
      | Some nm \<Rightarrow> find (\<lambda>p. map_option sname (st p) = Some nm) (dstmts d))"

definition getBufByName :: "(bptr \<Rightarrow> string option) \<Rightarrow> string option \<Rightarrow> driver \<Rightarrow> bptr option" where
  "getBufByName bn nm d =
     (case nm of None \<Rightarrow> None | Some nm \<Rightarrow> find (\<lambda>b. bn b = Some nm) (dbufs d))"

definition getBuffer :: "string \<Rightarrow> driver \<Rightarrow> bptr option" where
  "getBuffer nm d = map_of (tbl d) nm \<bind> ebuf"

definition getBufType :: "string \<Rightarrow> driver \<Rightarrow> buffer_ty" where
  "getBufType nm d = (case map_of (tbl d) nm of None \<Rightarrow> t_none | Some e \<Rightarrow> b_type e)"

section \<open>addStmt\<close>

text \<open>The entries the operation creates.\<close>

definition source_entry :: "sptr \<Rightarrow> bptr \<Rightarrow> string \<Rightarrow> string \<Rightarrow> b_entry" where
  "source_entry p b nm out = \<lparr>b_type = t_source, statement = Some p, ebuf = Some b, bback = BackBuf None,
     inplace = Some nm, forward = ForwardBuf (Some out), action = act_cjump\<rparr>"

definition sink_entry :: "bptr \<Rightarrow> string \<Rightarrow> b_entry" where
  "sink_entry b bk = \<lparr>b_type = t_sink, statement = None, ebuf = Some b, bback = BackBuf (Some bk),
     inplace = None, forward = ForwardBuf None, action = act_none\<rparr>"

definition merge_sink_entry :: "sptr \<Rightarrow> bptr \<Rightarrow> b_entry" where
  "merge_sink_entry p b = \<lparr>b_type = t_merge_sink, statement = None, ebuf = Some b, bback = UnionStmt p,
     inplace = None, forward = ForwardBuf None, action = act_merge\<rparr>"

definition dummy_entry :: "sptr option \<Rightarrow> string \<Rightarrow> string \<Rightarrow> b_entry" where
  "dummy_entry p nm fwd = \<lparr>b_type = t_fork_dummy, statement = p, ebuf = None, bback = Processed False,
     inplace = Some nm, forward = ForwardBuf (Some fwd), action = act_jump\<rparr>"

definition put_entry :: "string \<Rightarrow> b_entry \<Rightarrow> driver \<Rightarrow> driver" where
  "put_entry k e d = d\<lparr>tbl := AList.update k e (tbl d)\<rparr>"

definition push_buf :: "bptr \<Rightarrow> driver \<Rightarrow> driver" where
  "push_buf b d = d\<lparr>dbufs := dbufs d @ [b]\<rparr>"

definition add_source :: "(bptr \<Rightarrow> string option) \<Rightarrow> sptr \<Rightarrow> string \<Rightarrow> bool \<Rightarrow> bptr \<Rightarrow> driver \<Rightarrow> driver option" where
  "add_source bn p out push b d = do {
     nm \<leftarrow> bn b;
     let d = put_entry nm (source_entry p b nm out) d;
     Some (if push then push_buf b d else d)
   }"

text \<open>The first statement of a driver. For a join the buffer \<open>in\<close> gets an entry but is not listed.\<close>

definition addStmt_empty :: "(bptr \<Rightarrow> string option) \<Rightarrow> sptr \<Rightarrow> stmt \<Rightarrow> driver \<Rightarrow> (int \<times> driver) option" where
  "addStmt_empty bn p s d =
     (if stype s = stmt_coll then Some (FAILURE, d)
      else do {
        ot \<leftarrow> sout s;
        out \<leftarrow> bn ot;
        d \<leftarrow> (if stype s = stmt_normal then do {
                i \<leftarrow> sin s;
                inn \<leftarrow> bn i;
                d \<leftarrow> add_source bn p out True i d;
                Some (put_entry out (sink_entry ot inn) d)
              } else if is_union (stype s) then do {
                d \<leftarrow> foldM (add_source bn p out True) (union_bufs s) d;
                Some (put_entry out (merge_sink_entry p ot) d)
              } else do {
                i \<leftarrow> sin s;
                d \<leftarrow> add_source bn p out False i d;
                d \<leftarrow> foldM (add_source bn p out True) (window_bufs s) d;
                Some (put_entry out (merge_sink_entry p ot) d)
              });
        let d = push_buf ot d;
        Some (SUCCESS, d\<lparr>dstmts := dstmts d @ [p], dirty := True\<rparr>)
      })"

definition in_bufs :: "stmt \<Rightarrow> bptr list option" where
  "in_bufs s =
     (case stype s of
        stmt_normal \<Rightarrow> map_option (\<lambda>i. [i]) (sin s)
      | stmt_join \<Rightarrow> map_option (\<lambda>i. window_bufs s @ [i]) (sin s)
      | stmt_t_union \<Rightarrow> Some (union_bufs s)
      | stmt_tl_union \<Rightarrow> Some (union_bufs s)
      | stmt_coll \<Rightarrow> None)"

text \<open>A buffer with one reader gets a second one: it becomes a fork with two dummies.\<close>

definition fork_ty_of :: "buffer_ty \<Rightarrow> buffer_ty" where
  "fork_ty_of t = (if t = t_source then t_source_fork else if t = t_normal then t_fork else t_merge_fork)"

definition fork_act_of :: "buffer_ty \<Rightarrow> d_action" where
  "fork_act_of t = (if t = t_merge then act_merge_cfork else act_cfork)"

definition make_fork :: "sptr \<Rightarrow> string \<Rightarrow> string \<Rightarrow> b_entry \<Rightarrow> driver \<Rightarrow> driver option" where
  "make_fork p nm out e d =
     (case forward e of
        ForwardBuf (Some old) \<Rightarrow> do {
          let d = put_entry nm (e\<lparr>b_type := fork_ty_of (b_type e), action := fork_act_of (b_type e),
                                 forward := ForkCount 2\<rparr>) d;
          let d = put_entry (nm @ old) (dummy_entry (statement e) nm old) d;
          oe \<leftarrow> map_of (tbl d) old;
          let d = (if is_merge (b_type oe) then d
                   else put_entry old (oe\<lparr>bback := BackBuf (Some (nm @ old))\<rparr>) d);
          Some (put_entry (nm @ out) (dummy_entry (Some p) nm out) d)
        }
      | _ \<Rightarrow> None)"

text \<open>A fork gets one more reader.\<close>

definition grow_fork :: "sptr \<Rightarrow> string \<Rightarrow> string \<Rightarrow> b_entry \<Rightarrow> driver \<Rightarrow> driver option" where
  "grow_fork p nm out e d =
     (case forward e of
        ForkCount c \<Rightarrow>
          Some (put_entry (nm @ out) (dummy_entry (Some p) nm out)
                 (put_entry nm (e\<lparr>forward := ForkCount (c + 1)\<rparr>) d))
      | _ \<Rightarrow> None)"

text \<open>A sink gets its first reader.\<close>

definition extend_sink :: "sptr \<Rightarrow> string \<Rightarrow> string \<Rightarrow> b_entry \<Rightarrow> driver \<Rightarrow> driver" where
  "extend_sink p nm out e d =
     put_entry nm
       (e\<lparr>statement := Some p,
          b_type := (if b_type e = t_sink then t_normal else t_merge),
          action := (if b_type e = t_sink then act_cjump else act_merge_jump),
          inplace := Some nm, forward := ForwardBuf (Some out)\<rparr>) d"

text \<open>
  One input buffer. The result is \<open>Inl\<close> with the driver as it stands when the source returns
  \<open>FAILURE\<close>, and \<open>Inr\<close> with the type of the input and the name of the last dummy otherwise.
\<close>

definition add_in ::
  "(bptr \<Rightarrow> string option) \<Rightarrow> sptr \<Rightarrow> stmt \<Rightarrow> string \<Rightarrow> bptr \<Rightarrow> driver \<Rightarrow> buffer_ty \<Rightarrow> string option
     \<Rightarrow> (driver + driver \<times> buffer_ty \<times> string option) option" where
  "add_in bn p s out b d in_type dummy = do {
     nm \<leftarrow> bn b;
     case map_of (tbl d) nm of
       None \<Rightarrow> do {
         d \<leftarrow> add_source bn p out True b d;
         Some (Inr (d, t_source, dummy))
       }
     | Some e \<Rightarrow>
         if (case map_of (tbl d) out of None \<Rightarrow> False
             | Some oe \<Rightarrow> b_type oe \<noteq> t_source \<and> b_type oe \<noteq> t_source_fork)
         then Some (Inl d)
         else if b_type e = t_source \<or> b_type e = t_normal \<or> b_type e = t_merge then
           (if stype s = stmt_join \<and> Some b \<noteq> sin s then Some (Inl d)
            else do {
              d \<leftarrow> make_fork p nm out e d;
              Some (Inr (d, fork_ty_of (b_type e), Some (nm @ out)))
            })
         else if is_fork (b_type e) then do {
           d \<leftarrow> grow_fork p nm out e d;
           Some (Inr (d, b_type e, Some (nm @ out)))
         }
         else if b_type e = t_sink \<or> b_type e = t_merge_sink then
           Some (Inr (extend_sink p nm out e d, if b_type e = t_sink then t_normal else t_merge, dummy))
         else Some (Inl d)
   }"

fun add_ins ::
  "(bptr \<Rightarrow> string option) \<Rightarrow> sptr \<Rightarrow> stmt \<Rightarrow> string \<Rightarrow> bptr list \<Rightarrow> driver \<Rightarrow> buffer_ty \<Rightarrow> string option
     \<Rightarrow> (driver + driver \<times> buffer_ty \<times> string option) option" where
  "add_ins bn p s out [] d in_type dummy = Some (Inr (d, in_type, dummy))"
| "add_ins bn p s out (b # bs) d in_type dummy = do {
     r \<leftarrow> add_in bn p s out b d in_type dummy;
     case r of
       Inl d \<Rightarrow> Some (Inl d)
     | Inr (d, in_type, dummy) \<Rightarrow> add_ins bn p s out bs d in_type dummy
   }"

text \<open>The output buffer.\<close>

definition out_back :: "(bptr \<Rightarrow> string option) \<Rightarrow> stmt \<Rightarrow> buffer_ty \<Rightarrow> string option \<Rightarrow> string option option" where
  "out_back bn s in_type dummy =
     (if is_fork in_type then Some dummy else map_option Some (sin s \<bind> bn))"

definition add_out ::
  "(bptr \<Rightarrow> string option) \<Rightarrow> sptr \<Rightarrow> stmt \<Rightarrow> bptr \<Rightarrow> string \<Rightarrow> driver \<Rightarrow> buffer_ty \<Rightarrow> string option
     \<Rightarrow> (int \<times> driver) option" where
  "add_out bn p s ot out d in_type dummy =
     (case map_of (tbl d) out of
        None \<Rightarrow>
          (if stype s = stmt_normal then do {
             bk \<leftarrow> out_back bn s in_type dummy;
             Some (SUCCESS, push_buf ot (put_entry out ((sink_entry ot [])\<lparr>bback := BackBuf bk\<rparr>) d))
           } else Some (SUCCESS, push_buf ot (put_entry out (merge_sink_entry p ot) d)))
      | Some e \<Rightarrow>
          if b_type e \<noteq> t_source \<and> b_type e \<noteq> t_source_fork then Some (FAILURE, d)
          else if stype s = stmt_normal then do {
            bk \<leftarrow> out_back bn s in_type dummy;
            Some (SUCCESS, put_entry out
              (e\<lparr>b_type := (if b_type e = t_source then t_normal else t_fork), bback := BackBuf bk\<rparr>) d)
          }
          else Some (SUCCESS, put_entry out
              (e\<lparr>b_type := (if b_type e = t_source then t_merge else t_merge_fork),
                 action := (if b_type e = t_source then act_merge_jump else act_merge_cfork),
                 bback := UnionStmt p\<rparr>) d))"

definition addStmt :: "(bptr \<Rightarrow> string option) \<Rightarrow> sptr \<Rightarrow> stmt \<Rightarrow> driver \<Rightarrow> (int \<times> driver) option" where
  "addStmt bn p s d =
     (if \<not> valid s then Some (FAILURE, d)
      else if dstmts d = [] then addStmt_empty bn p s d
      else if stype s = stmt_coll then Some (FAILURE, d)
      else do {
        bs \<leftarrow> in_bufs s;
        ot \<leftarrow> sout s;
        out \<leftarrow> bn ot;
        r \<leftarrow> add_ins bn p s out bs d t_none None;
        case r of
          Inl d \<Rightarrow> Some (FAILURE, d)
        | Inr (d, in_type, dummy) \<Rightarrow> do {
            (rc, d) \<leftarrow> add_out bn p s ot out d in_type dummy;
            Some (rc, if rc = SUCCESS then d\<lparr>dstmts := dstmts d @ [p], dirty := True\<rparr> else d)
          }
      })"

section \<open>dropStmt\<close>

definition del_entry :: "string \<Rightarrow> driver \<Rightarrow> driver" where
  "del_entry k d = d\<lparr>tbl := AList.delete k (tbl d)\<rparr>"

definition remove_buf :: "bptr option \<Rightarrow> driver \<Rightarrow> driver" where
  "remove_buf b d = d\<lparr>dbufs := filter (\<lambda>x. Some x \<noteq> b) (dbufs d)\<rparr>"

definition unfork_ty :: "buffer_ty \<Rightarrow> buffer_ty" where
  "unfork_ty t =
     (if t = t_fork then t_normal else if t = t_source_fork then t_source
      else if t = t_merge_fork then t_merge else t)"

definition unfork_act :: "buffer_ty \<Rightarrow> d_action \<Rightarrow> d_action" where
  "unfork_act t a =
     (if t = t_fork \<or> t = t_source_fork then act_cjump
      else if t = t_merge_fork then act_merge_jump else a)"

text \<open>
  One remaining dummy of a fork that has one branch left: its statement and its target move to
  the buffer entry \<open>nm\<close>, and the \<open>back\<close> member of the target's entry is overwritten whatever
  kind of entry it is.
\<close>

definition collapse_into :: "string \<Rightarrow> string \<Rightarrow> b_entry \<Rightarrow> driver \<Rightarrow> driver option" where
  "collapse_into nm bfn de d =
     (case forward de of
        ForwardBuf (Some fwd) \<Rightarrow> do {
          e \<leftarrow> map_of (tbl d) nm;
          let d = put_entry nm (e\<lparr>b_type := unfork_ty (b_type e), action := unfork_act (b_type e) (action e),
                                 statement := statement de, forward := ForwardBuf (Some fwd)\<rparr>) d;
          fe \<leftarrow> map_of (tbl d) fwd;
          Some (put_entry fwd (fe\<lparr>bback := BackBuf (Some bfn)\<rparr>) d)
        }
      | _ \<Rightarrow> None)"

definition collapse_fork :: "string \<Rightarrow> string \<Rightarrow> driver \<Rightarrow> driver option" where
  "collapse_fork nm bfn d = do {
     let ds = filter (\<lambda>(k, de). b_type de = t_fork_dummy \<and> inplace de = Some bfn) (tbl d);
     d \<leftarrow> foldM (\<lambda>(k, de) d. collapse_into nm bfn de d) ds d;
     guard (ds \<noteq> []);
     Some (del_entry (fst (last ds)) d)
   }"

text \<open>
  One input buffer of the dropped statement. The names collected are those whose entry the
  driver manager has to forget for this driver; \<open>Inl\<close> is the early return of \<open>FAILURE\<close>.
\<close>

definition drop_in ::
  "(bptr \<Rightarrow> string option) \<Rightarrow> string \<Rightarrow> bptr \<Rightarrow> driver \<times> string list \<Rightarrow> (driver \<times> string list + driver \<times> string list) option" where
  "drop_in bn out b dr = do {
     let (d, names) = dr;
     nm \<leftarrow> bn b;
     e \<leftarrow> map_of (tbl d) nm;
     case b_type e of
       t_source \<Rightarrow> Some (Inr (del_entry nm (remove_buf (ebuf e) d), names @ [nm]))
     | t_normal \<Rightarrow> Some (Inr (put_entry nm (e\<lparr>b_type := t_sink, statement := None, inplace := None,
                       forward := ForwardBuf None, action := act_none\<rparr>) d, names))
     | t_merge \<Rightarrow> Some (Inr (put_entry nm (e\<lparr>b_type := t_merge_sink, statement := None, inplace := None,
                       forward := ForwardBuf None, action := act_merge\<rparr>) d, names))
     | t_sink \<Rightarrow> Some (Inl (d, names))
     | t_merge_sink \<Rightarrow> Some (Inl (d, names))
     | t_fork_dummy \<Rightarrow> Some (Inl (d, names))
     | t_none \<Rightarrow> Some (Inl (d, names))
     | _ \<Rightarrow>
         (case forward e of
            ForkCount c \<Rightarrow> do {
              let d = del_entry (nm @ out) (put_entry nm (e\<lparr>forward := ForkCount (c - 1)\<rparr>) d);
              if c - 1 = 1 then do {
                eb \<leftarrow> ebuf e;
                en \<leftarrow> bn eb;
                d \<leftarrow> collapse_fork nm en d;
                Some (Inr (d, names))
              } else Some (Inr (d, names))
            }
          | _ \<Rightarrow> None)
   }"

fun drop_ins ::
  "(bptr \<Rightarrow> string option) \<Rightarrow> string \<Rightarrow> bptr list \<Rightarrow> driver \<times> string list \<Rightarrow> (driver \<times> string list + driver \<times> string list) option" where
  "drop_ins bn out [] dr = Some (Inr dr)"
| "drop_ins bn out (b # bs) dr = do {
     r \<leftarrow> drop_in bn out b dr;
     case r of Inl x \<Rightarrow> Some (Inl x) | Inr x \<Rightarrow> drop_ins bn out bs x
   }"

definition drop_out :: "string \<Rightarrow> driver \<times> string list \<Rightarrow> (int \<times> driver \<times> string list) option" where
  "drop_out out dr = do {
     let (d, names) = dr;
     e \<leftarrow> map_of (tbl d) out;
     Some (case b_type e of
       t_sink \<Rightarrow> (SUCCESS, del_entry out (remove_buf (ebuf e) d), names @ [out])
     | t_merge_sink \<Rightarrow> (SUCCESS, del_entry out (remove_buf (ebuf e) d), names @ [out])
     | t_normal \<Rightarrow> (SUCCESS, put_entry out (e\<lparr>b_type := t_source, bback := BackBuf None, action := act_cjump\<rparr>) d, names)
     | t_merge \<Rightarrow> (SUCCESS, put_entry out (e\<lparr>b_type := t_source, bback := BackBuf None, action := act_cjump\<rparr>) d, names)
     | t_fork \<Rightarrow> (SUCCESS, put_entry out (e\<lparr>b_type := t_source_fork, bback := BackBuf None, action := act_cfork\<rparr>) d, names)
     | t_merge_fork \<Rightarrow> (SUCCESS, put_entry out (e\<lparr>b_type := t_source_fork, bback := BackBuf None, action := act_cfork\<rparr>) d, names)
     | _ \<Rightarrow> (FAILURE, d, names))
   }"

text \<open>
  \<open>Driver::dropStmt\<close>. Besides the return code and the driver it returns the names the manager
  forgets and, on success, the statement of the list that was erased, whose weights are reset.
\<close>

definition dropStmt ::
  "(bptr \<Rightarrow> string option) \<Rightarrow> (sptr \<Rightarrow> stmt option) \<Rightarrow> stmt \<Rightarrow> driver \<Rightarrow> (int \<times> driver \<times> string list \<times> sptr option) option" where
  "dropStmt bn st s d = do {
     guard (list_all (\<lambda>p. st p \<noteq> None) (dstmts d));
     case find (\<lambda>p. map_option sname (st p) = Some (sname s)) (dstmts d) of
       None \<Rightarrow> Some (FAILURE, d, [], None)
     | Some q \<Rightarrow>
         if stype s = stmt_coll then Some (FAILURE, d, [], None)
         else do {
           bs \<leftarrow> in_bufs s;
           ot \<leftarrow> sout s;
           out \<leftarrow> bn ot;
           r \<leftarrow> drop_ins bn out bs (d, []);
           case r of
             Inl (d, names) \<Rightarrow> Some (FAILURE, d, names, None)
           | Inr dr \<Rightarrow> do {
               (rc, d, names) \<leftarrow> drop_out out dr;
               if rc = SUCCESS
               then Some (SUCCESS, d\<lparr>dstmts := remove1 q (dstmts d), dirty := True\<rparr>, names, Some q)
               else Some (rc, d, names, None)
             }
         }
   }"

definition reset_stmt :: "stmt \<Rightarrow> stmt" where
  "reset_stmt s = s\<lparr>weightSet := False, weight := WEIGHT_MIN, rankSet := False\<rparr>"

text \<open>\<open>Driver::setSink\<close>.\<close>

definition setSink :: "b_entry \<Rightarrow> b_entry" where
  "setSink e =
     (if b_type e = t_normal \<or> b_type e = t_fork
      then e\<lparr>b_type := t_sink, statement := None, inplace := None, forward := ForwardBuf None, action := act_none\<rparr>
      else if b_type e = t_merge \<or> b_type e = t_merge_fork
      then e\<lparr>b_type := t_merge_sink, statement := None, inplace := None, forward := ForwardBuf None, action := act_merge\<rparr>
      else e)"

end
