(* ===== verification/DriverGraph.thy ===== *)
theory DriverGraph
  imports Driver
begin

text \<open>
  The invariant of the state table and that \<open>addStmt\<close> keeps it. The table is seen as a map from
  names to entries. The names of dummy entries are concatenations of two buffer names without a
  separator, so the table is only well-defined when the buffer names \<open>N\<close> in use make these
  concatenations unambiguous (\<open>names_ok\<close>).
\<close>

section \<open>The invariant\<close>

definition names_ok :: "string set \<Rightarrow> bool" where
  "names_ok N \<longleftrightarrow>
     (\<forall>a\<in>N. \<forall>b\<in>N. \<forall>c\<in>N. \<forall>d\<in>N. a @ b = c @ d \<longrightarrow> a = c \<and> b = d) \<and>
     (\<forall>a\<in>N. \<forall>b\<in>N. a @ b \<notin> N)"

lemma names_okD:
  assumes "names_ok N" "a \<in> N" "b \<in> N"
  shows "a @ b \<notin> N" "c \<in> N \<Longrightarrow> d \<in> N \<Longrightarrow> a @ b = c @ d \<longleftrightarrow> a = c \<and> b = d"
  using assms unfolding names_ok_def by blast+

fun act_of :: "buffer_ty \<Rightarrow> d_action" where
  "act_of t_normal = act_cjump"
| "act_of t_source = act_cjump"
| "act_of t_fork = act_cfork"
| "act_of t_source_fork = act_cfork"
| "act_of t_merge = act_merge_jump"
| "act_of t_sink = act_none"
| "act_of t_merge_sink = act_merge"
| "act_of t_merge_fork = act_merge_cfork"
| "act_of t_fork_dummy = act_jump"
| "act_of t_none = act_none"

definition is_sink :: "buffer_ty \<Rightarrow> bool" where
  "is_sink t \<longleftrightarrow> t = t_sink \<or> t = t_merge_sink"

definition is_source :: "buffer_ty \<Rightarrow> bool" where
  "is_source t \<longleftrightarrow> t = t_source \<or> t = t_source_fork"

text \<open>The types of a buffer some statement of the driver writes to.\<close>

definition is_target :: "buffer_ty \<Rightarrow> bool" where
  "is_target t \<longleftrightarrow> \<not> is_source t \<and> t \<noteq> t_fork_dummy \<and> t \<noteq> t_none"

lemmas ty_defs = is_sink_def is_source_def is_target_def is_fork_def is_merge_def

text \<open>An entry whose type, action and union members agree.\<close>

definition entry_ok :: "b_entry \<Rightarrow> bool" where
  "entry_ok e \<longleftrightarrow>
     b_type e \<noteq> t_none \<and> action e = act_of (b_type e) \<and>
     (statement e = None \<longleftrightarrow> is_sink (b_type e)) \<and>
     (inplace e = None \<longleftrightarrow> is_sink (b_type e)) \<and>
     (ebuf e = None \<longleftrightarrow> b_type e = t_fork_dummy) \<and>
     (case forward e of
        ForkCount c \<Rightarrow> is_fork (b_type e)
      | ForwardBuf None \<Rightarrow> is_sink (b_type e)
      | ForwardBuf (Some f) \<Rightarrow> \<not> is_fork (b_type e) \<and> \<not> is_sink (b_type e)) \<and>
     (case bback e of
        UnionStmt _ \<Rightarrow> is_merge (b_type e)
      | Processed _ \<Rightarrow> b_type e = t_fork_dummy
      | BackBuf None \<Rightarrow> is_source (b_type e)
      | BackBuf (Some _) \<Rightarrow> b_type e = t_normal \<or> b_type e = t_fork \<or> b_type e = t_sink)"

text \<open>The keys of the dummy entries of a buffer.\<close>

definition dset :: "(string \<rightharpoonup> b_entry) \<Rightarrow> string \<Rightarrow> string set" where
  "dset m k = {x. \<exists>e. m x = Some e \<and> b_type e = t_fork_dummy \<and> inplace e = Some k}"

definition key_ok :: "string set \<Rightarrow> (bptr \<Rightarrow> string option) \<Rightarrow> (string \<rightharpoonup> b_entry) \<Rightarrow> string \<Rightarrow> b_entry \<Rightarrow> bool" where
  "key_ok N bn m k e \<longleftrightarrow>
     (if b_type e = t_fork_dummy
      then \<exists>i f. k = i @ f \<and> i \<in> N \<and> f \<in> N \<and> inplace e = Some i \<and> forward e = ForwardBuf (Some f) \<and>
             (\<exists>ei. m i = Some ei \<and> is_fork (b_type ei))
      else k \<in> N \<and> (\<exists>b. ebuf e = Some b \<and> bn b = Some k) \<and> inplace e \<in> {None, Some k})"

text \<open>
  The targets of an entry exist, or are the pending output of the statement being added; fork
  counts count the dummies; backtracking leads to an entry.
\<close>

definition links_ok :: "(string \<rightharpoonup> b_entry) \<Rightarrow> string set \<Rightarrow> string \<Rightarrow> b_entry \<Rightarrow> bool" where
  "links_ok m pend k e \<longleftrightarrow>
     (\<forall>f. forward e = ForwardBuf (Some f) \<longrightarrow> inplace e \<noteq> Some f \<and>
        (f \<in> pend \<or> (\<exists>ef. m f = Some ef \<and> is_target (b_type ef)))) \<and>
     (\<forall>c. forward e = ForkCount c \<longrightarrow> c = int (card (dset m k)) \<and> 2 \<le> c) \<and>
     (\<forall>x. bback e = BackBuf (Some x) \<longrightarrow> m x \<noteq> None)"

definition graph_ok ::
  "string set \<Rightarrow> (bptr \<Rightarrow> string option) \<Rightarrow> (string \<rightharpoonup> b_entry) \<Rightarrow> string set \<Rightarrow> bool" where
  "graph_ok N bn m pend \<longleftrightarrow> finite (dom m) \<and>
     (\<forall>k e. m k = Some e \<longrightarrow> entry_ok e \<and> key_ok N bn m k e \<and> links_ok m pend k e)"

lemma graph_okD:
  assumes "graph_ok N bn m pend" "m k = Some e"
  shows "entry_ok e" "key_ok N bn m k e" "links_ok m pend k e"
  using assms by (auto simp: graph_ok_def)

text \<open>A name of a buffer is never the key of a dummy.\<close>

lemma graph_ok_plain:
  assumes "graph_ok N bn m pend" "names_ok N" "m k = Some e" "k \<in> N"
  shows "b_type e \<noteq> t_fork_dummy" "\<exists>b. ebuf e = Some b \<and> bn b = Some k"
proof -
  have key: "key_ok N bn m k e" using assms(1,3) by (rule graph_okD)
  show "b_type e \<noteq> t_fork_dummy"
    using key assms(2,4) names_okD(1) by (auto simp: key_ok_def split: if_splits)
  with key show "\<exists>b. ebuf e = Some b \<and> bn b = Some k" by (simp add: key_ok_def)
qed

lemma dset_finite: "graph_ok N bn m pend \<Longrightarrow> finite (dset m k)"
  by (rule finite_subset [of _ "dom m"]) (auto simp: graph_ok_def dset_def)

lemma dset_upd:
  "dset (m(x \<mapsto> e)) k =
     (if b_type e = t_fork_dummy \<and> inplace e = Some k then insert x (dset m k) else dset m k - {x})"
  by (auto simp: dset_def)

text \<open>An update that keeps a dummy a dummy of the same buffer, or a buffer a buffer, keeps all counts.\<close>

lemma dset_same:
  assumes "m x = Some e0" "b_type e0 \<noteq> t_fork_dummy" "b_type e \<noteq> t_fork_dummy"
  shows "dset (m(x \<mapsto> e)) k = dset m k"
  using assms by (auto simp: dset_def)

lemma dset_new:
  assumes "m x = None" "b_type e \<noteq> t_fork_dummy"
  shows "dset (m(x \<mapsto> e)) k = dset m k"
  using assms by (auto simp: dset_def)

lemma dset_not_fork:
  assumes "graph_ok N bn m pend" "names_ok N" "k \<in> N" "\<And>e. m k = Some e \<Longrightarrow> \<not> is_fork (b_type e)"
  shows "dset m k = {}"
proof -
  have False if "x \<in> dset m k" for x
  proof -
    from that obtain e where e: "m x = Some e" "b_type e = t_fork_dummy" "inplace e = Some k"
      by (auto simp: dset_def)
    have "key_ok N bn m x e" using assms(1) e(1) by (rule graph_okD)
    with e assms(4) show False by (auto simp: key_ok_def)
  qed
  then show ?thesis by blast
qed

section \<open>Updates that keep the invariant\<close>

text \<open>A buffer entry is added or replaced by one that can stand in for it.\<close>

lemma graph_upd_buf:
  assumes ok: "graph_ok N bn m pend"
    and old: "\<And>e0. m x = Some e0 \<Longrightarrow> b_type e0 \<noteq> t_fork_dummy \<and>
                (is_fork (b_type e0) \<longrightarrow> is_fork (b_type e)) \<and> (is_target (b_type e0) \<longrightarrow> is_target (b_type e))"
    and e: "b_type e \<noteq> t_fork_dummy" "entry_ok e" "x \<in> N" "\<exists>b. ebuf e = Some b \<and> bn b = Some x"
      "inplace e \<in> {None, Some x}"
    and l: "links_ok (m(x \<mapsto> e)) pend x e"
  shows "graph_ok N bn (m(x \<mapsto> e)) pend"
proof -
  have ds: "dset (m(x \<mapsto> e)) k = dset m k" for k
    using dset_same [OF _ _ e(1)] dset_new [OF _ e(1)] old by (cases "m x") auto
  have "entry_ok y \<and> key_ok N bn (m(x \<mapsto> e)) k y \<and> links_ok (m(x \<mapsto> e)) pend k y"
    if y: "(m(x \<mapsto> e)) k = Some y" for k y
  proof (cases "k = x")
    case True
    then show ?thesis using y e l by (simp add: key_ok_def)
  next
    case False
    then have k: "m k = Some y" using y by simp
    note D = graph_okD [OF ok k]
    have "key_ok N bn (m(x \<mapsto> e)) k y"
    proof (cases "b_type y = t_fork_dummy")
      case True
      with D(2) obtain i f ei where i: "k = i @ f" "i \<in> N" "f \<in> N" "inplace y = Some i"
        "forward y = ForwardBuf (Some f)" "m i = Some ei" "is_fork (b_type ei)" by (auto simp: key_ok_def)
      then have "\<exists>ei. (m(x \<mapsto> e)) i = Some ei \<and> is_fork (b_type ei)"
        using old by (cases "i = x") auto
      with i True show ?thesis by (auto simp: key_ok_def)
    qed (use D(2) in \<open>simp add: key_ok_def\<close>)
    moreover have "links_ok (m(x \<mapsto> e)) pend k y"
      using D(3) old unfolding links_ok_def ds by auto
    ultimately show ?thesis using D(1) by blast
  qed
  moreover have "finite (dom (m(x \<mapsto> e)))" using ok by (simp add: graph_ok_def)
  ultimately show ?thesis unfolding graph_ok_def by blast
qed

text \<open>A buffer is a fork with new dummies, one for each target in \<open>F\<close>.\<close>

definition with_dummies ::
  "(string \<rightharpoonup> b_entry) \<Rightarrow> string \<Rightarrow> b_entry \<Rightarrow> string set \<Rightarrow> (string \<Rightarrow> b_entry) \<Rightarrow> (string \<rightharpoonup> b_entry)" where
  "with_dummies m nm e F dm =
     (\<lambda>k. if k = nm then Some e else if k \<in> (\<lambda>f. nm @ f) ` F then Some (dm (drop (length nm) k)) else m k)"

lemma dset_with_dummies:
  assumes "\<And>f. f \<in> F \<Longrightarrow> m (nm @ f) = None" "b_type e \<noteq> t_fork_dummy"
    "\<And>e0. m nm = Some e0 \<Longrightarrow> b_type e0 \<noteq> t_fork_dummy" "[] \<notin> F"
    "\<And>f. f \<in> F \<Longrightarrow> b_type (dm f) = t_fork_dummy \<and> inplace (dm f) = Some nm"
  shows "dset (with_dummies m nm e F dm) k = (if k = nm then dset m k \<union> (\<lambda>f. nm @ f) ` F else dset m k)"
proof -
  have "x \<in> dset (with_dummies m nm e F dm) k \<longleftrightarrow>
      x \<in> (if k = nm then dset m k \<union> (\<lambda>f. nm @ f) ` F else dset m k)" for x
  proof (cases "x \<in> (\<lambda>f. nm @ f) ` F")
    case True
    then obtain f where f: "x = nm @ f" "f \<in> F" by blast
    then show ?thesis using assms by (auto simp: dset_def with_dummies_def)
  next
    case False
    then show ?thesis using assms(2,3) by (auto simp: dset_def with_dummies_def)
  qed
  then show ?thesis by blast
qed

lemma graph_with_dummies:
  assumes ok: "graph_ok N bn m pend" and nm: "nm \<in> N" "m nm = Some e0" "b_type e0 \<noteq> t_fork_dummy"
    and F: "finite F" "F \<subseteq> N" "nm \<notin> F" "[] \<notin> N" "\<And>f. f \<in> F \<Longrightarrow> m (nm @ f) = None"
      "\<And>f. f \<in> F \<Longrightarrow> f \<in> pend \<or> (\<exists>ef. m f = Some ef \<and> is_target (b_type ef))"
    and e: "is_fork (b_type e)" "entry_ok e" "ebuf e = ebuf e0" "inplace e = Some nm" "bback e = bback e0"
      "is_target (b_type e0) \<longrightarrow> is_target (b_type e)"
      "forward e = ForkCount (int (card (dset m nm) + card F))" "2 \<le> card (dset m nm) + card F"
    and dm: "\<And>f. f \<in> F \<Longrightarrow> entry_ok (dm f) \<and> b_type (dm f) = t_fork_dummy \<and> inplace (dm f) = Some nm \<and>
                forward (dm f) = ForwardBuf (Some f)"
  shows "graph_ok N bn (with_dummies m nm e F dm) pend"
proof -
  let ?m = "with_dummies m nm e F dm"
  have nd: "b_type e \<noteq> t_fork_dummy" using e(1) by (auto simp: is_fork_def)
  have ds: "dset ?m k = (if k = nm then dset m k \<union> (\<lambda>f. nm @ f) ` F else dset m k)" for k
    by (rule dset_with_dummies) (use F nm nd dm in auto)
  have dj: "dset m nm \<inter> (\<lambda>f. nm @ f) ` F = {}" using F(5) by (auto simp: dset_def)
  have cd: "card (dset ?m nm) = card (dset m nm) + card F"
    unfolding ds using dj dset_finite [OF ok] F(1) by (simp add: card_Un_disjoint card_image inj_on_def)
  have tgt: "\<exists>ef. ?m f = Some ef \<and> is_target (b_type ef)" if "m f = Some ef" "is_target (b_type ef)" for f ef
    using that e(6) nm(2) F(5) by (auto simp: with_dummies_def)
  have fork: "\<exists>ei. ?m i = Some ei \<and> is_fork (b_type ei)" if "m i = Some ei" "is_fork (b_type ei)" for i ei
    using that e(1) F(5) by (auto simp: with_dummies_def)
  have some: "m k \<noteq> None \<Longrightarrow> ?m k \<noteq> None" for k by (auto simp: with_dummies_def)
  have links: "links_ok ?m pend k y" if "links_ok m pend k y" "k \<noteq> nm" for k y
    using that tgt some unfolding links_ok_def ds by fastforce
  have "entry_ok y \<and> key_ok N bn ?m k y \<and> links_ok ?m pend k y" if y: "?m k = Some y" for k y
  proof -
    consider "k = nm" "y = e" | f where "k = nm @ f" "f \<in> F" "y = dm f" | "k \<noteq> nm" "m k = Some y"
      using y by (auto simp: with_dummies_def split: if_splits)
    then show ?thesis
    proof cases
      case 1
      have "key_ok N bn m nm e0" "links_ok m pend nm e0" using graph_okD [OF ok nm(2)] by auto
      then show ?thesis using 1 e nd nm(1,3) cd some by (auto simp: key_ok_def links_ok_def)
    next
      case 2
      have "?m nm = Some e" by (simp add: with_dummies_def)
      then have "key_ok N bn ?m k y" using 2 dm [of f] F(2) nm(1) e(1) by (auto simp: key_ok_def)
      moreover have "bback y \<noteq> BackBuf (Some x)" for x
        using 2 dm [of f] by (auto simp: entry_ok_def)
      ultimately show ?thesis using 2 dm [of f] F(3,6) tgt by (fastforce simp: links_ok_def)
    next
      case 3
      note D = graph_okD [OF ok 3(2)]
      have "key_ok N bn ?m k y" using D(2) fork unfolding key_ok_def by (auto split: if_splits)
      then show ?thesis using D(1) links [OF D(3) 3(1)] by blast
    qed
  qed
  moreover have "dom ?m \<subseteq> insert nm (dom m \<union> (\<lambda>f. nm @ f) ` F)" by (auto simp: with_dummies_def split: if_splits)
  then have "finite (dom ?m)" using ok F(1) by (auto simp: graph_ok_def intro: finite_subset)
  ultimately show ?thesis unfolding graph_ok_def by blast
qed

section \<open>The steps of addStmt\<close>

text \<open>
  The invariant while the inputs of a statement with output \<open>out\<close> are added: \<open>out\<close> is new or a
  source, and only the inputs already done lead to it.
\<close>

definition adding :: "string set \<Rightarrow> (bptr \<Rightarrow> string option) \<Rightarrow> string \<Rightarrow> string set \<Rightarrow> (string \<rightharpoonup> b_entry) \<Rightarrow> bool" where
  "adding N bn out done m \<longleftrightarrow>
     graph_ok N bn m {out} \<and> (\<forall>oe. m out = Some oe \<longrightarrow> is_source (b_type oe)) \<and>
     (\<forall>k e. m k = Some e \<and> forward e = ForwardBuf (Some out) \<longrightarrow> inplace e \<in> Some ` done)"

lemma map_put_entry [simp]:
  "map_of (tbl (put_entry k e d)) = (map_of (tbl d))(k \<mapsto> e)"
  "distinct (map fst (tbl d)) \<Longrightarrow> distinct (map fst (tbl (put_entry k e d)))"
  "dstmts (put_entry k e d) = dstmts d"
  by (simp_all add: put_entry_def)

lemma push_buf_sel [simp]: "tbl (push_buf b d) = tbl d" "dstmts (push_buf b d) = dstmts d"
  by (simp_all add: push_buf_def)

lemma names_Nil: "names_ok N \<Longrightarrow> [] \<notin> N"
  unfolding names_ok_def by force

lemma no_dummy_key:
  assumes ok: "graph_ok N bn m pend" and N: "names_ok N" "nm \<in> N" "f \<in> N"
    and no: "\<And>e. m (nm @ f) = Some e \<Longrightarrow> inplace e = Some nm \<Longrightarrow> forward e = ForwardBuf (Some f) \<Longrightarrow>
               (\<exists>ei. m nm = Some ei \<and> is_fork (b_type ei)) \<Longrightarrow> False"
  shows "m (nm @ f) = None"
proof (rule ccontr)
  assume "m (nm @ f) \<noteq> None"
  then obtain e where e: "m (nm @ f) = Some e" by auto
  have key: "key_ok N bn m (nm @ f) e" using ok e by (rule graph_okD)
  show False
  proof (cases "b_type e = t_fork_dummy")
    case True
    with key obtain i f' where "nm @ f = i @ f'" "i \<in> N" "f' \<in> N" "inplace e = Some i"
      "forward e = ForwardBuf (Some f')" "\<exists>ei. m i = Some ei \<and> is_fork (b_type ei)"
      by (auto simp: key_ok_def)
    with names_okD(2) [OF N] no [OF e] show False by auto
  next
    case False
    with key names_okD(1) [OF N] show False by (simp add: key_ok_def)
  qed
qed

lemma add_source_adding:
  assumes J: "adding N bn out done m" and n: "m nm = None" "nm \<in> N" "nm \<noteq> out" "bn b = Some nm"
  shows "adding N bn out (insert nm done) (m(nm \<mapsto> source_entry p b nm out))"
proof -
  have "graph_ok N bn (m(nm \<mapsto> source_entry p b nm out)) {out}"
    using J n by (intro graph_upd_buf) (auto simp: adding_def source_entry_def entry_ok_def links_ok_def ty_defs)
  then show ?thesis using J n by (auto simp: adding_def source_entry_def)
qed

lemma extend_sink_adding:
  assumes J: "adding N bn out done m" and N: "names_ok N" and n: "m nm = Some e" "nm \<in> N" "nm \<noteq> out"
    and e: "b_type e = t_sink \<or> b_type e = t_merge_sink"
    and e': "e' = e\<lparr>statement := Some p, b_type := (if b_type e = t_sink then t_normal else t_merge),
          action := (if b_type e = t_sink then act_cjump else act_merge_jump),
          inplace := Some nm, forward := ForwardBuf (Some out)\<rparr>"
  shows "adding N bn out (insert nm done) (m(nm \<mapsto> e'))"
proof -
  have ok: "graph_ok N bn m {out}" using J by (simp add: adding_def)
  note D = graph_okD [OF ok n(1)]
  have "entry_ok e'" using D(1) e unfolding e' entry_ok_def
    by (auto simp: ty_defs split: fw_entry.splits bk_entry.splits option.splits)
  moreover have "links_ok (m(nm \<mapsto> e')) {out} nm e'"
    using D(3) n(3) by (auto simp: links_ok_def e')
  ultimately have "graph_ok N bn (m(nm \<mapsto> e')) {out}"
    using ok n e graph_ok_plain(2) [OF ok N n(1,2)]
    by (intro graph_upd_buf) (auto simp: e' ty_defs)
  then show ?thesis using J n by (auto simp: adding_def e')
qed

lemma grow_fork_adding:
  assumes J: "adding N bn out done m" and N: "names_ok N"
    and n: "m nm = Some e" "nm \<in> N" "nm \<noteq> out" "nm \<notin> done" "out \<in> N"
    and e: "is_fork (b_type e)" "forward e = ForkCount c"
  shows "adding N bn out (insert nm done)
     (m(nm \<mapsto> e\<lparr>forward := ForkCount (c + 1)\<rparr>, nm @ out \<mapsto> dummy_entry (Some p) nm out))"
    and "m (nm @ out) = None"
proof -
  have ok: "graph_ok N bn m {out}" using J by (simp add: adding_def)
  note D = graph_okD [OF ok n(1)]
  show free: "m (nm @ out) = None"
  proof (rule no_dummy_key [OF ok N n(2,5)])
    fix x assume "m (nm @ out) = Some x" "inplace x = Some nm" "forward x = ForwardBuf (Some out)"
    with J have "inplace x \<in> Some ` done" unfolding adding_def by blast
    with n(4) \<open>inplace x = Some nm\<close> show False by auto
  qed
  let ?e = "e\<lparr>forward := ForkCount (c + 1)\<rparr>" and ?d = "dummy_entry (Some p) nm out"
  have c: "c = int (card (dset m nm))" "2 \<le> c" using D(3) e by (auto simp: links_ok_def)
  have ip: "inplace e = Some nm" using D(1,2) e(1) by (auto simp: entry_ok_def key_ok_def ty_defs split: if_splits)
  have "graph_ok N bn (with_dummies m nm ?e {out} (\<lambda>_. ?d)) {out}"
  proof (rule graph_with_dummies [OF ok n(2,1)])
    show "entry_ok ?e" using D(1) e by (auto simp: entry_ok_def split: bk_entry.splits option.splits)
  qed (use e c ip n free names_Nil [OF N] in \<open>auto simp: ty_defs dummy_entry_def entry_ok_def\<close>)
  moreover have "with_dummies m nm ?e {out} (\<lambda>_. ?d) = m(nm \<mapsto> ?e, nm @ out \<mapsto> ?d)"
    using names_Nil [OF N] n(5) by (auto simp: with_dummies_def fun_eq_iff)
  ultimately have "graph_ok N bn (m(nm \<mapsto> ?e, nm @ out \<mapsto> ?d)) {out}" by simp
  moreover have "nm @ out \<noteq> out" "nm @ out \<noteq> nm" using names_okD(1) [OF N n(2,5)] n(2,5) by auto
  ultimately show "adding N bn out (insert nm done) (m(nm \<mapsto> ?e, nm @ out \<mapsto> ?d))"
    using J n by (auto simp: adding_def dummy_entry_def)
qed

text \<open>A buffer with one reader becomes a fork.\<close>

lemma make_fork_target:
  assumes J: "adding N bn out done m" and N: "names_ok N"
    and n: "m nm = Some e" "nm \<in> N" "nm \<notin> done"
    and e: "forward e = ForwardBuf (Some old)" "b_type e \<noteq> t_fork_dummy"
  shows "inplace e = Some nm" "old \<noteq> nm" "old \<noteq> out" "old \<in> N" "\<exists>oe. m old = Some oe \<and> is_target (b_type oe)"
proof -
  have ok: "graph_ok N bn m {out}" using J by (simp add: adding_def)
  note D = graph_okD [OF ok n(1)]
  show ip: "inplace e = Some nm"
    using D(1,2) e by (auto simp: entry_ok_def key_ok_def split: if_splits)
  show "old \<noteq> nm" using D(3) e(1) ip by (auto simp: links_ok_def)
  show no: "old \<noteq> out"
  proof
    assume "old = out"
    with J n(1) e(1) have "inplace e \<in> Some ` done" unfolding adding_def by blast
    with n(3) ip show False by auto
  qed
  then obtain oe where oe: "m old = Some oe" "is_target (b_type oe)"
    using D(3) e(1) by (auto simp: links_ok_def)
  then show "\<exists>oe. m old = Some oe \<and> is_target (b_type oe)" by blast
  have "key_ok N bn m old oe" using ok oe(1) by (rule graph_okD)
  then show "old \<in> N" using oe(2) by (auto simp: key_ok_def ty_defs)
qed

lemma make_fork_dummies:
  assumes J: "adding N bn out done m" and N: "names_ok N"
    and n: "m nm = Some e" "nm \<in> N" "nm \<noteq> out" "nm \<notin> done" "out \<in> N"
    and e: "b_type e = t_source \<or> b_type e = t_normal \<or> b_type e = t_merge"
      "forward e = ForwardBuf (Some old)"
    and e': "e' = e\<lparr>b_type := fork_ty_of (b_type e), action := fork_act_of (b_type e), forward := ForkCount 2\<rparr>"
    and dm: "dm = (\<lambda>f. if f = old then dummy_entry (statement e) nm old else dummy_entry (Some p) nm out)"
  shows "graph_ok N bn (with_dummies m nm e' {old, out} dm) {out}"
proof -
  have ok: "graph_ok N bn m {out}" using J by (simp add: adding_def)
  have nd: "b_type e \<noteq> t_fork_dummy" "\<not> is_fork (b_type e)" using e(1) by (auto simp: ty_defs)
  note D = graph_okD [OF ok n(1)]
  note T = make_fork_target [OF J N n(1,2,4) e(2) nd(1)]
  have ds: "dset m nm = {}" by (rule dset_not_fork [OF ok N n(2)]) (use n(1) nd in auto)
  have free: "m (nm @ f) = None" if "f \<in> {old, out}" for f
    by (rule no_dummy_key [OF ok N n(2)]) (use that T(4) n nd in auto)
  have st: "statement e \<noteq> None" using D(1) e(1) by (auto simp: entry_ok_def ty_defs)
  have ek: "entry_ok e'" using D(1) e unfolding e' entry_ok_def fork_ty_of_def fork_act_of_def
    by (auto simp: ty_defs split: bk_entry.splits option.splits)
  show ?thesis
  proof (rule graph_with_dummies [OF ok n(2,1)])
    show "entry_ok e'" by (rule ek)
    show "is_target (b_type e) \<longrightarrow> is_target (b_type e')" using e(1) by (auto simp: e' ty_defs fork_ty_of_def)
    show "entry_ok (dm f) \<and> b_type (dm f) = t_fork_dummy \<and> inplace (dm f) = Some nm \<and>
        forward (dm f) = ForwardBuf (Some f)" if "f \<in> {old, out}" for f
      using that st T(3) by (auto simp: dm dummy_entry_def entry_ok_def ty_defs)
  qed (use e ds free names_Nil [OF N] T n nd in \<open>auto simp: e' fork_ty_of_def is_fork_def\<close>)
qed

text \<open>The entry a buffer backtracks to may be changed to another existing one.\<close>

lemma graph_set_back:
  assumes ok: "graph_ok N bn m pend" and N: "names_ok N" and k: "m k = Some e" "k \<in> N"
    and t: "\<not> is_merge (b_type e)" "is_target (b_type e)" and x: "m x \<noteq> None" "x \<noteq> k"
  shows "graph_ok N bn (m(k \<mapsto> e\<lparr>bback := BackBuf (Some x)\<rparr>)) pend"
proof -
  let ?e = "e\<lparr>bback := BackBuf (Some x)\<rparr>"
  note D = graph_okD [OF ok k(1)]
  have nd: "b_type e \<noteq> t_fork_dummy" using t(2) by (auto simp: ty_defs)
  have "entry_ok ?e" using D(1) t
    by (cases "b_type e") (auto simp: entry_ok_def ty_defs split: fw_entry.splits bk_entry.splits option.splits)
  moreover have "dset (m(k \<mapsto> ?e)) k = dset m k"
    by (rule dset_same [where m = m and x = k, OF k(1)]) (use nd in auto)
  then have "links_ok (m(k \<mapsto> ?e)) pend k ?e"
    using D(3) t x unfolding links_ok_def by auto
  ultimately show ?thesis
    using ok k t nd graph_ok_plain(2) [OF ok N k] D(2)
    by (intro graph_upd_buf) (auto simp: key_ok_def)
qed

lemma adding_upd_same:
  assumes "adding N bn out done m" "m k = Some e" "graph_ok N bn (m(k \<mapsto> e')) {out}"
    "b_type e' = b_type e" "inplace e' = inplace e" "forward e' = forward e"
  shows "adding N bn out done (m(k \<mapsto> e'))"
proof -
  have "inplace y \<in> Some ` done" if "(m(k \<mapsto> e')) x = Some y" "forward y = ForwardBuf (Some out)" for x y
    using assms that unfolding adding_def by (cases "x = k") auto
  moreover have "\<forall>oe. (m(k \<mapsto> e')) out = Some oe \<longrightarrow> is_source (b_type oe)"
    using assms unfolding adding_def by auto
  ultimately show ?thesis using assms(3) unfolding adding_def by blast
qed

lemma make_fork_adding:
  assumes J: "adding N bn out done m" and N: "names_ok N"
    and n: "m nm = Some e" "nm \<in> N" "nm \<noteq> out" "nm \<notin> done" "out \<in> N"
    and e: "b_type e = t_source \<or> b_type e = t_normal \<or> b_type e = t_merge"
      "forward e = ForwardBuf (Some old)"
    and e': "e' = e\<lparr>b_type := fork_ty_of (b_type e), action := fork_act_of (b_type e), forward := ForkCount 2\<rparr>"
    and oe: "m old = Some oe"
    and m': "m' = (if is_merge (b_type oe) then m(nm \<mapsto> e', nm @ old \<mapsto> dummy_entry (statement e) nm old)
      else m(nm \<mapsto> e', nm @ old \<mapsto> dummy_entry (statement e) nm old, old \<mapsto> oe\<lparr>bback := BackBuf (Some (nm @ old))\<rparr>))"
  shows "adding N bn out (insert nm done) (m'(nm @ out \<mapsto> dummy_entry (Some p) nm out))"
proof -
  have ok: "graph_ok N bn m {out}" using J by (simp add: adding_def)
  have nd: "b_type e \<noteq> t_fork_dummy" using e(1) by auto
  note T = make_fork_target [OF J N n(1,2,4) e(2) nd]
  have tg: "is_target (b_type oe)" using T(5) oe by auto
  have ne: "nm @ old \<noteq> nm @ out" "nm @ old \<notin> N" "nm @ out \<notin> N"
    using T(3,4) n(2,5) names_okD(1) [OF N] by auto
  then have ne': "nm @ old \<noteq> nm" "nm @ old \<noteq> old" "nm @ old \<noteq> out" "nm @ out \<noteq> nm" "nm @ out \<noteq> old" "nm @ out \<noteq> out"
    using n T(4) by auto
  define dm where "dm = (\<lambda>f. if f = old then dummy_entry (statement e) nm old else dummy_entry (Some p) nm out)"
  let ?w = "m(nm \<mapsto> e', nm @ old \<mapsto> dummy_entry (statement e) nm old, nm @ out \<mapsto> dummy_entry (Some p) nm out)"
  have w: "with_dummies m nm e' {old, out} dm = ?w"
    using ne' T(3) by (auto simp: with_dummies_def dm_def fun_eq_iff)
  have W: "graph_ok N bn ?w {out}"
    using make_fork_dummies [OF J N n e e' dm_def] by (simp add: w)
  have adj: "adding N bn out (insert nm done) ?w"
    using W J n ne' T(3) by (auto simp: adding_def dummy_entry_def e')
  show ?thesis
  proof (cases "is_merge (b_type oe)")
    case True
    then show ?thesis using adj by (simp add: m')
  next
    case False
    let ?oe = "oe\<lparr>bback := BackBuf (Some (nm @ old))\<rparr>"
    have wold: "?w old = Some oe" using oe ne' T(2) by auto
    have "graph_ok N bn (?w(old \<mapsto> ?oe)) {out}"
      by (rule graph_set_back [OF W N wold T(4) False tg]) (use ne' in auto)
    then have "adding N bn out (insert nm done) (?w(old \<mapsto> ?oe))"
      by (rule adding_upd_same [OF adj wold]) simp_all
    moreover have "m'(nm @ out \<mapsto> dummy_entry (Some p) nm out) = ?w(old \<mapsto> ?oe)"
      using False ne' by (auto simp: m' fun_eq_iff)
    ultimately show ?thesis by simp
  qed
qed

section \<open>The edges of the graph\<close>

text \<open>
  What the table stands for: a set of edges, one for each buffer, statement that reads it and
  buffer the statement writes to.
\<close>

definition edge_of :: "b_entry \<Rightarrow> (string \<times> sptr \<times> string) set" where
  "edge_of e =
     (case (inplace e, statement e, forward e) of
        (Some i, Some p, ForwardBuf (Some f)) \<Rightarrow> {(i, p, f)}
      | _ \<Rightarrow> {})"

lemma edge_of_cong:
  "inplace e = inplace e' \<Longrightarrow> statement e = statement e' \<Longrightarrow> forward e = forward e' \<Longrightarrow> edge_of e = edge_of e'"
  by (simp only: edge_of_def)

definition edges :: "(string \<rightharpoonup> b_entry) \<Rightarrow> (string \<times> sptr \<times> string) set" where
  "edges m = (\<Union>e\<in>ran m. edge_of e)"

lemma in_edges: "x \<in> edges m \<longleftrightarrow> (\<exists>k e. m k = Some e \<and> x \<in> edge_of e)"
  by (auto simp: edges_def ran_def)

lemma edges_upd_same: "m k = Some e0 \<Longrightarrow> edge_of e = edge_of e0 \<Longrightarrow> edges (m(k \<mapsto> e)) = edges m"
  unfolding set_eq_iff in_edges by (metis fun_upd_apply option.inject)

lemma edges_upd_new:
  assumes "\<And>e0. m k = Some e0 \<Longrightarrow> edge_of e0 = {}"
  shows "edges (m(k \<mapsto> e)) = edges m \<union> edge_of e"
proof -
  have "x \<in> edges (m(k \<mapsto> e)) \<longleftrightarrow> x \<in> edges m \<union> edge_of e" for x
    using assms unfolding in_edges Un_iff by (metis empty_iff fun_upd_apply option.inject)
  then show ?thesis by blast
qed

lemma edges_move:
  assumes "m k = Some e" "edge_of e' = {}" "m k' = None" "edge_of d = edge_of e"
  shows "edges (m(k \<mapsto> e', k' \<mapsto> d)) = edges m"
proof -
  have "k \<noteq> k'" using assms by auto
  then have "x \<in> edges (m(k \<mapsto> e', k' \<mapsto> d)) \<longleftrightarrow> x \<in> edges m" for x
    using assms unfolding in_edges by (metis empty_iff fun_upd_apply option.distinct(1) option.inject)
  then show ?thesis by blast
qed

lemma edges_make_fork:
  assumes "m nm = Some e" "forward e = ForwardBuf (Some old)" "inplace e = Some nm" "nm @ old \<noteq> nm" "nm @ out \<noteq> nm"
    and "m (nm @ old) = None" "m (nm @ out) = None" "old \<noteq> out" "m old = Some oe" "old \<noteq> nm"
    and "edge_of e' = {}"
    and m': "m' = (if is_merge (b_type oe) then m(nm \<mapsto> e', nm @ old \<mapsto> dummy_entry (statement e) nm old)
      else m(nm \<mapsto> e', nm @ old \<mapsto> dummy_entry (statement e) nm old, old \<mapsto> oe\<lparr>bback := BackBuf (Some (nm @ old))\<rparr>))"
  shows "edges (m'(nm @ out \<mapsto> dummy_entry (Some p) nm out)) = edges m \<union> {(nm, p, out)}"
proof -
  let ?m = "m(nm \<mapsto> e', nm @ old \<mapsto> dummy_entry (statement e) nm old)"
  have "edge_of (dummy_entry (statement e) nm old) = edge_of e"
    using assms(2,3) by (cases "statement e") (simp_all add: edge_of_def dummy_entry_def)
  then have 1: "edges ?m = edges m"
    by (rule edges_move [OF assms(1,11,6)])
  have "?m old = Some oe" using assms by auto
  then have 2: "edges (?m(old \<mapsto> oe\<lparr>bback := BackBuf (Some (nm @ old))\<rparr>)) = edges ?m"
    by (rule edges_upd_same) (simp add: edge_of_def)
  have "edges m' = edges m" using 1 2 by (simp add: m')
  moreover have "m' (nm @ out) = None" using assms by (auto simp: m')
  ultimately show ?thesis by (subst edges_upd_new) (auto simp: edge_of_def dummy_entry_def)
qed

section \<open>The input loop\<close>

text \<open>The entry the output backtracks to after the input \<open>nm\<close>.\<close>

definition back_ok :: "(string \<rightharpoonup> b_entry) \<Rightarrow> string \<Rightarrow> string \<Rightarrow> buffer_ty \<Rightarrow> string option \<Rightarrow> bool" where
  "back_ok m out nm ty du \<longleftrightarrow> m nm \<noteq> None \<and> (is_fork ty \<longrightarrow> du = Some (nm @ out) \<and> m (nm @ out) \<noteq> None)"

text \<open>One step of the loop, as the caller sees it.\<close>

definition add_step ::
  "string set \<Rightarrow> (bptr \<Rightarrow> string option) \<Rightarrow> sptr \<Rightarrow> string \<Rightarrow> string set \<Rightarrow> string \<Rightarrow> driver \<Rightarrow> driver \<Rightarrow> bool" where
  "add_step N bn p out done nm d d' \<longleftrightarrow>
     adding N bn out (insert nm done) (map_of (tbl d')) \<and>
     edges (map_of (tbl d')) = edges (map_of (tbl d)) \<union> {(nm, p, out)} \<and>
     (distinct (map fst (tbl d)) \<longrightarrow> distinct (map fst (tbl d'))) \<and> dstmts d' = dstmts d \<and>
     (\<forall>k\<in>N - {nm}. map_option b_type (map_of (tbl d') k) = map_option b_type (map_of (tbl d) k))"

lemma make_fork_step:
  assumes J: "adding N bn out done (map_of (tbl d))" and N: "names_ok N"
    and n: "map_of (tbl d) nm = Some e" "nm \<in> N" "nm \<noteq> out" "nm \<notin> done" "out \<in> N"
    and e: "b_type e = t_source \<or> b_type e = t_normal \<or> b_type e = t_merge"
  shows "\<exists>d'. make_fork p nm out e d = Some d' \<and> add_step N bn p out done nm d d' \<and>
    back_ok (map_of (tbl d')) out nm (fork_ty_of (b_type e)) (Some (nm @ out))"
proof -
  let ?m = "map_of (tbl d)"
  have ok: "graph_ok N bn ?m {out}" using J by (simp add: adding_def)
  have nd: "b_type e \<noteq> t_fork_dummy" "\<not> is_fork (b_type e)" using e by (auto simp: ty_defs)
  have "\<exists>f. forward e = ForwardBuf (Some f)" using graph_okD(1) [OF ok n(1)] e
    by (auto simp: entry_ok_def ty_defs split: fw_entry.splits option.splits)
  then obtain old where old: "forward e = ForwardBuf (Some old)" by blast
  note T = make_fork_target [OF J N n(1,2,4) old nd(1)]
  obtain oe where oe: "?m old = Some oe" using T(5) by blast
  have free: "?m (nm @ f) = None" if "f \<in> N" for f
    by (rule no_dummy_key [OF ok N n(2) that]) (use n(1) nd in auto)
  have ne: "nm @ f \<notin> N" if "f \<in> N" for f using names_okD(1) [OF N n(2) that] .
  define e' where "e' = e\<lparr>b_type := fork_ty_of (b_type e), action := fork_act_of (b_type e), forward := ForkCount 2\<rparr>"
  define m' where "m' = (if is_merge (b_type oe) then ?m(nm \<mapsto> e', nm @ old \<mapsto> dummy_entry (statement e) nm old)
      else ?m(nm \<mapsto> e', nm @ old \<mapsto> dummy_entry (statement e) nm old, old \<mapsto> oe\<lparr>bback := BackBuf (Some (nm @ old))\<rparr>))"
  have neq: "nm @ old \<noteq> nm" "nm @ out \<noteq> nm" "old \<noteq> nm @ old" using ne [OF T(4)] ne [OF n(5)] n(2) T(4) by auto
  obtain d' where d': "make_fork p nm out e d = Some d'" "map_of (tbl d') = m'(nm @ out \<mapsto> dummy_entry (Some p) nm out)"
      "distinct (map fst (tbl d)) \<longrightarrow> distinct (map fst (tbl d'))" "dstmts d' = dstmts d"
    using oe T(2) neq by (cases "is_merge (b_type oe)") (auto simp: make_fork_def old m'_def e'_def Let_def)
  have "adding N bn out (insert nm done) (m'(nm @ out \<mapsto> dummy_entry (Some p) nm out))"
    by (rule make_fork_adding [OF J N n e old e'_def oe m'_def])
  moreover have "edges (m'(nm @ out \<mapsto> dummy_entry (Some p) nm out)) = edges ?m \<union> {(nm, p, out)}"
    by (rule edges_make_fork [OF n(1) old T(1) neq(1,2) free free T(3) oe T(2) _ m'_def])
      (use T(4) n(5) in \<open>auto simp: edge_of_def e'_def split: option.splits\<close>)
  moreover have "map_option b_type ((m'(nm @ out \<mapsto> dummy_entry (Some p) nm out)) k) = map_option b_type (?m k)"
    if "k \<in> N - {nm}" for k
    using that ne [OF T(4)] ne [OF n(5)] oe by (auto simp: m'_def)
  moreover have "m' nm \<noteq> None" using neq T(2) by (simp add: m'_def)
  ultimately show ?thesis using d' by (auto simp: add_step_def back_ok_def)
qed

lemma grow_fork_step:
  assumes J: "adding N bn out done (map_of (tbl d))" and N: "names_ok N"
    and n: "map_of (tbl d) nm = Some e" "nm \<in> N" "nm \<noteq> out" "nm \<notin> done" "out \<in> N"
    and e: "is_fork (b_type e)"
  shows "\<exists>d'. grow_fork p nm out e d = Some d' \<and> add_step N bn p out done nm d d' \<and>
    back_ok (map_of (tbl d')) out nm (b_type e) (Some (nm @ out))"
proof -
  let ?m = "map_of (tbl d)"
  have ok: "graph_ok N bn ?m {out}" using J by (simp add: adding_def)
  have "\<exists>c. forward e = ForkCount c" using graph_okD(1) [OF ok n(1)] e
    by (auto simp: entry_ok_def ty_defs split: fw_entry.splits option.splits)
  then obtain c where c: "forward e = ForkCount c" by blast
  let ?e = "e\<lparr>forward := ForkCount (c + 1)\<rparr>" and ?d = "dummy_entry (Some p) nm out"
  note G = grow_fork_adding(1) [OF J N n e c, of p] grow_fork_adding(2) [OF J N n e c]
  have ne: "nm @ out \<notin> N" using names_okD(1) [OF N n(2,5)] .
  with n(2) have "nm @ out \<noteq> nm" by metis
  with G(2) have free: "(?m(nm \<mapsto> ?e)) (nm @ out) = None" by simp
  have "edges (?m(nm \<mapsto> ?e)) = edges ?m"
    using n(1) by (rule edges_upd_same) (simp add: edge_of_def c split: option.splits)
  then have "edges (?m(nm \<mapsto> ?e, nm @ out \<mapsto> ?d)) = edges ?m \<union> {(nm, p, out)}"
    using edges_upd_new [of "?m(nm \<mapsto> ?e)" "nm @ out" ?d] free by (simp add: edge_of_def dummy_entry_def)
  then show ?thesis using G(1) ne by (auto simp: grow_fork_def c add_step_def back_ok_def)
qed

lemma new_source_step:
  assumes J: "adding N bn out done (map_of (tbl d))"
    and n: "map_of (tbl d) nm = None" "nm \<in> N" "nm \<noteq> out" "bn b = Some nm"
  shows "\<exists>d'. add_source bn p out push b d = Some d' \<and> add_step N bn p out done nm d d' \<and>
    back_ok (map_of (tbl d')) out nm t_source du"
proof -
  let ?m = "map_of (tbl d)"
  have "edges (?m(nm \<mapsto> source_entry p b nm out)) = edges ?m \<union> {(nm, p, out)}"
    using n(1) by (subst edges_upd_new) (auto simp: edge_of_def source_entry_def)
  then show ?thesis using add_source_adding [OF J n, of p] n
    by (cases push) (auto simp: add_source_def add_step_def back_ok_def ty_defs Let_def)
qed

lemma extend_sink_step:
  assumes J: "adding N bn out done (map_of (tbl d))" and N: "names_ok N"
    and n: "map_of (tbl d) nm = Some e" "nm \<in> N" "nm \<noteq> out"
    and e: "b_type e = t_sink \<or> b_type e = t_merge_sink"
  shows "add_step N bn p out done nm d (extend_sink p nm out e d) \<and>
    back_ok (map_of (tbl (extend_sink p nm out e d))) out nm (if b_type e = t_sink then t_normal else t_merge) du"
proof -
  let ?m = "map_of (tbl d)"
  have "graph_ok N bn ?m {out}" using J by (simp add: adding_def)
  then have "edge_of e = {}" using graph_okD(1) n(1) e
    by (fastforce simp: edge_of_def entry_ok_def ty_defs)
  then have "edges (?m(nm \<mapsto> e')) = edges ?m \<union> edge_of e'" for e'
    using n(1) by (intro edges_upd_new) auto
  then have "edges (map_of (tbl (extend_sink p nm out e d))) = edges ?m \<union> {(nm, p, out)}"
    by (simp add: extend_sink_def) (simp add: edge_of_def)
  then show ?thesis using extend_sink_adding [OF J N n e refl, of p]
    by (auto simp: extend_sink_def add_step_def back_ok_def ty_defs)
qed

text \<open>What \<open>add_in\<close> needs of one input: a join refuses a window buffer with a single reader.\<close>

definition in_ok :: "(string \<rightharpoonup> b_entry) \<Rightarrow> stmt \<Rightarrow> bptr \<Rightarrow> string \<Rightarrow> bool" where
  "in_ok m s b nm \<longleftrightarrow> stype s = stmt_join \<and> Some b \<noteq> sin s \<longrightarrow>
     map_option b_type (m nm) \<notin> {Some t_source, Some t_normal, Some t_merge}"

lemma add_in_step:
  assumes J: "adding N bn out done (map_of (tbl d))" and N: "names_ok N"
    and n: "bn b = Some nm" "nm \<in> N" "nm \<noteq> out" "nm \<notin> done" "out \<in> N"
    and w: "in_ok (map_of (tbl d)) s b nm"
  shows "\<exists>d' ty du. add_in bn p s out b d ty0 du0 = Some (Inr (d', ty, du)) \<and>
    add_step N bn p out done nm d d' \<and> back_ok (map_of (tbl d')) out nm ty du"
proof (cases "map_of (tbl d) nm")
  case None
  then show ?thesis using new_source_step [OF J None n(2,3,1), of p True du0] n(1)
    by (auto simp: add_in_def)
next
  case (Some e)
  have ok: "graph_ok N bn (map_of (tbl d)) {out}" using J by (simp add: adding_def)
  have src: "\<not> (case map_of (tbl d) out of None \<Rightarrow> False
             | Some oe \<Rightarrow> b_type oe \<noteq> t_source \<and> b_type oe \<noteq> t_source_fork)"
    using J by (auto simp: adding_def is_source_def split: option.splits)
  note step = add_in_def n(1) Some src
  have "b_type e \<noteq> t_fork_dummy" "b_type e \<noteq> t_none"
    using graph_ok_plain(1) [OF ok N Some n(2)] graph_okD(1) [OF ok Some] by (auto simp: entry_ok_def)
  then consider "b_type e = t_source \<or> b_type e = t_normal \<or> b_type e = t_merge" | "is_fork (b_type e)"
    | "b_type e = t_sink \<or> b_type e = t_merge_sink"
    by (cases "b_type e") (auto simp: is_fork_def)
  then show ?thesis
  proof cases
    case 1
    then have "\<not> (stype s = stmt_join \<and> Some b \<noteq> sin s)" using w Some by (auto simp: in_ok_def)
    with 1 make_fork_step [OF J N Some n(2-5) 1, of p] show ?thesis by (auto simp: step)
  next
    case 2
    then have "\<not> (b_type e = t_source \<or> b_type e = t_normal \<or> b_type e = t_merge)" by (auto simp: is_fork_def)
    with 2 grow_fork_step [OF J N Some n(2-5) 2, of p] show ?thesis by (auto simp: step)
  next
    case 3
    then have "\<not> is_fork (b_type e)" "\<not> (b_type e = t_source \<or> b_type e = t_normal \<or> b_type e = t_merge)"
      by (auto simp: is_fork_def)
    with 3 extend_sink_step [OF J N Some n(2,3) 3, of p du0] show ?thesis by (simp add: step)
  qed
qed

text \<open>The whole loop.\<close>

lemma add_ins_steps:
  assumes "adding N bn out dn (map_of (tbl d))" "names_ok N" "out \<in> N"
    "map bn bs = map Some ns" "distinct ns" "set ns \<subseteq> N - insert out dn"
    "\<forall>(b, nm) \<in> set (zip bs ns). in_ok (map_of (tbl d)) s b nm"
  shows "\<exists>d' ty du. add_ins bn p s out bs d ty0 du0 = Some (Inr (d', ty, du)) \<and>
    adding N bn out (dn \<union> set ns) (map_of (tbl d')) \<and>
    edges (map_of (tbl d')) = edges (map_of (tbl d)) \<union> {(nm, p, out) |nm. nm \<in> set ns} \<and>
    (distinct (map fst (tbl d)) \<longrightarrow> distinct (map fst (tbl d'))) \<and> dstmts d' = dstmts d \<and>
    map_option b_type (map_of (tbl d') out) = map_option b_type (map_of (tbl d) out) \<and>
    (ns \<noteq> [] \<longrightarrow> back_ok (map_of (tbl d')) out (last ns) ty du) \<and>
    N \<inter> dom (map_of (tbl d)) \<union> set ns \<subseteq> dom (map_of (tbl d'))"
  using assms
proof (induction bs arbitrary: ns d dn ty0 du0)
  case Nil
  then show ?case by auto
next
  case (Cons b bs)
  then obtain nm ns' where ns: "ns = nm # ns'" "bn b = Some nm" "map bn bs = map Some ns'" by (cases ns) auto
  have n: "nm \<in> N" "nm \<noteq> out" "nm \<notin> dn" "in_ok (map_of (tbl d)) s b nm" using Cons.prems ns by auto
  from add_in_step [OF Cons.prems(1,2) ns(2) n(1-3) Cons.prems(3) n(4), of p ty0 du0]
  obtain d1 ty1 du1 where 1: "add_in bn p s out b d ty0 du0 = Some (Inr (d1, ty1, du1))"
    "add_step N bn p out dn nm d d1" "back_ok (map_of (tbl d1)) out nm ty1 du1" by blast
  have same: "\<forall>k\<in>N - {nm}. map_option b_type (map_of (tbl d1) k) = map_option b_type (map_of (tbl d) k)"
    and adj: "adding N bn out (insert nm dn) (map_of (tbl d1))" using 1(2) by (simp_all add: add_step_def)
  have sub: "set ns' \<subseteq> N - insert out (insert nm dn)" using Cons.prems(5,6) ns by auto
  have "\<forall>(b, nm) \<in> set (zip bs ns'). in_ok (map_of (tbl d1)) s b nm"
  proof safe
    fix b' nm' assume z: "(b', nm') \<in> set (zip bs ns')"
    then have "in_ok (map_of (tbl d)) s b' nm'" using Cons.prems(7) ns by auto
    moreover have "nm' \<in> N - {nm}" using z sub by (auto dest: set_zip_rightD)
    ultimately show "in_ok (map_of (tbl d1)) s b' nm'" using same by (simp add: in_ok_def)
  qed
  from Cons.IH [OF adj Cons.prems(2,3) ns(3) _ sub this, of ty1 du1] Cons.prems(5) ns
  obtain d' ty du where 2: "add_ins bn p s out bs d1 ty1 du1 = Some (Inr (d', ty, du))"
    "adding N bn out (insert nm dn \<union> set ns') (map_of (tbl d'))"
    "edges (map_of (tbl d')) = edges (map_of (tbl d1)) \<union> {(nm, p, out) |nm. nm \<in> set ns'}"
    "distinct (map fst (tbl d1)) \<longrightarrow> distinct (map fst (tbl d'))" "dstmts d' = dstmts d1"
    "map_option b_type (map_of (tbl d') out) = map_option b_type (map_of (tbl d1) out)"
    "ns' \<noteq> [] \<longrightarrow> back_ok (map_of (tbl d')) out (last ns') ty du"
    "N \<inter> dom (map_of (tbl d1)) \<union> set ns' \<subseteq> dom (map_of (tbl d'))" by auto
  have dm: "N \<inter> dom (map_of (tbl d)) \<union> {nm} \<subseteq> dom (map_of (tbl d1))"
  proof
    fix k assume "k \<in> N \<inter> dom (map_of (tbl d)) \<union> {nm}"
    then consider "k = nm" | "k \<in> N - {nm}" "map_of (tbl d) k \<noteq> None" by blast
    then show "k \<in> dom (map_of (tbl d1))"
    proof cases
      case 2
      with same have "map_option b_type (map_of (tbl d1) k) = map_option b_type (map_of (tbl d) k)" by blast
      with 2(2) show ?thesis by (metis domIff map_option_is_None)
    qed (use 1(3) in \<open>auto simp: back_ok_def\<close>)
  qed
  then have dm': "N \<inter> dom (map_of (tbl d)) \<union> set ns \<subseteq> dom (map_of (tbl d'))" using 2(8) ns(1) n(1) by auto
  have "ns' = [] \<longrightarrow> back_ok (map_of (tbl d')) out nm ty du"
    using 1(3) 2(1) ns(3) by (cases bs) auto
  then show ?case
    using 1(1,2) 2(1-7) dm' ns(1) n(2) same Cons.prems(3) by (auto simp: add_step_def)
qed

section \<open>The output buffer\<close>

lemma graph_pend:
  assumes "graph_ok N bn m {out}" "m out = Some e" "is_target (b_type e)"
  shows "graph_ok N bn m {}"
  using assms by (fastforce simp: graph_ok_def links_ok_def)

lemma finish_adding:
  assumes J: "adding N bn out done m" and N: "names_ok N" "out \<in> N"
    and e: "is_target (b_type e)" "entry_ok e" "\<exists>b. ebuf e = Some b \<and> bn b = Some out" "inplace e \<in> {None, Some out}"
    and l: "links_ok (m(out \<mapsto> e)) {out} out e"
    and f: "\<And>e0. m out = Some e0 \<Longrightarrow> is_fork (b_type e0) \<Longrightarrow> is_fork (b_type e)"
  shows "graph_ok N bn (m(out \<mapsto> e)) {}"
proof (rule graph_pend)
  have ok: "graph_ok N bn m {out}" using J by (simp add: adding_def)
  have "is_source (b_type e0)" if "m out = Some e0" for e0 using J that by (simp add: adding_def)
  then have "b_type e0 \<noteq> t_fork_dummy \<and> (is_fork (b_type e0) \<longrightarrow> is_fork (b_type e)) \<and>
      (is_target (b_type e0) \<longrightarrow> is_target (b_type e))" if "m out = Some e0" for e0
    using that f by (auto simp: is_source_def is_target_def)
  then show "graph_ok N bn (m(out \<mapsto> e)) {out}"
    using ok e N(2) l by (intro graph_upd_buf) (auto simp: is_target_def)
qed (use e in simp_all)

text \<open>The new entry for a source that gets a writer.\<close>

lemma fed_source_links:
  assumes ok: "graph_ok N bn m {out}" and m: "m out = Some e" "is_source (b_type e)"
    and e': "b_type e' \<noteq> t_fork_dummy" "forward e' = forward e" "inplace e' = inplace e"
      "\<And>x. bback e' = BackBuf (Some x) \<Longrightarrow> m x \<noteq> None"
  shows "links_ok (m(out \<mapsto> e')) {out} out e'"
proof -
  have D: "links_ok m {out} out e" using ok m(1) by (rule graph_okD)
  have "dset (m(out \<mapsto> e')) out = dset m out"
    using m(1) by (rule dset_same) (use m(2) e'(1) in \<open>auto simp: is_source_def\<close>)
  then show ?thesis using D m(1) e' unfolding links_ok_def by auto
qed

lemma add_out_step:
  assumes J: "adding N bn out done (map_of (tbl d))" and N: "names_ok N" "out \<in> N" "bn ot = Some out" "stype s \<noteq> stmt_coll"
    and bk: "stype s = stmt_normal \<Longrightarrow> \<exists>x. out_back bn s ty du = Some (Some x) \<and> map_of (tbl d) x \<noteq> None"
  shows "\<exists>d'. add_out bn p s ot out d ty du = Some (SUCCESS, d') \<and> graph_ok N bn (map_of (tbl d')) {} \<and>
    edges (map_of (tbl d')) = edges (map_of (tbl d)) \<and>
    (distinct (map fst (tbl d)) \<longrightarrow> distinct (map fst (tbl d'))) \<and> dstmts d' = dstmts d \<and>
    dom (map_of (tbl d')) = insert out (dom (map_of (tbl d)))"
proof -
  let ?m = "map_of (tbl d)"
  have ok: "graph_ok N bn ?m {out}" using J by (simp add: adding_def)
  obtain e' d' where d': "add_out bn p s ot out d ty du = Some (SUCCESS, d')" "map_of (tbl d') = ?m(out \<mapsto> e')"
      "distinct (map fst (tbl d)) \<longrightarrow> distinct (map fst (tbl d'))" "dstmts d' = dstmts d"
    and e': "is_target (b_type e')" "entry_ok e'" "\<exists>b. ebuf e' = Some b \<and> bn b = Some out" "inplace e' \<in> {None, Some out}"
      "links_ok (?m(out \<mapsto> e')) {out} out e'" "\<And>e0. ?m out = Some e0 \<Longrightarrow> is_fork (b_type e0) \<Longrightarrow> is_fork (b_type e')"
      "edges (?m(out \<mapsto> e')) = edges ?m"
  proof (cases "?m out")
    case None
    define e' where "e' = (if stype s = stmt_normal then (sink_entry ot [])\<lparr>bback := BackBuf (the (out_back bn s ty du))\<rparr>
      else merge_sink_entry p ot)"
    have "edges (?m(out \<mapsto> e')) = edges ?m"
      using None by (subst edges_upd_new) (auto simp: e'_def edge_of_def sink_entry_def merge_sink_entry_def)
    then show ?thesis
      using None bk N
      by (intro that [of "push_buf ot (put_entry out e' d)" e'])
        (auto simp: e'_def add_out_def entry_ok_def links_ok_def ty_defs sink_entry_def merge_sink_entry_def)
  next
    case (Some e)
    have src: "b_type e = t_source \<or> b_type e = t_source_fork" using J Some by (auto simp: adding_def is_source_def)
    note D = graph_okD [OF ok Some]
    define e' where "e' = (if stype s = stmt_normal
       then e\<lparr>b_type := (if b_type e = t_source then t_normal else t_fork), bback := BackBuf (the (out_back bn s ty du))\<rparr>
       else e\<lparr>b_type := (if b_type e = t_source then t_merge else t_merge_fork),
              action := (if b_type e = t_source then act_merge_jump else act_merge_cfork), bback := UnionStmt p\<rparr>)"
    have ek: "entry_ok e'"
    proof (cases "stype s = stmt_normal")
      case True
      then obtain x where "out_back bn s ty du = Some (Some x)" using bk by blast
      with D(1) src True show ?thesis unfolding e'_def entry_ok_def
        by (elim disjE) (auto simp: ty_defs split: fw_entry.splits option.splits)
    next
      case False
      with D(1) src show ?thesis unfolding e'_def entry_ok_def
        by (elim disjE) (auto simp: ty_defs split: fw_entry.splits option.splits)
    qed
    have "links_ok (?m(out \<mapsto> e')) {out} out e'"
      by (rule fed_source_links [OF ok Some]) (use src bk in \<open>auto simp: e'_def is_source_def split: if_splits\<close>)
    moreover have "edges (?m(out \<mapsto> e')) = edges ?m"
      using Some by (rule edges_upd_same) (rule edge_of_cong; simp add: e'_def)
    moreover have "\<exists>b. ebuf e' = Some b \<and> bn b = Some out" "inplace e' \<in> {None, Some out}"
      using graph_ok_plain(2) [OF ok N(1) Some N(2)] D(2) src by (auto simp: e'_def key_ok_def)
    ultimately show ?thesis
      using Some bk N ek src
      by (intro that [of "put_entry out e' d" e']) (auto simp: e'_def add_out_def ty_defs)
  qed
  have "graph_ok N bn (?m(out \<mapsto> e')) {}" by (rule finish_adding [OF J N(1,2) e'(1-6)])
  then show ?thesis using d' e'(7) by auto
qed

section \<open>The whole operation\<close>

text \<open>
  The statement \<open>s\<close> can be added: its buffers have distinct names in \<open>N\<close>, its output is new or a
  source of the graph, and a join does not share a window buffer with a single other reader.
\<close>

definition can_add ::
  "string set \<Rightarrow> (bptr \<Rightarrow> string option) \<Rightarrow> stmt \<Rightarrow> driver \<Rightarrow> bptr list \<Rightarrow> string list \<Rightarrow> string \<Rightarrow> bool" where
  "can_add N bn s d bs ns out \<longleftrightarrow>
     valid s \<and> stype s \<noteq> stmt_coll \<and> in_bufs s = Some bs \<and> map bn bs = map Some ns \<and> distinct ns \<and>
     set ns \<subseteq> N \<and> out \<in> N \<and> out \<notin> set ns \<and> sout s \<bind> bn = Some out \<and>
     (\<forall>oe. map_of (tbl d) out = Some oe \<longrightarrow> is_source (b_type oe)) \<and>
     (\<forall>(b, nm) \<in> set (zip bs ns). in_ok (map_of (tbl d)) s b nm)"

text \<open>No entry leads to a buffer that is not a target.\<close>

lemma adding_start:
  assumes "graph_ok N bn m {}" "\<forall>oe. m out = Some oe \<longrightarrow> is_source (b_type oe)"
  shows "adding N bn out {} m"
proof -
  have "forward e \<noteq> ForwardBuf (Some out)" if "m k = Some e" for k e
  proof
    assume "forward e = ForwardBuf (Some out)"
    with graph_okD(3) [OF assms(1) that] obtain ef where "m out = Some ef" "is_target (b_type ef)"
      by (auto simp: links_ok_def)
    with assms(2) show False by (auto simp: is_target_def)
  qed
  moreover have "links_ok m {out} k e" if "links_ok m {} k e" for k e
    using that by (simp add: links_ok_def)
  ultimately show ?thesis using assms by (simp add: adding_def graph_ok_def)
qed

lemma add_sources:
  assumes "adding N bn out dn (map_of (tbl d))" "map bn bs = map Some ns" "distinct ns"
    "set ns \<subseteq> N - insert out dn" "\<forall>nm\<in>set ns. map_of (tbl d) nm = None" "distinct (map fst (tbl d))"
    "map_of (tbl d) out = None"
  shows "\<exists>d'. foldM (add_source bn p out push) bs d = Some d' \<and>
    adding N bn out (dn \<union> set ns) (map_of (tbl d')) \<and>
    edges (map_of (tbl d')) = edges (map_of (tbl d)) \<union> {(nm, p, out) |nm. nm \<in> set ns} \<and>
    distinct (map fst (tbl d')) \<and> dstmts d' = dstmts d \<and> map_of (tbl d') out = None \<and>
    dom (map_of (tbl d')) = dom (map_of (tbl d)) \<union> set ns"
  using assms
proof (induction bs arbitrary: ns d dn)
  case Nil
  then show ?case by auto
next
  case (Cons b bs)
  then obtain nm ns' where ns: "ns = nm # ns'" "bn b = Some nm" "map bn bs = map Some ns'" by (cases ns) auto
  have n: "nm \<in> N" "nm \<noteq> out" "map_of (tbl d) nm = None" using Cons.prems ns by auto
  from new_source_step [OF Cons.prems(1) n(3,1,2) ns(2), of p push None]
  obtain d1 where 1: "add_source bn p out push b d = Some d1" "add_step N bn p out dn nm d d1" by blast
  have tb: "map_of (tbl d1) = (map_of (tbl d))(nm \<mapsto> source_entry p b nm out)"
    using 1(1) ns(2) by (cases push) (auto simp: add_source_def Let_def)
  have 2: "adding N bn out (insert nm dn) (map_of (tbl d1))" "distinct (map fst (tbl d1))"
    "edges (map_of (tbl d1)) = edges (map_of (tbl d)) \<union> {(nm, p, out)}" "dstmts d1 = dstmts d"
    using 1(2) Cons.prems(6) by (simp_all add: add_step_def)
  have 3: "distinct ns'" "set ns' \<subseteq> N - insert out (insert nm dn)" "\<forall>nm\<in>set ns'. map_of (tbl d1) nm = None"
    "map_of (tbl d1) out = None" using Cons.prems(3-5,7) ns(1) tb n(2) by auto
  from Cons.IH [OF 2(1) ns(3) 3(1-3) 2(2) 3(4)]
  obtain d' where "foldM (add_source bn p out push) bs d1 = Some d'"
    "adding N bn out (insert nm dn \<union> set ns') (map_of (tbl d'))"
    "edges (map_of (tbl d')) = edges (map_of (tbl d1)) \<union> {(nm, p, out) |nm. nm \<in> set ns'}"
    "distinct (map fst (tbl d')) \<and> dstmts d' = dstmts d1 \<and> map_of (tbl d') out = None \<and>
     dom (map_of (tbl d')) = dom (map_of (tbl d1)) \<union> set ns'" by blast
  then show ?case using 1(1) 2(3,4) ns(1) by (auto simp: tb)
qed

text \<open>In an empty driver the inputs become sources, whichever way they are listed.\<close>

lemma empty_sources:
  assumes c: "can_add N bn s d bs ns out" and d: "tbl d = []"
  shows "\<exists>d'. (if stype s = stmt_join
        then sin s \<bind> (\<lambda>i. add_source bn p out False i d) \<bind> foldM (add_source bn p out True) (window_bufs s)
        else foldM (add_source bn p out True) bs d) = Some d' \<and>
      adding N bn out (set ns) (map_of (tbl d')) \<and> edges (map_of (tbl d')) = {(nm, p, out) |nm. nm \<in> set ns} \<and>
      distinct (map fst (tbl d')) \<and> dstmts d' = dstmts d \<and> map_of (tbl d') out = None \<and>
      dom (map_of (tbl d')) = set ns"
proof -
  have g: "adding N bn out {} (map_of (tbl d))" "edges (map_of (tbl d)) = {}"
    by (simp_all add: adding_def graph_ok_def d edges_def)
  have c': "map bn bs = map Some ns" "distinct ns" "set ns \<subseteq> N - {out}" "in_bufs s = Some bs"
    using c(1) by (auto simp: can_add_def)
  show ?thesis
  proof (cases "stype s = stmt_join")
    case False
    then show ?thesis using add_sources [OF g(1) c'(1,2), of p True] c'(3) g(2) d by simp
  next
    case True
    then obtain i where i: "sin s = Some i" "bs = window_bufs s @ [i]" using c'(4) by (auto simp: in_bufs_def)
    then obtain ws nm where ns: "ns = ws @ [nm]" "map bn (window_bufs s) = map Some ws" "bn i = Some nm"
      using c'(1) by (auto simp: map_eq_append_conv append_eq_map_conv)
    obtain d1 where d1: "add_source bn p out False i d = Some d1" "adding N bn out {nm} (map_of (tbl d1))"
      "edges (map_of (tbl d1)) = {(nm, p, out)}" "distinct (map fst (tbl d1))" "dstmts d1 = dstmts d"
      "map_of (tbl d1) out = None" "dom (map_of (tbl d1)) = {nm}"
      using add_sources [OF g(1), of "[i]" "[nm]" p False] ns(3) c'(3) g(2) d by (auto simp: ns(1))
    have "set ws \<subseteq> N - insert out {nm}" "\<forall>x\<in>set ws. map_of (tbl d1) x = None" "distinct ws"
      using c'(2,3) ns(1) d1(7) by (auto simp: dom_def)
    from add_sources [OF d1(2) ns(2) this(3,1,2) d1(4,6), of p True] show ?thesis
      using True i(1) d1 by (auto simp: ns(1) insert_commute)
  qed
qed

lemma addStmt_empty_eq:
  assumes "stype s \<noteq> stmt_coll" "in_bufs s = Some bs" "sout s = Some ot" "bn ot = Some out"
    "(if stype s = stmt_join
        then sin s \<bind> (\<lambda>i. add_source bn p out False i d) \<bind> foldM (add_source bn p out True) (window_bufs s)
        else foldM (add_source bn p out True) bs d) = Some d1"
    "map_of (tbl d1) out = None" "stype s = stmt_normal \<longrightarrow> sin s \<bind> bn \<noteq> None"
  shows "addStmt_empty bn p s d = add_out bn p s ot out d1 t_source None \<bind>
     (\<lambda>(rc, d). Some (rc, d\<lparr>dstmts := dstmts d @ [p], dirty := True\<rparr>))"
  using assms
  by (cases "stype s")
    (auto simp: addStmt_empty_def add_out_def in_bufs_def is_union_def out_back_def is_fork_def sink_entry_def bind_eq_Some_conv Let_def
      split: if_splits)

text \<open>The entry a normal statement's output backtracks to exists.\<close>

lemma normal_back:
  assumes c: "can_add N bn s d bs ns out" and n: "stype s = stmt_normal" and b: "ns \<noteq> [] \<longrightarrow> back_ok m out (last ns) ty du"
  shows "\<exists>x. out_back bn s ty du = Some (Some x) \<and> m x \<noteq> None"
proof -
  obtain i nm where "sin s = Some i" "ns = [nm]" "bn i = Some nm"
    using c n by (auto simp: can_add_def in_bufs_def)
  then show ?thesis using b by (auto simp: out_back_def back_ok_def)
qed

lemma addStmt_graph:
  assumes g: "graph_ok N bn (map_of (tbl d)) {}" "names_ok N" "distinct (map fst (tbl d))"
    and e: "dstmts d = [] \<longrightarrow> tbl d = []" and c: "can_add N bn s d bs ns out"
  shows "\<exists>d'. addStmt bn p s d = Some (SUCCESS, d') \<and> graph_ok N bn (map_of (tbl d')) {} \<and>
    edges (map_of (tbl d')) = edges (map_of (tbl d)) \<union> {(nm, p, out) |nm. nm \<in> set ns} \<and>
    distinct (map fst (tbl d')) \<and> dstmts d' = dstmts d @ [p] \<and>
    N \<inter> dom (map_of (tbl d)) \<union> set ns \<union> {out} \<subseteq> dom (map_of (tbl d'))"
proof -
  have c': "map bn bs = map Some ns" "distinct ns" "set ns \<subseteq> N - insert out {}" "out \<in> N" "stype s \<noteq> stmt_coll"
    "in_bufs s = Some bs" "valid s" "\<forall>oe. map_of (tbl d) out = Some oe \<longrightarrow> is_source (b_type oe)"
    "\<forall>(b, nm) \<in> set (zip bs ns). in_ok (map_of (tbl d)) s b nm"
    using c by (auto simp: can_add_def)
  obtain ot where ot: "sout s = Some ot" "bn ot = Some out" using c by (auto simp: can_add_def bind_eq_Some_conv)
  show ?thesis
  proof (cases "dstmts d = []")
    case True
    with e have td: "tbl d = []" by simp
    from empty_sources [OF c td, of p] obtain d1 where d1: "(if stype s = stmt_join
        then sin s \<bind> (\<lambda>i. add_source bn p out False i d) \<bind> foldM (add_source bn p out True) (window_bufs s)
        else foldM (add_source bn p out True) bs d) = Some d1" "adding N bn out (set ns) (map_of (tbl d1))"
      "edges (map_of (tbl d1)) = {(nm, p, out) |nm. nm \<in> set ns}" "distinct (map fst (tbl d1))" "dstmts d1 = dstmts d"
      "map_of (tbl d1) out = None" "dom (map_of (tbl d1)) = set ns" by blast
    have bk: "\<exists>x. out_back bn s t_source None = Some (Some x) \<and> map_of (tbl d1) x \<noteq> None" if "stype s = stmt_normal"
      using that by (rule normal_back [OF c]) (use d1(7) in \<open>auto simp: back_ok_def is_fork_def dom_def\<close>)
    have nb: "stype s = stmt_normal \<longrightarrow> sin s \<bind> bn \<noteq> None" using bk by (auto simp: out_back_def is_fork_def)
    have "edges (map_of (tbl d)) = {}" "dom (map_of (tbl d)) = {}" by (simp_all add: td edges_def)
    then show ?thesis
      using add_out_step [OF d1(2) g(2) c'(4) ot(2) c'(5) bk, of p] addStmt_empty_eq [OF c'(5,6) ot d1(1,6) nb] d1 True c'(7)
      by (auto simp: addStmt_def td)
  next
    case False
    obtain d1 ty du where d1: "add_ins bn p s out bs d t_none None = Some (Inr (d1, ty, du))"
      "adding N bn out ({} \<union> set ns) (map_of (tbl d1))"
      "edges (map_of (tbl d1)) = edges (map_of (tbl d)) \<union> {(nm, p, out) |nm. nm \<in> set ns}"
      "distinct (map fst (tbl d1))" "dstmts d1 = dstmts d" "ns \<noteq> [] \<longrightarrow> back_ok (map_of (tbl d1)) out (last ns) ty du"
      "N \<inter> dom (map_of (tbl d)) \<union> set ns \<subseteq> dom (map_of (tbl d1))"
      using add_ins_steps [OF adding_start [OF g(1) c'(8)] g(2) c'(4,1,2,3,9), of p t_none None] g(3) by blast
    have bk: "\<exists>x. out_back bn s ty du = Some (Some x) \<and> map_of (tbl d1) x \<noteq> None" if "stype s = stmt_normal"
      by (rule normal_back [OF c that d1(6)])
    obtain d' where d': "add_out bn p s ot out d1 ty du = Some (SUCCESS, d')" "graph_ok N bn (map_of (tbl d')) {}"
      "edges (map_of (tbl d')) = edges (map_of (tbl d1))" "distinct (map fst (tbl d'))" "dstmts d' = dstmts d1"
      "dom (map_of (tbl d')) = insert out (dom (map_of (tbl d1)))"
      using add_out_step [OF d1(2) g(2) c'(4) ot(2) c'(5) bk, of p] d1(4) by blast
    have "N \<inter> dom (map_of (tbl d)) \<union> set ns \<union> {out} \<subseteq> dom (map_of (tbl d'))" unfolding d'(6) using d1(7) by blast
    then show ?thesis
      using d' d1(1,3,5) False c'(5-7) ot by (simp add: addStmt_def)
  qed
qed

lemma names_ok_fixed:
  assumes "\<forall>a\<in>N. length a = n" "0 < n"
  shows "names_ok N"
  using assms unfolding names_ok_def by (metis add_eq_self_zero append_eq_append_conv length_append less_numeral_extra(3))

text \<open>
  C1: \<open>Driver::addStmt\<close>, for a statement of any kind and an empty or a populated driver, succeeds
  when the output buffer is new or a source of the graph, and adds exactly one edge of the query
  graph for each input. It keeps the invariant of the state table: types, actions and union members
  of every entry agree, every entry leads to a buffer that is written to, fork counts are the
  numbers of their dummies and backtracking leads to an entry.
\<close>

theorem addStmt_keeps_graph:
  assumes "graph_ok N bn (map_of (tbl d)) {}" "names_ok N" "distinct (map fst (tbl d))"
    and "dstmts d = [] \<longrightarrow> tbl d = []" and "can_add N bn s d bs ns out"
  shows "\<exists>d'. addStmt bn p s d = Some (SUCCESS, d') \<and> graph_ok N bn (map_of (tbl d')) {} \<and>
    edges (map_of (tbl d')) = edges (map_of (tbl d)) \<union> {(nm, p, out) |nm. nm \<in> set ns} \<and>
    distinct (map fst (tbl d')) \<and> dstmts d' = dstmts d @ [p]"
  using addStmt_graph [OF assms, of p] by blast

text \<open>A driver with one statement, whose input gets a second reader.\<close>

definition demo_names :: "bptr \<Rightarrow> string option" where
  "demo_names b = (if b = 0 then Some ''a'' else if b = 1 then Some ''b'' else if b = 2 then Some ''c'' else None)"

definition demo_stmt :: "string \<Rightarrow> bptr \<Rightarrow> bptr \<Rightarrow> stmt" where
  "demo_stmt nm i ot = (stmt_init stmt_normal nm False)\<lparr>sin := Some i, sout := Some ot\<rparr>"

definition demo_driver :: driver where
  "demo_driver = snd (the (addStmt demo_names 7 (demo_stmt ''p'' 0 1) (Driver_init False 0)))"

lemma demo_names_ok: "names_ok {''a'', ''b'', ''c''}"
  by (rule names_ok_fixed [where n = 1]) simp_all

lemmas demo_stmt_simps = demo_names_def demo_stmt_def stmt_init_def in_bufs_def

lemma demo_driver_ok:
  "graph_ok {''a'', ''b'', ''c''} demo_names (map_of (tbl demo_driver)) {}" "distinct (map fst (tbl demo_driver))"
  "edges (map_of (tbl demo_driver)) = {(''a'', 7, ''b'')}" "dstmts demo_driver = [7]"
proof -
  let ?d = "Driver_init False 0"
  have c: "can_add {''a'', ''b'', ''c''} demo_names (demo_stmt ''p'' 0 1) ?d [0] [''a''] ''b''"
    by (simp add: can_add_def demo_stmt_simps Driver_init_def in_ok_def)
  have t: "tbl ?d = []" "dstmts ?d = []" by (simp_all add: Driver_init_def)
  have g: "graph_ok {''a'', ''b'', ''c''} demo_names (map_of (tbl ?d)) {}" "edges (map_of (tbl ?d)) = {}"
    "distinct (map fst (tbl ?d))" "dstmts ?d = [] \<longrightarrow> tbl ?d = []"
    unfolding t by (simp_all add: graph_ok_def edges_def)
  from addStmt_graph [OF g(1) demo_names_ok g(3,4) c, of 7]
  obtain d' where d': "addStmt demo_names 7 (demo_stmt ''p'' 0 1) ?d = Some (SUCCESS, d')"
    "graph_ok {''a'', ''b'', ''c''} demo_names (map_of (tbl d')) {}" "distinct (map fst (tbl d'))" "dstmts d' = dstmts ?d @ [7]"
    "edges (map_of (tbl d')) = edges (map_of (tbl ?d)) \<union> {(nm, 7, ''b'') |nm. nm \<in> set [''a'']}" by blast
  have "demo_driver = d'" unfolding demo_driver_def d'(1) by simp
  then show "graph_ok {''a'', ''b'', ''c''} demo_names (map_of (tbl demo_driver)) {}" "distinct (map fst (tbl demo_driver))"
    "edges (map_of (tbl demo_driver)) = {(''a'', 7, ''b'')}" "dstmts demo_driver = [7]"
    using d'(2-5) unfolding g(2) by (simp_all add: t)
qed

lemma demo_driver_tbl:
  "tbl demo_driver = [(''a'', source_entry 7 0 ''a'' ''b''), (''b'', sink_entry 1 ''a'')]"
  by (simp add: demo_driver_def addStmt_def addStmt_empty_def add_source_def demo_stmt_simps Driver_init_def put_entry_def push_buf_def Let_def)

lemma addStmt_keeps_graph_witness:
  "\<exists>d'. addStmt demo_names 8 (demo_stmt ''q'' 0 2) demo_driver = Some (SUCCESS, d') \<and>
     graph_ok {''a'', ''b'', ''c''} demo_names (map_of (tbl d')) {} \<and>
     edges (map_of (tbl d')) = {(''a'', 7, ''b''), (''a'', 8, ''c'')}"
proof -
  have "can_add {''a'', ''b'', ''c''} demo_names (demo_stmt ''q'' 0 2) demo_driver [0] [''a''] ''c''"
    by (simp add: can_add_def demo_stmt_simps demo_driver_tbl in_ok_def)
  from addStmt_keeps_graph [OF demo_driver_ok(1) demo_names_ok demo_driver_ok(2) _ this, of 8]
  show ?thesis by (auto simp: demo_driver_ok)
qed

end
