(* ===== verification/DriverRun.thy ===== *)
theory DriverRun
  imports DriverGraph
begin

text \<open>
  The execution of a query graph (\<open>Driver::run\<close> without a strategy and \<open>Driver::runState\<close>,
  \<open>sql/esl/driver.cc\<close>). A state of the machine is the entry of a buffer in the state table. Its
  action executes the statement that reads the buffer, pops the tuple that was read and calls
  \<open>runState\<close> on the next entry: the output buffer when the statement produced a tuple, the buffer
  itself or the one before it otherwise. All these calls are in tail position except those of a
  fork, which calls \<open>runState\<close> for each of its branches in turn and pops the tuple when all of
  them have seen it.

  The calls need not end, so \<open>runState\<close> takes fuel: \<open>NoFuel\<close> says that it was used up, \<open>Crash\<close>
  that the code dereferences a null pointer or an absent table entry or reads the wrong member of
  a union.
\<close>

section \<open>Data\<close>

datatype run_rc = run_success | run_failure | run_no_input

text \<open>What a run changes: the table, the statements, the buffers and \<open>*nTuples\<close>.\<close>

record rst =
  rtbl :: table
  rstmts :: "(sptr \<times> stmt) list"
  rworld :: world
  nTuples :: int

text \<open>How an action of the machine ends: it returns, calls another entry, or runs its branches.\<close>

datatype move = Done run_rc | Goto string bool | Branch "string list"

definition entry_at :: "rst \<Rightarrow> string \<Rightarrow> b_entry option" where
  "entry_at r k = map_of (rtbl r) k"

definition set_entry :: "string \<Rightarrow> b_entry \<Rightarrow> rst \<Rightarrow> rst" where
  "set_entry k e r = r\<lparr>rtbl := AList.update k e (rtbl r)\<rparr>"

definition stmt_at :: "rst \<Rightarrow> sptr option \<Rightarrow> stmt option" where
  "stmt_at r p = p \<bind> map_of (rstmts r)"

definition name_at :: "rst \<Rightarrow> bptr option \<Rightarrow> string option" where
  "name_at r b = b \<bind> buf_name (rworld r)"

definition forward_buf :: "b_entry \<Rightarrow> string option" where
  "forward_buf e = (case forward e of ForwardBuf f \<Rightarrow> f | ForkCount _ \<Rightarrow> None)"

definition back_buf_of :: "b_entry \<Rightarrow> string option" where
  "back_buf_of e = (case bback e of BackBuf b \<Rightarrow> b | _ \<Rightarrow> None)"

definition processed :: "b_entry \<Rightarrow> bool" where
  "processed e \<longleftrightarrow> bback e = Processed True"

section \<open>The parts of an action\<close>

definition exec_stmt :: "'q qenv_scheme \<Rightarrow> sptr option \<Rightarrow> rst \<Rightarrow> (int \<times> stmt \<times> rst) option" where
  "exec_stmt E p r = do {
     q \<leftarrow> p;
     s \<leftarrow> map_of (rstmts r) q;
     (rc, s, w) \<leftarrow> stmt_exe E 0 s (rworld r);
     Some (rc, s, r\<lparr>rstmts := AList.update q s (rstmts r), rworld := w\<rparr>)
   }"

definition pop_buf :: "bptr option \<Rightarrow> rst \<Rightarrow> rst option" where
  "pop_buf b r = do {
     b \<leftarrow> b;
     (_, w) \<leftarrow> buf_pop b (rworld r);
     Some (r\<lparr>rworld := w\<rparr>)
   }"

definition take_quota :: "rst \<Rightarrow> rst" where
  "take_quota r = r\<lparr>nTuples := nTuples r - 1\<rparr>"

text \<open>\<open>buffer_entry::pop\<close>: a dummy only remembers that it was popped.\<close>

definition buffer_entry_pop :: "string \<Rightarrow> rst \<Rightarrow> rst option" where
  "buffer_entry_pop k r = do {
     e \<leftarrow> entry_at r k;
     if b_type e = t_fork_dummy then Some (set_entry k (e\<lparr>bback := Processed True\<rparr>) r)
     else pop_buf (ebuf e) r
   }"

definition dummies_of :: "string \<Rightarrow> table \<Rightarrow> (string \<times> b_entry) list" where
  "dummies_of nm t = [(k, e) \<leftarrow> t. b_type e = t_fork_dummy \<and> inplace e = Some nm]"

text \<open>
  A union or a join pops the buffer its statement left in \<open>in\<close>. When that buffer is a fork, the
  dummies with the same target are marked instead.
\<close>

definition pop_input :: "b_entry \<Rightarrow> stmt \<Rightarrow> rst \<Rightarrow> rst option" where
  "pop_input e s r = do {
     nm \<leftarrow> name_at r (sin s);
     be \<leftarrow> entry_at r nm;
     if \<not> is_fork (b_type be) then do {
       r \<leftarrow> pop_buf (sin s) r;
       Some (if b_type be = t_source then take_quota r else r)
     } else do {
       guard (list_all (\<lambda>(k, e). b_type e = t_fork_dummy \<longrightarrow> inplace e \<noteq> None) (rtbl r));
       guard (dummies_of nm (rtbl r) \<noteq> [] \<longrightarrow> forward_buf e \<noteq> None);
       guard (list_all (\<lambda>(k, e). forward_buf e \<noteq> None) (dummies_of nm (rtbl r)));
       foldM (\<lambda>(k, _) r. buffer_entry_pop k r)
         [(k, e') \<leftarrow> dummies_of nm (rtbl r). forward_buf e' = forward_buf e] r
     }
   }"

definition multi_input :: "stmt_t \<Rightarrow> bool" where
  "multi_input t \<longleftrightarrow> is_union t \<or> t = stmt_join"

definition call :: "string option \<Rightarrow> bool \<Rightarrow> rst \<Rightarrow> (move \<times> rst) option" where
  "call k u r = do { k \<leftarrow> k; Some (Goto k u, r) }"

text \<open>Backtracking from an empty merge buffer: run the statement that writes to it again.\<close>

definition merge_back :: "b_entry \<Rightarrow> rst \<Rightarrow> (move \<times> rst) option" where
  "merge_back e r =
     (case bback e of
        UnionStmt q \<Rightarrow> do {
          s \<leftarrow> map_of (rstmts r) q;
          if is_union (stype s) then
            (case union_bufs s of
               [] \<Rightarrow> None
             | b # _ \<Rightarrow> call (name_at r (Some b)) (stype s = stmt_tl_union) r)
          else if stype s = stmt_join then call (name_at r (sin s)) True r
          else Some (Done run_failure, r)
        }
      | _ \<Rightarrow> None)"

text \<open>Backtracking from a union without input: to the buffer before its \<open>in\<close>.\<close>

definition union_back :: "stmt \<Rightarrow> rst \<Rightarrow> (move \<times> rst) option" where
  "union_back s r = do {
     nm \<leftarrow> name_at r (sin s);
     be \<leftarrow> entry_at r nm;
     call (back_buf_of be) False r
   }"

text \<open>Backtracking from a join without input.\<close>

definition join_back :: "bptr \<Rightarrow> rst \<Rightarrow> (move \<times> rst) option" where
  "join_back b r = do {
     nm \<leftarrow> name_at r (Some b);
     be \<leftarrow> entry_at r nm;
     if b_type be = t_source \<or> b_type be = t_source_fork then Some (Done run_success, r)
     else if b_type be = t_merge \<or> b_type be = t_merge_fork then merge_back be r
     else call (back_buf_of be) False r
   }"

text \<open>A statement had no input; \<open>other\<close> is what happens when it is neither a union nor such a join.\<close>

definition no_input :: "stmt \<Rightarrow> rst \<Rightarrow> (move \<times> rst) option \<Rightarrow> (move \<times> rst) option" where
  "no_input s r other =
     (if is_union (stype s) then union_back s r
      else case (stype s, back_buf s) of
          (stmt_join, Some b) \<Rightarrow> join_back b r
        | _ \<Rightarrow> other)"

text \<open>A tuple was processed: on to the output buffer, unless that is a sink.\<close>

definition move_on :: "b_entry \<Rightarrow> bool \<Rightarrow> (move \<times> rst) option \<Rightarrow> rst \<Rightarrow> (move \<times> rst) option" where
  "move_on e u stay r = do {
     nextBuf \<leftarrow> forward_buf e;
     ne \<leftarrow> entry_at r nextBuf;
     if b_type ne = t_sink then stay else call (Some nextBuf) u r
   }"

text \<open>
  The common part of the actions that execute a statement: \<open>self\<close> pops the own buffer, \<open>stay\<close>
  is where to go on when there is nothing for the next buffer.
\<close>

definition execute ::
  "'q qenv_scheme \<Rightarrow> b_entry \<Rightarrow> bool \<Rightarrow> (rst \<Rightarrow> rst option) \<Rightarrow> (rst \<Rightarrow> (move \<times> rst) option) \<Rightarrow>
   (rst \<Rightarrow> (move \<times> rst) option) \<Rightarrow> rst \<Rightarrow> (move \<times> rst) option" where
  "execute E e u self stay other r = do {
     (rc, s, r) \<leftarrow> exec_stmt E (statement e) r;
     if rc > 0 \<or> rc = s_no_output \<or> rc = s_failure then do {
       r \<leftarrow> (if multi_input (stype s) then pop_input e s r else self r);
       if rc > 0 then move_on e u (stay r) r
       else if rc = s_no_output then stay r
       else Some (Done run_failure, r)
     }
     else if rc = s_no_input then no_input s r (other r)
     else Some (Done run_failure, r)
   }"

section \<open>The actions\<close>

definition cjump :: "'q qenv_scheme \<Rightarrow> b_entry \<Rightarrow> bool \<Rightarrow> rst \<Rightarrow> (move \<times> rst) option" where
  "cjump E e u r =
     (if b_type e \<noteq> t_normal \<and> b_type e \<noteq> t_source then Some (Done run_failure, r)
      else if nTuples r - 1 < 0 then Some (Done run_success, r)
      else do {
        empty \<leftarrow> (if b_type e = t_source then ebuf e \<bind> (\<lambda>b. buf_empty b (rworld r)) else Some False);
        if empty then Some (Done run_success, r)
        else execute E e u
          (\<lambda>r. do { r \<leftarrow> pop_buf (ebuf e) r; Some (if b_type e = t_source then take_quota r else r) })
          (call (inplace e) u)
          (\<lambda>r. if b_type e = t_source then Some (Done run_success, r) else call (back_buf_of e) u r) r
      })"

definition merge_jump :: "'q qenv_scheme \<Rightarrow> b_entry \<Rightarrow> bool \<Rightarrow> rst \<Rightarrow> (move \<times> rst) option" where
  "merge_jump E e u r =
     (if b_type e \<noteq> t_merge then Some (Done run_failure, r)
      else if nTuples r - 1 < 0 then Some (Done run_success, r)
      else do {
        empty \<leftarrow> ebuf e \<bind> (\<lambda>b. buf_empty b (rworld r));
        if empty then merge_back e r
        else execute E e u (pop_buf (ebuf e)) (call (inplace e) u) (merge_back e) r
      })"

definition jump :: "'q qenv_scheme \<Rightarrow> string \<Rightarrow> b_entry \<Rightarrow> bool \<Rightarrow> rst \<Rightarrow> (move \<times> rst) option" where
  "jump E k e u r =
     (if b_type e \<noteq> t_fork_dummy then Some (Done run_failure, r)
      else if nTuples r - 1 < 0 then Some (Done run_success, r)
      else if processed e then Some (Done run_success, r)
      else execute E e u (buffer_entry_pop k) (\<lambda>r. Some (Done run_success, r))
        (\<lambda>r. Some (Done run_no_input, r)) r)"

definition merge :: "b_entry \<Rightarrow> rst \<Rightarrow> (move \<times> rst) option" where
  "merge e r =
     (if b_type e \<noteq> t_merge_sink then Some (Done run_failure, r)
      else do {
        empty \<leftarrow> ebuf e \<bind> (\<lambda>b. buf_empty b (rworld r));
        if empty then merge_back e r else Some (Done run_success, r)
      })"

text \<open>The entry of a fork: its dummies are collected and counted.\<close>

definition start_fork :: "b_entry \<Rightarrow> rst \<Rightarrow> (move \<times> rst) option" where
  "start_fork e r = do {
     nm \<leftarrow> name_at r (ebuf e);
     guard (list_all (\<lambda>(k, e). b_type e = t_fork_dummy \<longrightarrow> inplace e \<noteq> None) (rtbl r));
     let dummies = map fst (dummies_of nm (rtbl r));
     case forward e of
       ForkCount c \<Rightarrow> Some (if c \<noteq> int (length dummies) then Done run_failure else Branch dummies, r)
     | _ \<Rightarrow> None
   }"

text \<open>The buffer of a fork is empty.\<close>

definition cfork_empty :: "b_entry \<Rightarrow> bool \<Rightarrow> rst \<Rightarrow> (move \<times> rst) option" where
  "cfork_empty e u r =
     (if b_type e = t_source_fork then Some (Done run_success, r) else call (back_buf_of e) u r)"

definition cfork :: "b_entry \<Rightarrow> bool \<Rightarrow> rst \<Rightarrow> (move \<times> rst) option" where
  "cfork e u r =
     (if b_type e \<noteq> t_fork \<and> b_type e \<noteq> t_source_fork then Some (Done run_failure, r)
      else if b_type e = t_source_fork \<and> nTuples r - 1 < 0 then Some (Done run_success, r)
      else do {
        empty \<leftarrow> ebuf e \<bind> (\<lambda>b. buf_empty b (rworld r));
        if empty then cfork_empty e u r else start_fork e r
      })"

definition merge_cfork :: "b_entry \<Rightarrow> rst \<Rightarrow> (move \<times> rst) option" where
  "merge_cfork e r =
     (if b_type e \<noteq> t_merge_fork then Some (Done run_failure, r)
      else if nTuples r - 1 < 0 then Some (Done run_success, r)
      else do {
        empty \<leftarrow> ebuf e \<bind> (\<lambda>b. buf_empty b (rworld r));
        if empty then merge_back e r else start_fork e r
      })"

definition act :: "'q qenv_scheme \<Rightarrow> string \<Rightarrow> bool \<Rightarrow> rst \<Rightarrow> (move \<times> rst) option" where
  "act E k u r = do {
     e \<leftarrow> entry_at r k;
     case action e of
       act_cjump \<Rightarrow> cjump E e u r
     | act_merge_jump \<Rightarrow> merge_jump E e u r
     | act_cfork \<Rightarrow> cfork e u r
     | act_jump \<Rightarrow> jump E k e u r
     | act_merge \<Rightarrow> merge e r
     | act_merge_cfork \<Rightarrow> merge_cfork e r
     | act_none \<Rightarrow> Some (Done run_success, r)
   }"

section \<open>The loop of a fork\<close>

text \<open>The first branch reported that it has no input.\<close>

definition fork_no_input :: "b_entry \<Rightarrow> bool \<Rightarrow> rst \<Rightarrow> (move \<times> rst) option" where
  "fork_no_input e u r =
     (if b_type e = t_merge_fork then do {
        s \<leftarrow> stmt_at r (statement e);
        if is_union (stype s) then union_back s r else merge_back e r
      } else cfork_empty e u r)"

text \<open>All branches have seen the tuple: the flags are reset and it is popped.\<close>

definition reset_flags :: "string list \<Rightarrow> rst \<Rightarrow> rst option" where
  "reset_flags ds r =
     foldM (\<lambda>k r. do { e \<leftarrow> entry_at r k; Some (set_entry k (e\<lparr>bback := Processed False\<rparr>) r) }) ds r"

definition fork_pop :: "b_entry \<Rightarrow> string list \<Rightarrow> rst \<Rightarrow> rst option" where
  "fork_pop e ds r = do {
     r \<leftarrow> reset_flags ds r;
     r \<leftarrow> pop_buf (ebuf e) r;
     Some (if b_type e = t_source_fork then take_quota r else r)
   }"

text \<open>After that a merge fork always starts the next round; the others may be finished.\<close>

definition fork_next :: "b_entry \<Rightarrow> bool \<Rightarrow> rst \<Rightarrow> ((move \<times> rst) option) option" where
  "fork_next e u r =
     (if b_type e = t_merge_fork then Some None
      else if b_type e = t_source_fork \<and> nTuples r - 1 < 0 then Some (Some (Done run_success, r))
      else do {
        empty \<leftarrow> ebuf e \<bind> (\<lambda>b. buf_empty b (rworld r));
        if empty then map_option Some (cfork_empty e u r) else Some None
      })"

text \<open>One turn of the loop after a branch was passed: a position in the loop, or a move.\<close>

datatype turn = Loop nat int | Leave move

definition fork_turn :: "b_entry \<Rightarrow> bool \<Rightarrow> string list \<Rightarrow> nat \<Rightarrow> int \<Rightarrow> rst \<Rightarrow> (turn \<times> rst) option" where
  "fork_turn e u ds i nFork r =
     (if nFork > 0 \<and> i = length ds then Some (Leave (Done run_failure), r)
      else if nFork = 0 \<and> i = length ds then do {
        es \<leftarrow> those (map (entry_at r) ds);
        if list_all processed es then do {
          r \<leftarrow> fork_pop e ds r;
          next \<leftarrow> fork_next e u r;
          Some (case next of None \<Rightarrow> (Loop 0 (int (length ds)), r) | Some (mv, r) \<Rightarrow> (Leave mv, r))
        } else Some (Loop 0 (int (length ds)), r)
      }
      else Some (Loop i nFork, r))"

text \<open>
  \<open>follow\<close> and \<open>fork_step\<close> carry a move out with the recursive calls they are given.
\<close>

definition follow ::
  "(string \<Rightarrow> bool \<Rightarrow> rst \<Rightarrow> (run_rc \<times> rst) outcome) \<Rightarrow> (string list \<Rightarrow> rst \<Rightarrow> (run_rc \<times> rst) outcome) \<Rightarrow>
   (move \<times> rst) option \<Rightarrow> (run_rc \<times> rst) outcome" where
  "follow run loop mv =
     (case mv of
        None \<Rightarrow> Crash
      | Some (Done rc, r) \<Rightarrow> Ret (rc, r)
      | Some (Goto k u, r) \<Rightarrow> run k u r
      | Some (Branch ds, r) \<Rightarrow> loop ds r)"

definition fork_step ::
  "(string \<Rightarrow> bool \<Rightarrow> rst \<Rightarrow> (run_rc \<times> rst) outcome) \<Rightarrow> (nat \<Rightarrow> int \<Rightarrow> rst \<Rightarrow> (run_rc \<times> rst) outcome) \<Rightarrow>
   (turn \<times> rst) option \<Rightarrow> (run_rc \<times> rst) outcome" where
  "fork_step run loop t =
     (case t of
        None \<Rightarrow> Crash
      | Some (Loop i c, r) \<Rightarrow> loop i c r
      | Some (Leave mv, r) \<Rightarrow> follow run (\<lambda>_ _. Crash) (Some (mv, r)))"

text \<open>
  \<open>runState\<close> and the loop of a fork with its iterator and \<open>nFork\<close>. The flag is the parameter
  \<open>unionNoTime\<close>.
\<close>

fun runState :: "nat \<Rightarrow> 'q qenv_scheme \<Rightarrow> string \<Rightarrow> bool \<Rightarrow> rst \<Rightarrow> (run_rc \<times> rst) outcome"
  and fork_loop :: "nat \<Rightarrow> 'q qenv_scheme \<Rightarrow> string \<Rightarrow> bool \<Rightarrow> string list \<Rightarrow> nat \<Rightarrow> int \<Rightarrow> rst \<Rightarrow> (run_rc \<times> rst) outcome"
  where
  "runState 0 E k u r = NoFuel"
| "runState (Suc n) E k u r =
     follow (\<lambda>k u r. runState n E k u r) (\<lambda>ds r. fork_loop n E k u ds 0 (int (length ds)) r) (act E k u r)"
| "fork_loop 0 E k u ds i nFork r = NoFuel"
| "fork_loop (Suc n) E k u ds i nFork r =
     (case entry_at r k of
        None \<Rightarrow> Crash
      | Some e \<Rightarrow>
          if b_type e = t_source_fork \<and> nTuples r - 1 < 0 then Ret (run_success, r)
          else if length ds \<le> i then Crash
          else case entry_at r (ds ! i) of
            None \<Rightarrow> Crash
          | Some de \<Rightarrow>
              if processed de
              then fork_step (\<lambda>k u r. runState n E k u r) (\<lambda>i c r. fork_loop n E k u ds i c r)
                     (fork_turn e u ds (i + 1) (nFork - 1) r)
              else case runState n E (ds ! i) u r of
                Crash \<Rightarrow> Crash
              | NoFuel \<Rightarrow> NoFuel
              | Ret (rc, r) \<Rightarrow>
                  if nFork = int (length ds) \<and> rc = run_no_input
                  then follow (\<lambda>k u r. runState n E k u r) (\<lambda>_ _. Crash) (fork_no_input e u r)
                  else if rc = run_failure then Ret (run_failure, r)
                  else if map_option processed (entry_at r (ds ! i)) = Some True
                  then fork_step (\<lambda>k u r. runState n E k u r) (\<lambda>i c r. fork_loop n E k u ds i c r)
                         (fork_turn e u ds (i + 1) (nFork - 1) r)
                  else fork_loop n E k u ds i nFork r)"

section \<open>Driver::run without a strategy\<close>

text \<open>
  The loop over the sources with its iterators as positions in the table; a full round in which
  all of them are empty ends it.
\<close>

fun run_loop :: "nat \<Rightarrow> 'q qenv_scheme \<Rightarrow> nat \<Rightarrow> nat \<Rightarrow> bool \<Rightarrow> string \<Rightarrow> rst \<Rightarrow> (run_rc \<times> string \<times> rst) outcome" where
  "run_loop 0 E itr itr2 start lastn r = NoFuel"
| "run_loop (Suc n) E itr itr2 start lastn r =
     (if itr = itr2 \<and> \<not> start then Ret (run_success, lastn, r)
      else if length (rtbl r) \<le> itr then Crash
      else
        (let (k, e) = rtbl r ! itr; next = (if itr + 1 = length (rtbl r) then 0 else itr + 1) in
         if b_type e = t_source \<or> b_type e = t_source_fork then
           (case (ebuf e \<bind> (\<lambda>b. buf_empty b (rworld r)), name_at r (ebuf e)) of
              (Some True, _) \<Rightarrow> run_loop n E next itr2 False lastn r
            | (Some False, Some nm) \<Rightarrow>
                (case runState n E k False r of
                   Crash \<Rightarrow> Crash
                 | NoFuel \<Rightarrow> NoFuel
                 | Ret (rc, r) \<Rightarrow>
                     if rc = run_success \<and> nTuples r \<le> 0 then Ret (run_success, nm, r)
                     else if rc = run_failure then Ret (rc, nm, r)
                     else run_loop n E next itr False nm r)
            | _ \<Rightarrow> Crash)
         else run_loop n E next itr2 False lastn r))"

definition run_start :: "string \<Rightarrow> table \<Rightarrow> nat" where
  "run_start lastn t =
     (if lastn = [] then 0
      else let i = length (takeWhile (\<lambda>x. fst x \<noteq> lastn) t) in
        if length t \<le> i + 1 then 0 else i + 1)"

definition Driver_run :: "nat \<Rightarrow> 'q qenv_scheme \<Rightarrow> driver \<Rightarrow> rst \<Rightarrow> (run_rc \<times> string \<times> rst) outcome" where
  "Driver_run n E d r =
     (let r = (if nTuples r = 0 then r\<lparr>nTuples := priority d\<rparr> else r);
          i = run_start (last_run_name d) (rtbl r)
      in run_loop n E i i True (last_run_name d) r)"

section \<open>What a run cannot change\<close>

text \<open>Of an entry only the flag of a dummy, of a statement only \<open>in\<close> and \<open>back_buf\<close>.\<close>

definition flag_only :: "b_entry \<Rightarrow> b_entry \<Rightarrow> bool" where
  "flag_only e e' \<longleftrightarrow> e' = e \<or> (b_type e = t_fork_dummy \<and> (\<exists>p. e' = e\<lparr>bback := Processed p\<rparr>))"

definition stmt_frame :: "stmt \<Rightarrow> stmt \<Rightarrow> bool" where
  "stmt_frame s s' \<longleftrightarrow> s'\<lparr>sin := None, back_buf := None\<rparr> = s\<lparr>sin := None, back_buf := None\<rparr>"

definition alist_all2 :: "('v \<Rightarrow> 'v \<Rightarrow> bool) \<Rightarrow> ('k \<times> 'v) list \<Rightarrow> ('k \<times> 'v) list \<Rightarrow> bool" where
  "alist_all2 P = list_all2 (\<lambda>x y. fst x = fst y \<and> P (snd x) (snd y))"

definition frame :: "rst \<Rightarrow> rst \<Rightarrow> bool" where
  "frame r r' \<longleftrightarrow> alist_all2 flag_only (rtbl r) (rtbl r') \<and> alist_all2 stmt_frame (rstmts r) (rstmts r') \<and>
     nTuples r' \<le> nTuples r"

lemma flag_only_refl [simp]: "flag_only e e" by (simp add: flag_only_def)

lemma flag_only_trans: "flag_only a b \<Longrightarrow> flag_only b c \<Longrightarrow> flag_only a c"
  by (auto simp: flag_only_def)

lemma stmt_frame_refl [simp]: "stmt_frame s s"
  by (simp add: stmt_frame_def)

lemma stmt_frame_trans: "stmt_frame a b \<Longrightarrow> stmt_frame b c \<Longrightarrow> stmt_frame a c"
  by (simp add: stmt_frame_def)

lemma alist_all2_refl: "(\<And>x. P x x) \<Longrightarrow> alist_all2 P t t"
  by (simp add: alist_all2_def list_all2_refl)

lemma alist_all2_trans:
  "(\<And>x y z. P x y \<Longrightarrow> P y z \<Longrightarrow> P x z) \<Longrightarrow> alist_all2 P a b \<Longrightarrow> alist_all2 P b c \<Longrightarrow> alist_all2 P a c"
  unfolding alist_all2_def by (rule list_all2_trans [where ?P1.0 = "\<lambda>x y. fst x = fst y \<and> P (snd x) (snd y)" and
    ?P2.0 = "\<lambda>x y. fst x = fst y \<and> P (snd x) (snd y)"]) auto

lemma alist_all2_update:
  assumes "\<And>x. P x x" "map_of t k = Some v" "P v v'"
  shows "alist_all2 P t (AList.update k v' t)"
  using assms(2,3) alist_all2_refl [of P, OF assms(1)]
  by (induction t) (auto simp: alist_all2_def assms(1))

lemma alist_all2_map_of: "alist_all2 P t t' \<Longrightarrow> rel_option P (map_of t k) (map_of t' k)"
  unfolding alist_all2_def by (induction rule: list_all2_induct) auto

lemma frame_refl [simp]: "frame r r"
  by (simp add: frame_def alist_all2_refl)

lemma frame_trans: "frame a b \<Longrightarrow> frame b c \<Longrightarrow> frame a c"
  unfolding frame_def using alist_all2_trans [of flag_only] alist_all2_trans [of stmt_frame]
    flag_only_trans stmt_frame_trans by (smt (verit, best))

lemma utl_loop_frame: "utl_loop n E s w d i j f = Some (rc, s', w') \<Longrightarrow> stmt_frame s s'"
  by (induction n E s w d i j f rule: utl_loop.induct)
    (auto simp: Let_def stmt_frame_def bind_eq_Some_conv split: if_splits option.splits)

lemma stmt_exe_frame: "stmt_exe E v s w = Some (rc, s', w') \<Longrightarrow> stmt_frame s s'"
  unfolding stmt_exe_def
  by (auto simp: nStmt_exe_def uStmt_exe_def jStmt_exe_def utStmt_exe_set_in_def utlStmt_exe_set_in_def stmt_frame_def Let_def
      bind_eq_Some_conv split: stmt_t.splits option.splits prod.splits if_splits dest!: utl_loop_frame)

lemma exec_stmt_frame: "exec_stmt E p r = Some (rc, s, r') \<Longrightarrow> frame r r'"
  by (auto simp: exec_stmt_def bind_eq_Some_conv frame_def alist_all2_refl
      intro!: alist_all2_update dest: stmt_exe_frame)

lemma pop_buf_frame: "pop_buf b r = Some r' \<Longrightarrow> frame r r'"
  by (auto simp: pop_buf_def bind_eq_Some_conv frame_def alist_all2_refl)

lemma take_quota_frame [simp]: "frame r (take_quota r)"
  by (simp add: take_quota_def frame_def alist_all2_refl)

lemma frame_take_quota: "frame r r' \<Longrightarrow> frame r (take_quota r')"
  using take_quota_frame by (rule frame_trans [rotated])

lemma set_entry_frame: "entry_at r k = Some e \<Longrightarrow> flag_only e e' \<Longrightarrow> frame r (set_entry k e' r)"
  by (auto simp: set_entry_def entry_at_def frame_def alist_all2_refl intro!: alist_all2_update)

lemma flag_only_dummy: "b_type e = t_fork_dummy \<Longrightarrow> flag_only e (e\<lparr>bback := Processed p\<rparr>)"
  by (auto simp: flag_only_def)

lemma buffer_entry_pop_frame: "buffer_entry_pop k r = Some r' \<Longrightarrow> frame r r'"
  using set_entry_frame [OF _ flag_only_dummy, of r k _ True]
  by (auto simp: buffer_entry_pop_def bind_eq_Some_conv pop_buf_frame split: if_splits)

lemma foldM_frame:
  assumes "foldM f xs r = Some r'" "\<And>x r r'. x \<in> set xs \<Longrightarrow> f x r = Some r' \<Longrightarrow> frame r r'"
  shows "frame r r'"
  using assms
proof (induction xs arbitrary: r)
  case (Cons x xs)
  then obtain r1 where "f x r = Some r1" "foldM f xs r1 = Some r'" by (auto simp: bind_eq_Some_conv)
  with Cons show ?case by (metis frame_trans list.set_intros)
qed simp

lemma pop_input_frame: "pop_input e s r = Some r' \<Longrightarrow> frame r r'"
  by (auto simp: pop_input_def bind_eq_Some_conv split: if_splits
      dest!: pop_buf_frame elim!: foldM_frame dest: buffer_entry_pop_frame intro: frame_trans)

text \<open>A move that respects the frame and is not the start of a fork.\<close>

definition leaves :: "rst \<Rightarrow> (move \<times> rst) option \<Rightarrow> bool" where
  "leaves r x \<longleftrightarrow> (\<forall>mv r'. x = Some (mv, r') \<longrightarrow> frame r r' \<and> (\<forall>ds. mv \<noteq> Branch ds))"

lemma leaves_simps [simp]:
  "leaves r None" "leaves r (Some (Done rc, r'))  = frame r r'" "leaves r (Some (Goto k u, r')) = frame r r'"
  by (auto simp: leaves_def)

lemma leaves_bind: "(\<And>x. m = Some x \<Longrightarrow> leaves r (f x)) \<Longrightarrow> leaves r (m \<bind> f)"
  by (cases m) auto

lemma leaves_frame: "frame r r1 \<Longrightarrow> leaves r1 x \<Longrightarrow> leaves r x"
  by (auto simp: leaves_def intro: frame_trans)

lemma leaves_call [simp]: "leaves r (call k u r)"
  by (auto simp: call_def intro!: leaves_bind)

lemma leaves_merge_back [simp]: "leaves r (merge_back e r)"
  by (auto simp: merge_back_def intro!: leaves_bind split: bk_entry.splits list.splits)

lemma leaves_union_back [simp]: "leaves r (union_back s r)"
  by (auto simp: union_back_def intro!: leaves_bind)

lemma leaves_join_back [simp]: "leaves r (join_back b r)"
  by (auto simp: join_back_def intro!: leaves_bind)

lemma leaves_no_input: "leaves r other \<Longrightarrow> leaves r (no_input s r other)"
  by (auto simp: no_input_def split: stmt_t.splits option.splits)

lemma leaves_move_on: "leaves r stay \<Longrightarrow> leaves r (move_on e u stay r)"
  by (auto simp: move_on_def intro!: leaves_bind)

lemma leaves_execute:
  assumes self: "\<And>r r'. self r = Some r' \<Longrightarrow> frame r r'" and stay: "\<And>r. leaves r (stay r)" "\<And>r. leaves r (other r)"
  shows "leaves r (execute E e u self stay other r)"
proof -
  have "leaves r1 (if rc > 0 \<or> rc = s_no_output \<or> rc = s_failure then do {
       r \<leftarrow> (if multi_input (stype s) then pop_input e s r1 else self r1);
       if rc > 0 then move_on e u (stay r) r else if rc = s_no_output then stay r else Some (Done run_failure, r)
     } else if rc = s_no_input then no_input s r1 (other r1) else Some (Done run_failure, r1))" (is "leaves r1 (if ?c then ?m \<bind> ?f else _)")
    for rc s r1
  proof -
    have "leaves r1 (?f r2)" if "?m = Some r2" for r2
    proof (rule leaves_frame)
      show "frame r1 r2" using that self pop_input_frame by (auto split: if_splits)
      show "leaves r2 (?f r2)" using stay(1) leaves_move_on by simp
    qed
    then have "leaves r1 (?m \<bind> ?f)" by (rule leaves_bind)
    then show ?thesis using stay(2) leaves_no_input by simp
  qed
  then show ?thesis
    unfolding execute_def by (auto intro!: leaves_bind intro: leaves_frame exec_stmt_frame)
qed

text \<open>The keys of dummies, and that a run keeps them.\<close>

definition keys_distinct :: "rst \<Rightarrow> bool" where
  "keys_distinct r \<longleftrightarrow> distinct (map fst (rtbl r))"

definition are_dummies :: "string list \<Rightarrow> rst \<Rightarrow> bool" where
  "are_dummies ds r \<longleftrightarrow> (\<forall>k\<in>set ds. \<exists>e. entry_at r k = Some e \<and> b_type e = t_fork_dummy)"

lemma alist_all2_keys: "alist_all2 P t t' \<Longrightarrow> map fst t' = map fst t"
  unfolding alist_all2_def by (induction rule: list_all2_induct) auto

lemma frame_keys: "frame r r' \<Longrightarrow> keys_distinct r' = keys_distinct r"
  by (auto simp: frame_def keys_distinct_def dest!: alist_all2_keys)

lemma frame_entry: "frame r r' \<Longrightarrow> rel_option flag_only (entry_at r k) (entry_at r' k)"
  unfolding frame_def entry_at_def by (simp add: alist_all2_map_of)

lemma frame_entryD: "frame r r' \<Longrightarrow> entry_at r k = Some e \<Longrightarrow> \<exists>e'. entry_at r' k = Some e' \<and> flag_only e e'"
  using frame_entry [of r r' k] by (auto simp: option_rel_Some1)

lemma frame_dummies: "frame r r' \<Longrightarrow> are_dummies ds r \<Longrightarrow> are_dummies ds r'"
  unfolding are_dummies_def by (fastforce simp: flag_only_def dest: frame_entryD)

lemma dummies_of_dummies:
  assumes "keys_distinct r"
  shows "are_dummies (map fst (dummies_of nm (rtbl r))) r"
  using assms map_of_is_SomeI by (fastforce simp: are_dummies_def dummies_of_def entry_at_def keys_distinct_def)

lemma start_fork_frame:
  assumes "start_fork e r = Some (mv, r')"
  shows "r' = r" "keys_distinct r \<Longrightarrow> mv = Branch ds \<Longrightarrow> are_dummies ds r"
  using assms dummies_of_dummies
  by (cases "forward e"; auto simp: start_fork_def bind_eq_Some_conv Let_def split: if_splits)+

lemma leaves_cfork_empty [simp]: "leaves r (cfork_empty e u r)"
  by (simp add: cfork_empty_def)

lemma leaves_cjump: "leaves r (cjump E e u r)"
  unfolding cjump_def
  by (auto intro!: leaves_bind leaves_execute frame_take_quota simp: bind_eq_Some_conv dest!: pop_buf_frame)

lemma leaves_merge_jump: "leaves r (merge_jump E e u r)"
  unfolding merge_jump_def by (auto intro!: leaves_bind leaves_execute pop_buf_frame)

lemma leaves_jump: "leaves r (jump E k e u r)"
  unfolding jump_def by (auto intro!: leaves_execute buffer_entry_pop_frame)

lemma leaves_merge: "leaves r (merge e r)"
  unfolding merge_def by (auto intro!: leaves_bind)

text \<open>Every action: only the fork actions start a fork, and they change nothing.\<close>

lemma act_frame:
  assumes "act E k u r = Some (mv, r')"
  shows "frame r r'" "keys_distinct r \<Longrightarrow> mv = Branch ds \<Longrightarrow> are_dummies ds r'"
proof -
  obtain e where e: "entry_at r k = Some e" using assms by (auto simp: act_def bind_eq_Some_conv)
  have *: "leaves r (Some (mv, r')) \<or> start_fork e r = Some (mv, r')"
  proof (cases "action e")
    case act_cfork
    then show ?thesis using assms e
      by (auto simp: act_def cfork_def bind_eq_Some_conv split: if_splits) (metis leaves_cfork_empty)+
  next
    case act_merge_cfork
    then show ?thesis using assms e
      by (auto simp: act_def merge_cfork_def bind_eq_Some_conv split: if_splits) (metis leaves_merge_back)+
  qed (use assms e leaves_cjump [of r E e u] leaves_merge_jump [of r E e u] leaves_jump [of r E k e u] leaves_merge [of r e]
       in \<open>auto simp: act_def\<close>)
  then show "frame r r'" by (auto simp: leaves_def dest: start_fork_frame(1))
  show "are_dummies ds r'" if "keys_distinct r" "mv = Branch ds"
    using * that start_fork_frame(1) [of e r mv r'] start_fork_frame(2) [of e r mv r' ds] by (auto simp: leaves_def)
qed

lemma reset_flags_frame:
  assumes "reset_flags ds r = Some r'" "are_dummies ds r"
  shows "frame r r'"
  using assms unfolding reset_flags_def
proof (induction ds arbitrary: r)
  case (Cons k ds)
  from Cons.prems(2) obtain e where e: "entry_at r k = Some e" "b_type e = t_fork_dummy" by (auto simp: are_dummies_def)
  let ?r = "set_entry k (e\<lparr>bback := Processed False\<rparr>) r"
  have f: "frame r ?r" by (rule set_entry_frame [OF e(1) flag_only_dummy [OF e(2)]])
  have "are_dummies ds r" using Cons.prems(2) by (simp add: are_dummies_def)
  with Cons.prems(1) e(1) have "frame ?r r'" by (intro Cons.IH) (auto intro: frame_dummies [OF f])
  with f show ?case by (rule frame_trans)
qed simp

lemma fork_pop_frame: "fork_pop e ds r = Some r' \<Longrightarrow> are_dummies ds r \<Longrightarrow> frame r r'"
  by (auto simp: fork_pop_def bind_eq_Some_conv intro: frame_trans frame_take_quota dest!: reset_flags_frame pop_buf_frame)

lemma leaves_fork_no_input: "leaves r (fork_no_input e u r)"
  by (auto simp: fork_no_input_def intro!: leaves_bind)

lemma fork_next_frame: "fork_next e u r = Some (Some (mv, r')) \<Longrightarrow> leaves r (Some (mv, r'))"
  using leaves_cfork_empty [of r e u] by (auto simp: fork_next_def bind_eq_Some_conv simp del: leaves_cfork_empty split: if_splits)

lemma fork_turn_frame:
  assumes "fork_turn e u ds i c r = Some (t, r')" "are_dummies ds r"
  shows "frame r r' \<and> (\<forall>mv ds. t = Leave mv \<longrightarrow> mv \<noteq> Branch ds)"
proof (cases "c = 0 \<and> i = length ds \<and> (\<exists>es. those (map (entry_at r) ds) = Some es \<and> list_all processed es)")
  case True
  then obtain r1 nx where r1: "fork_pop e ds r = Some r1" "fork_next e u r1 = Some nx"
    "(t, r') = (case nx of None \<Rightarrow> (Loop 0 (int (length ds)), r1) | Some (mv, r) \<Rightarrow> (Leave mv, r))"
    using assms(1) by (auto simp: fork_turn_def bind_eq_Some_conv)
  have "frame r r1" using r1(1) assms(2) by (rule fork_pop_frame)
  with r1(2,3) fork_next_frame [of e u r1] show ?thesis
    by (cases nx) (auto simp: leaves_def intro: frame_trans)
next
  case False
  then show ?thesis using assms(1) by (auto simp: fork_turn_def bind_eq_Some_conv split: if_splits)
qed

lemma follow_frame:
  assumes "follow run loop (Some (mv, r1)) = Ret (rc, r')" "frame r r1"
    and "\<And>k u. run k u r1 = Ret (rc, r') \<Longrightarrow> frame r1 r'"
    and "\<And>ds. mv = Branch ds \<Longrightarrow> loop ds r1 = Ret (rc, r') \<Longrightarrow> frame r1 r'"
  shows "frame r r'"
  using assms by (cases mv) (auto simp: follow_def intro: frame_trans)

lemma leave_frame:
  assumes "follow run loop x = Ret (rc, r')" "leaves r x"
    and "\<And>k u r1. keys_distinct r1 \<Longrightarrow> run k u r1 = Ret (rc, r') \<Longrightarrow> frame r1 r'" "keys_distinct r"
  shows "frame r r'"
proof -
  obtain mv r1 where x: "x = Some (mv, r1)" using assms(1) by (cases x) (auto simp: follow_def)
  then have "frame r r1" "\<And>ds. mv \<noteq> Branch ds" using assms(2) by (auto simp: leaves_def)
  then show ?thesis using assms(1,3,4) frame_keys unfolding x by (blast intro: follow_frame)
qed

lemma fork_step_frame:
  assumes "fork_step run loop (fork_turn e u ds i c r) = Ret (rc, r')" "are_dummies ds r" "keys_distinct r"
    and run: "\<And>k u r1. keys_distinct r1 \<Longrightarrow> run k u r1 = Ret (rc, r') \<Longrightarrow> frame r1 r'"
    and loop: "\<And>i c r1. keys_distinct r1 \<Longrightarrow> are_dummies ds r1 \<Longrightarrow> loop i c r1 = Ret (rc, r') \<Longrightarrow> frame r1 r'"
  shows "frame r r'"
proof -
  obtain t r1 where t: "fork_turn e u ds i c r = Some (t, r1)"
    using assms(1) by (cases "fork_turn e u ds i c r") (auto simp: fork_step_def)
  note f = fork_turn_frame [OF t assms(2)]
  have k: "keys_distinct r1" "are_dummies ds r1" using f assms(2,3) frame_keys frame_dummies by blast+
  show ?thesis
  proof (cases t)
    case (Loop i' c')
    then show ?thesis using assms(1) t loop [OF k] f frame_trans by (fastforce simp: fork_step_def)
  next
    case (Leave mv)
    then have "follow run (\<lambda>_ _. Crash) (Some (mv, r1)) = Ret (rc, r')" "leaves r (Some (mv, r1))"
      using assms(1) t f by (auto simp: fork_step_def leaves_def)
    then show ?thesis using leave_frame run assms(3) by blast
  qed
qed

lemma run_frames:
  "(runState n E k u r = Ret (rc, r') \<longrightarrow> keys_distinct r \<longrightarrow> frame r r') \<and>
   (fork_loop n E k u ds i c r = Ret (rc, r') \<longrightarrow> keys_distinct r \<longrightarrow> are_dummies ds r \<longrightarrow> frame r r')"
proof (induction n arbitrary: k u r ds i c rc r')
  case (Suc n)
  have run: "keys_distinct r1 \<Longrightarrow> runState n E k u r1 = Ret (rc, r') \<Longrightarrow> frame r1 r'" for k u r1 rc r'
    using Suc by blast
  have loop: "keys_distinct r1 \<Longrightarrow> are_dummies ds r1 \<Longrightarrow> fork_loop n E k u ds i c r1 = Ret (rc, r') \<Longrightarrow> frame r1 r'"
    for k u ds i c r1 rc r' using Suc by blast
  have "frame r r'" if *: "runState (Suc n) E k u r = Ret (rc, r')" and d: "keys_distinct r"
  proof -
    obtain mv r1 where a: "act E k u r = Some (mv, r1)" using * by (cases "act E k u r") (auto simp: follow_def)
    note f = act_frame(1) [OF a] and b = act_frame(2) [OF a d]
    have d1: "keys_distinct r1" using frame_keys [OF f] d by simp
    have g: "follow (\<lambda>k u r. runState n E k u r) (\<lambda>ds r. fork_loop n E k u ds 0 (int (length ds)) r) (Some (mv, r1)) = Ret (rc, r')"
      using * a by simp
    show ?thesis by (rule follow_frame [OF g f run [OF d1] loop [OF d1 b]])
  qed
  moreover have "frame r r'" if *: "fork_loop (Suc n) E k u ds i c r = Ret (rc, r')" and d: "keys_distinct r" "are_dummies ds r"
  proof -
    obtain e where e: "entry_at r k = Some e" using * by (cases "entry_at r k") auto
    show ?thesis
    proof (cases "b_type e = t_source_fork \<and> nTuples r - 1 < 0")
      case True
      then show ?thesis using * e by simp
    next
      case False
      then obtain de where de: "entry_at r (ds ! i) = Some de" and i: "\<not> length ds \<le> i"
        using * e by (cases "entry_at r (ds ! i)") (auto split: if_splits)
      show ?thesis
      proof (cases "processed de")
        case True
        then have "fork_step (\<lambda>k u r. runState n E k u r) (\<lambda>i c r. fork_loop n E k u ds i c r) (fork_turn e u ds (i + 1) (c - 1) r) = Ret (rc, r')"
          using * e de i False by (auto split: if_splits)
        then show ?thesis using d(2,1) run loop by (rule fork_step_frame)
      next
        case np: False
        then obtain rc1 r1 where r1: "runState n E (ds ! i) u r = Ret (rc1, r1)"
          using * e de i False by (cases "runState n E (ds ! i) u r") (auto split: if_splits)
        have f: "frame r r1" using run [OF d(1) r1] .
        have d1: "keys_distinct r1" "are_dummies ds r1" using f d frame_keys frame_dummies by blast+
        have "frame r1 r'"
        proof -
          consider "follow (\<lambda>k u r. runState n E k u r) (\<lambda>_ _. Crash) (fork_no_input e u r1) = Ret (rc, r')" | "r' = r1"
            | "fork_step (\<lambda>k u r. runState n E k u r) (\<lambda>i c r. fork_loop n E k u ds i c r) (fork_turn e u ds (i + 1) (c - 1) r1) = Ret (rc, r')"
            | "fork_loop n E k u ds i c r1 = Ret (rc, r')"
            using * e de r1 np i False by (auto split: if_splits)
          then show ?thesis
          proof cases
            case 1
            then show ?thesis using leaves_fork_no_input run d1(1) by (rule leave_frame)
          next
            case 3
            then show ?thesis using d1(2,1) run loop by (rule fork_step_frame)
          qed (use d1 loop in auto)
        qed
        with f show ?thesis by (rule frame_trans)
      qed
    qed
  qed
  ultimately show ?case by blast
qed simp

lemmas runState_frame = run_frames [THEN conjunct1, rule_format]

lemma run_loop_frame: "run_loop n E i j st l r = Ret (rc, l', r') \<Longrightarrow> keys_distinct r \<Longrightarrow> frame r r'"
proof (induction n arbitrary: i j st l r)
  case (Suc n)
  show ?case
  proof (cases "i = j \<and> \<not> st")
    case True
    then show ?thesis using Suc.prems(1) by simp
  next
    case False
    then have i: "i < length (rtbl r)" using Suc.prems(1) by (auto split: if_splits)
    obtain k e where ke: "rtbl r ! i = (k, e)" by force
    have "frame r r'" if "runState n E k False r = Ret (rc1, r1)" "run_loop n E i2 j2 False l2 r1 = Ret (rc, l', r')" for rc1 r1 i2 j2 l2
      using that Suc.IH Suc.prems(2) frame_keys frame_trans runState_frame by blast
    then show ?thesis
      using Suc.prems i ke False Suc.IH runState_frame
      by (auto simp: Let_def split: if_splits option.splits bool.splits outcome.splits)
  qed
qed simp

text \<open>The graph of a table only depends on what a run keeps.\<close>

definition map_flags :: "(string \<rightharpoonup> b_entry) \<Rightarrow> (string \<rightharpoonup> b_entry) \<Rightarrow> bool" where
  "map_flags m m' \<longleftrightarrow> (\<forall>k. rel_option flag_only (m k) (m' k))"

lemma flag_only_same:
  assumes "flag_only e e'"
  shows "b_type e' = b_type e" "statement e' = statement e" "ebuf e' = ebuf e" "inplace e' = inplace e"
    "forward e' = forward e" "action e' = action e" "b_type e \<noteq> t_fork_dummy \<Longrightarrow> e' = e"
  using assms by (auto simp: flag_only_def)

lemma map_flagsD: "map_flags m m' \<Longrightarrow> m' k = Some e' \<Longrightarrow> \<exists>e. m k = Some e \<and> flag_only e e'"
  unfolding map_flags_def by (metis option_rel_Some2)

lemma map_flagsD2: "map_flags m m' \<Longrightarrow> m k = Some e \<Longrightarrow> \<exists>e'. m' k = Some e' \<and> flag_only e e'"
  unfolding map_flags_def by (metis option_rel_Some1)

lemma map_flags_cases:
  assumes "map_flags m m'"
  obtains "m k = None" "m' k = None" | e e' where "m k = Some e" "m' k = Some e'" "flag_only e e'"
  using assms unfolding map_flags_def by (metis option.rel_cases)

lemma map_flags_dset: 
  assumes "map_flags m m'"
  shows "dset m' k = dset m k"
proof -
  have "x \<in> dset m' k \<longleftrightarrow> x \<in> dset m k" for x
    by (rule map_flags_cases [OF assms, of x]) (auto simp: dset_def flag_only_same)
  then show ?thesis by blast
qed

lemma map_flags_edges:
  assumes "map_flags m m'"
  shows "edges m' = edges m"
proof -
  have "(\<exists>e. m' k = Some e \<and> x \<in> edge_of e) \<longleftrightarrow> (\<exists>e. m k = Some e \<and> x \<in> edge_of e)" for k x
  proof (rule map_flags_cases [OF assms, of k])
    fix e e' assume m: "m k = Some e" "m' k = Some e'" "flag_only e e'"
    have "edge_of e' = edge_of e" using flag_only_same [OF m(3)] by (intro edge_of_cong) simp_all
    then show ?thesis using m by simp
  qed simp
  then show ?thesis unfolding set_eq_iff in_edges by blast
qed

lemma map_flags_dom: "map_flags m m' \<Longrightarrow> dom m' = dom m"
  by (auto dest: map_flagsD map_flagsD2)

lemma map_flags_type:
  assumes "map_flags m m'" "\<exists>e. m k = Some e \<and> P (b_type e)"
  shows "\<exists>e. m' k = Some e \<and> P (b_type e)"
  using assms map_flagsD2 flag_only_same(1) by metis

lemma map_flags_graph:
  assumes f: "map_flags m m'" and ok: "graph_ok N bn m pend"
  shows "graph_ok N bn m' pend"
proof -
  have "entry_ok e' \<and> key_ok N bn m' k e' \<and> links_ok m' pend k e'" if k: "m' k = Some e'" for k e'
  proof -
    obtain e where e: "m k = Some e" "flag_only e e'" using map_flagsD [OF f k] by blast
    note D = graph_okD [OF ok e(1)] and S = flag_only_same [OF e(2)]
    have dom: "m x \<noteq> None \<Longrightarrow> m' x \<noteq> None" for x using map_flags_dom [OF f] by auto
    have "entry_ok e'"
    proof (cases "e' = e")
      case False
      then show ?thesis using D(1) e(2) by (auto simp: flag_only_def entry_ok_def split: fw_entry.splits option.splits)
    qed (use D in simp)
    moreover have "key_ok N bn m' k e'"
      using D(2) map_flags_type [OF f, where P = is_fork] by (auto simp: key_ok_def S)
    moreover have "links_ok m' pend k e'"
    proof -
      have "bback e' = BackBuf (Some x) \<Longrightarrow> m' x \<noteq> None" for x
        using D(3) dom e(2) by (cases "e' = e") (auto simp: links_ok_def flag_only_def)
      then show ?thesis using D(3) map_flags_type [OF f, where P = is_target]
        unfolding links_ok_def S map_flags_dset [OF f] by blast
    qed
    ultimately show ?thesis by blast
  qed
  then show ?thesis using ok map_flags_dom [OF f] by (simp add: graph_ok_def)
qed

lemma frame_map_flags: "frame r r' \<Longrightarrow> map_flags (map_of (rtbl r)) (map_of (rtbl r'))"
  using frame_entry by (auto simp: map_flags_def entry_at_def)

text \<open>
  C2: Whatever the compiled functions of the statements do and however long it takes, a run of the
  driver that returns has not changed the query graph: the invariant of the state table and its
  edges are as before, only flags of fork dummies and the fields \<open>in\<close> and \<open>back_buf\<close> of
  statements differ, and the quota has not grown beyond the one it was started with.
\<close>

theorem run_keeps_graph:
  assumes "Driver_run n E d r = Ret (rc, l, r')" "distinct (map fst (rtbl r))" "graph_ok N bn (map_of (rtbl r)) {}"
  shows "graph_ok N bn (map_of (rtbl r')) {} \<and> edges (map_of (rtbl r')) = edges (map_of (rtbl r)) \<and>
    alist_all2 flag_only (rtbl r) (rtbl r') \<and> alist_all2 stmt_frame (rstmts r) (rstmts r') \<and>
    nTuples r' \<le> (if nTuples r = 0 then priority d else nTuples r)"
proof -
  let ?r = "if nTuples r = 0 then r\<lparr>nTuples := priority d\<rparr> else r"
  have f: "frame ?r r'" using assms(1,2) by (intro run_loop_frame) (auto simp: Driver_run_def Let_def keys_distinct_def)
  have t: "rtbl ?r = rtbl r" "rstmts ?r = rstmts r" "nTuples ?r = (if nTuples r = 0 then priority d else nTuples r)" by simp_all
  have m: "map_flags (map_of (rtbl r)) (map_of (rtbl r'))" using frame_map_flags [OF f] unfolding t .
  show ?thesis
    using f map_flags_graph [OF m assms(3)] map_flags_edges [OF m] unfolding frame_def t by blast
qed

end
