(* ===== verification/DriverLive.thy ===== *)
theory DriverLive
  imports DriverRun
begin

text \<open>
  Progress of \<open>runState\<close>: a query of one statement moves every tuple the quota allows through the
  function compiled for it; and two situations in which the machine does not make the progress it
  is meant to: a quota that runs out before a fork, and one that runs out between two statements.
\<close>

section \<open>A query of one statement\<close>

text \<open>
  What the compiled function of a statement promises: called with a tuple on its input it appends
  the tuples \<open>g\<close> computes for it to the output, leaves the tuple on the input for the driver to
  pop, touches no other part of the buffers' administration and reports whether there was output.
\<close>

definition computes :: "'q qenv_scheme \<Rightarrow> nat \<Rightarrow> bptr \<Rightarrow> bptr \<Rightarrow> (tuple \<Rightarrow> tuple list) \<Rightarrow> world \<Rightarrow> bool" where
  "computes E f b ot g w0 \<longleftrightarrow>
     (\<forall>w x q. same_shape w0 w \<longrightarrow> world_ok w \<longrightarrow> contents w b = x # q \<longrightarrow>
        (\<exists>rc w'. env_func E f w 0 None = (rc, w') \<and> (if g x = [] then rc = s_no_output else rc > 0) \<and>
           world_ok w' \<and> same_shape w w' \<and> contents w' b = contents w b \<and> contents w' ot = contents w ot @ g x))"

definition source_stmt ::
  "string \<Rightarrow> string \<Rightarrow> sptr \<Rightarrow> nat \<Rightarrow> bptr \<Rightarrow> bptr \<Rightarrow> world \<Rightarrow> rst \<Rightarrow> bool" where
  "source_stmt k out p f b ot w0 r \<longleftrightarrow>
     entry_at r k = Some (source_entry p b k out) \<and> entry_at r out \<noteq> None \<and>
     (\<exists>s. map_of (rstmts r) p = Some s \<and> stype s = stmt_normal \<and> func s = Some f) \<and>
     same_shape w0 (rworld r) \<and> world_ok (rworld r) \<and> is_queue w0 b \<and> b \<noteq> ot"

definition pipeline ::
  "string \<Rightarrow> string \<Rightarrow> sptr \<Rightarrow> nat \<Rightarrow> bptr \<Rightarrow> bptr \<Rightarrow> world \<Rightarrow> rst \<Rightarrow> bool" where
  "pipeline k out p f b ot w0 r \<longleftrightarrow>
     source_stmt k out p f b ot w0 r \<and> map_option b_type (entry_at r out) = Some t_sink"

lemma source_step:
  assumes P: "source_stmt k out p f b ot w0 r" and C: "computes E f b ot g w0"
    and c: "contents (rworld r) b = x # q" and n: "0 < nTuples r" and oe: "entry_at r out = Some oe"
  shows "\<exists>r'. act E k u r = Some (Goto (if g x \<noteq> [] \<and> b_type oe \<noteq> t_sink then out else k) u, r') \<and>
    source_stmt k out p f b ot w0 r' \<and> rtbl r' = rtbl r \<and> nTuples r' = nTuples r - 1 \<and>
    contents (rworld r') b = q \<and> contents (rworld r') ot = contents (rworld r) ot @ g x"
proof -
  obtain s where s: "map_of (rstmts r) p = Some s" "stype s = stmt_normal" "func s = Some f"
    and w: "same_shape w0 (rworld r)" "world_ok (rworld r)" "is_queue w0 b" "b \<noteq> ot"
    and e: "entry_at r k = Some (source_entry p b k out)"
    using P by (auto simp: source_stmt_def)
  have em: "buf_empty b (rworld r) = Some False"
    using buf_empty_contents [OF w(2), of b] w(1,3) c by (simp add: same_shape_queue)
  obtain rc w1 where 1: "env_func E f (rworld r) 0 None = (rc, w1)" "if g x = [] then rc = s_no_output else rc > 0" "world_ok w1"
    "same_shape (rworld r) w1" "contents w1 b = x # q" "contents w1 ot = contents (rworld r) ot @ g x"
    using C w c unfolding computes_def by metis
  obtain w2 where 2: "buf_pop b w1 = Some (0, w2)" "world_ok w2" "same_shape w1 w2" "contents w2 b = q"
    "contents w2 ot = contents w1 ot" using buf_pop_effect [OF 1(3,5)] w(4) by metis
  let ?r = "take_quota (r\<lparr>rstmts := AList.update p s (rstmts r), rworld := w2\<rparr>)"
  have "rc > 0 \<or> rc = s_no_output" using 1(2) by (auto split: if_splits)
  then have "act E k u r = Some (Goto (if g x \<noteq> [] \<and> b_type oe \<noteq> t_sink then out else k) u, ?r)"
    using s e n em 1(1,2) 2(1) oe
    by (auto simp: act_def cjump_def execute_def exec_stmt_def stmt_exe_def nStmt_exe_def multi_input_def is_union_def
        pop_buf_def move_on_def call_def source_entry_def forward_buf_def entry_at_def take_quota_def s_no_output_def)
  moreover have "source_stmt k out p f b ot w0 ?r"
    using P s 1(4) 2(2,3) w by (auto simp: source_stmt_def take_quota_def entry_at_def intro: same_shape_trans)
  moreover have "nTuples ?r = nTuples r - 1" "rworld ?r = w2" "rtbl ?r = rtbl r" by (simp_all add: take_quota_def)
  ultimately show ?thesis using 1(6) 2(4,5) by auto
qed

lemma pipeline_empty:
  assumes "pipeline k out p f b ot w0 r" "contents (rworld r) b = [] \<or> nTuples r \<le> 0"
  shows "act E k u r = Some (Done run_success, r)"
proof -
  have "buf_empty b (rworld r) = Some (contents (rworld r) b = [])"
    using assms(1) by (intro buf_empty_contents) (auto simp: pipeline_def source_stmt_def same_shape_queue)
  then show ?thesis using assms by (auto simp: pipeline_def source_stmt_def act_def cjump_def source_entry_def)
qed

lemma pipeline_step:
  assumes P: "pipeline k out p f b ot w0 r" and C: "computes E f b ot g w0"
    and c: "contents (rworld r) b = x # q" and n: "0 < nTuples r"
  shows "\<exists>r'. act E k u r = Some (Goto k u, r') \<and> pipeline k out p f b ot w0 r' \<and> nTuples r' = nTuples r - 1 \<and>
    contents (rworld r') b = q \<and> contents (rworld r') ot = contents (rworld r) ot @ g x"
proof -
  obtain oe where oe: "entry_at r out = Some oe" "b_type oe = t_sink" and S: "source_stmt k out p f b ot w0 r"
    using P by (auto simp: pipeline_def)
  from source_step [OF S C c n oe(1), of u] oe show ?thesis by (auto simp: pipeline_def entry_at_def)
qed

text \<open>The number of tuples a run can take.\<close>

definition run_len :: "bptr \<Rightarrow> rst \<Rightarrow> nat" where
  "run_len b r = min (nat (nTuples r)) (length (contents (rworld r) b))"

lemma pipeline_runs:
  assumes "pipeline k out p f b ot w0 r" "computes E f b ot g w0" "run_len b r < n"
  shows "\<exists>r'. runState n E k u r = Ret (run_success, r') \<and> pipeline k out p f b ot w0 r' \<and>
    nTuples r' = nTuples r - int (run_len b r) \<and>
    contents (rworld r') b = drop (run_len b r) (contents (rworld r) b) \<and>
    contents (rworld r') ot = contents (rworld r) ot @ concat (map g (take (run_len b r) (contents (rworld r) b)))"
  using assms
proof (induction n arbitrary: r)
  case (Suc n)
  show ?case
  proof (cases "contents (rworld r) b = [] \<or> nTuples r \<le> 0")
    case True
    then have "run_len b r = 0" by (auto simp: run_len_def)
    with pipeline_empty [OF Suc.prems(1) True, of E u] Suc.prems(1) show ?thesis by (simp add: follow_def)
  next
    case False
    then obtain x q where c: "contents (rworld r) b = x # q" by (cases "contents (rworld r) b") auto
    from pipeline_step [OF Suc.prems(1,2) c, of u] False obtain r1 where 1: "act E k u r = Some (Goto k u, r1)"
      "pipeline k out p f b ot w0 r1" "nTuples r1 = nTuples r - 1" "contents (rworld r1) b = q"
      "contents (rworld r1) ot = contents (rworld r) ot @ g x" by auto
    have l: "run_len b r = Suc (run_len b r1)" using False 1(3,4) c by (auto simp: run_len_def min_def nat_diff_distrib' split: if_splits)
    from Suc.IH [OF 1(2) Suc.prems(2)] Suc.prems(3) l obtain r' where
      "runState n E k u r1 = Ret (run_success, r')" "pipeline k out p f b ot w0 r'"
      "nTuples r' = nTuples r1 - int (run_len b r1)" "contents (rworld r') b = drop (run_len b r1) (contents (rworld r1) b)"
      "contents (rworld r') ot = contents (rworld r1) ot @ concat (map g (take (run_len b r1) (contents (rworld r1) b)))"
      by auto
    then show ?thesis using 1 c l by (simp add: follow_def)
  qed
qed simp

text \<open>The loop over the sources of a driver with this one statement.\<close>

definition one_stmt :: "string \<Rightarrow> string \<Rightarrow> sptr \<Rightarrow> bptr \<Rightarrow> bptr \<Rightarrow> rst \<Rightarrow> bool" where
  "one_stmt k out p b ot r \<longleftrightarrow>
     rtbl r = [(k, source_entry p b k out), (out, sink_entry ot k)] \<and> k \<noteq> out \<and> buf_name (rworld r) b = Some k"

lemma flag_only_source: "flag_only (source_entry p b k out) e \<longleftrightarrow> e = source_entry p b k out"
  and flag_only_sink: "flag_only (sink_entry ot k) e \<longleftrightarrow> e = sink_entry ot k"
  by (auto simp: flag_only_def source_entry_def sink_entry_def)

lemma one_stmt_frame:
  assumes "one_stmt k out p b ot r" "frame r r'" "same_shape (rworld r) (rworld r')"
  shows "one_stmt k out p b ot r'"
proof -
  have "rtbl r' = rtbl r"
    using assms(1,2) by (auto simp: one_stmt_def frame_def alist_all2_def list_all2_Cons1 flag_only_source flag_only_sink)
  moreover have "map_option (\<lambda>ob. (obj_base ob, obj_kind ob)) (map_of (bufs (rworld r')) b) =
      map_option (\<lambda>ob. (obj_base ob, obj_kind ob)) (map_of (bufs (rworld r)) b)"
    using assms(3) unfolding same_shape_def by blast
  then have "buf_name (rworld r') b = buf_name (rworld r) b"
    unfolding buf_name_def by (cases "map_of (bufs (rworld r')) b"; cases "map_of (bufs (rworld r)) b") auto
  ultimately show ?thesis using assms(1) by (simp add: one_stmt_def)
qed

lemma run_loop_rest:
  assumes "one_stmt k out p b ot r"
  shows "run_loop (Suc (Suc n)) E 1 0 False l r = Ret (run_success, l, r)"
  using assms by (simp add: one_stmt_def sink_entry_def)

lemma pipeline_loop:
  assumes O: "one_stmt k out p b ot r" and P: "pipeline k out p f b ot w0 r" "computes E f b ot g w0"
    and n: "run_len b r + 2 < n" and q: "0 < nTuples r" and st: "j = 0 \<and> st \<or> j = 1"
  shows "\<exists>l' r'. run_loop (Suc n) E 0 j st l r = Ret (run_success, l', r') \<and>
    nTuples r' = nTuples r - int (run_len b r) \<and>
    contents (rworld r') b = drop (run_len b r) (contents (rworld r) b) \<and>
    contents (rworld r') ot = contents (rworld r) ot @ concat (map g (take (run_len b r) (contents (rworld r) b)))"
proof -
  obtain n' where n': "n = Suc (Suc n')" using n by (cases n; cases "n - 1") auto
  have em: "buf_empty b (rworld r) = Some (contents (rworld r) b = [])"
    using P(1) by (intro buf_empty_contents) (auto simp: pipeline_def source_stmt_def same_shape_queue)
  have nm: "name_at r (Some b) = Some k" using O by (simp add: one_stmt_def name_at_def)
  have st': "\<not> (0 = j \<and> \<not> st)" using st by auto
  have ne: "rtbl r ! 0 = (k, source_entry p b k out)" "length (rtbl r) = 2" using O by (auto simp: one_stmt_def)
  have loop: "run_loop (Suc n) E 0 j st l r =
      (if contents (rworld r) b = [] then run_loop n E 1 j False l r
       else case runState n E k False r of Crash \<Rightarrow> Crash | NoFuel \<Rightarrow> NoFuel
         | Ret (rc, r) \<Rightarrow> if rc = run_success \<and> nTuples r \<le> 0 then Ret (run_success, k, r)
            else if rc = run_failure then Ret (rc, k, r) else run_loop n E 1 0 False k r)"
    unfolding run_loop.simps(2) if_not_P [OF st'] using ne em nm by (simp add: source_entry_def del: One_nat_def)
  show ?thesis
  proof (cases "contents (rworld r) b = []")
    case True
    then have "run_loop n E 1 j False l r = Ret (run_success, l, r)"
      using run_loop_rest [OF O] st by (auto simp: n' simp del: run_loop.simps(2)) (simp add: n')
    then show ?thesis using loop True by (simp add: run_len_def)
  next
    case False
    from pipeline_runs [OF P, of n False] n obtain r' where r': "runState n E k False r = Ret (run_success, r')"
      "pipeline k out p f b ot w0 r'" "nTuples r' = nTuples r - int (run_len b r)"
      "contents (rworld r') b = drop (run_len b r) (contents (rworld r) b)"
      "contents (rworld r') ot = contents (rworld r) ot @ concat (map g (take (run_len b r) (contents (rworld r) b)))" by auto
    have d: "keys_distinct r" using O by (auto simp: one_stmt_def keys_distinct_def)
    have "same_shape w0 (rworld r)" "same_shape w0 (rworld r')" using P(1) r'(2) by (auto simp: pipeline_def source_stmt_def)
    then have "same_shape (rworld r) (rworld r')" by (simp add: same_shape_def)
    then have "one_stmt k out p b ot r'" using one_stmt_frame [OF O runState_frame [OF r'(1) d]] by blast
    from run_loop_rest [OF this] have "run_loop n E 1 0 False k r' = Ret (run_success, k, r')" by (simp add: n' del: run_loop.simps(2))
    then show ?thesis using loop r' False by auto
  qed
qed

lemma driver_drains:
  assumes "one_stmt k out p b ot r" "pipeline k out p f b ot w0 r" "computes E f b ot g w0"
    and "0 < nTuples r" and "run_len b r + 4 < n"
  shows "\<exists>l' r'. Driver_run n E d r = Ret (run_success, l', r') \<and>
    nTuples r' = nTuples r - int (run_len b r) \<and>
    contents (rworld r') b = drop (run_len b r) (contents (rworld r) b) \<and>
    contents (rworld r') ot = contents (rworld r) ot @ concat (map g (take (run_len b r) (contents (rworld r) b)))"
proof -
  obtain m where m: "n = Suc (Suc m)" "run_len b r + 2 < m" using assms(5) by (cases n; cases "n - 1") auto
  have t: "rtbl r = [(k, source_entry p b k out), (out, sink_entry ot k)]" using assms(1) by (simp add: one_stmt_def)
  have "run_start (last_run_name d) (rtbl r) = 0 \<or> run_start (last_run_name d) (rtbl r) = 1"
    unfolding run_start_def t by (simp add: Let_def)
  then show ?thesis
  proof
    assume 1: "run_start (last_run_name d) (rtbl r) = 0"
    have "run_len b r + 2 < Suc m" using m(2) by simp
    from pipeline_loop [OF assms(1-3) this assms(4), of 0 True "last_run_name d"] 1 assms(4) show ?thesis
      by (simp add: Driver_run_def m(1) del: run_loop.simps)
  next
    assume 2: "run_start (last_run_name d) (rtbl r) = 1"
    have "run_loop n E 1 1 True (last_run_name d) r = run_loop (Suc m) E 0 1 False (last_run_name d) r"
      by (simp add: m(1) t sink_entry_def del: run_loop.simps) (simp add: t sink_entry_def)
    with pipeline_loop [OF assms(1-3) m(2) assms(4), of 1 False "last_run_name d"] 2 assms(4) show ?thesis
      by (simp add: Driver_run_def del: run_loop.simps)
  qed
qed

text \<open>
  C3: A driver with one statement makes progress: \<open>Driver::run\<close> returns, has taken as many tuples
  off the source as the quota allows and there are, has charged exactly those to the quota, and
  has appended to the output what the compiled function computes for them, in order.
\<close>

theorem driver_drains_source:
  assumes "one_stmt k out p b ot r" "pipeline k out p f b ot w0 r" "computes E f b ot g w0"
    and "0 < nTuples r" and "run_len b r + 4 < n"
  shows "\<exists>l' r'. Driver_run n E d r = Ret (run_success, l', r') \<and>
    nTuples r' = nTuples r - int (run_len b r) \<and>
    contents (rworld r') b = drop (run_len b r) (contents (rworld r) b) \<and>
    contents (rworld r') ot = contents (rworld r) ot @ concat (map g (take (run_len b r) (contents (rworld r) b)))"
  using assms by (rule driver_drains)

text \<open>A statement that copies its input.\<close>

definition copy_func :: "nat \<Rightarrow> world \<Rightarrow> int \<Rightarrow> bptr option \<Rightarrow> int \<times> world" where
  "copy_func f w v bb =
     (case map_of (bufs w) 1 of
        Some (CommonBuf b (h # _)) \<Rightarrow>
          (case buf_put bump_env 3 h w of Some (rc, w') \<Rightarrow> (s_success, w') | None \<Rightarrow> (s_failure, w))
      | _ \<Rightarrow> (s_no_input, w))"

definition copy_qenv :: qenv where
  "copy_qenv = demo_qenv\<lparr>env_func := copy_func\<rparr>"

lemma copy_computes: "computes copy_qenv f 1 3 (\<lambda>x. [x]) demo_inputs"
  unfolding computes_def
proof (intro allI impI)
  fix w x q assume w: "same_shape demo_inputs w" "world_ok w" and c: "contents w 1 = x # q"
  have "map_option (\<lambda>ob. (obj_base ob, obj_kind ob)) (map_of (bufs w) 1) = Some (buffer_init ''a'' NOT_SHARED, 0)"
    using w(1) by (simp add: same_shape_def demo_inputs_def)
  then obtain ob where ob: "map_of (bufs w) 1 = Some ob" "obj_base ob = buffer_init ''a'' NOT_SHARED" "obj_kind ob = 0" by auto
  then obtain l where l: "map_of (bufs w) 1 = Some (CommonBuf (buffer_init ''a'' NOT_SHARED) l)" by (cases ob) auto
  moreover have "obj_ok (pool w) (CommonBuf (buffer_init ''a'' NOT_SHARED) l)" using w(2) l unfolding world_ok_def by blast
  ultimately obtain h t where h: "l = h # t" "dbt_ok h" "view h = x"
    using c by (cases l) (auto simp: contents_def commonBuf_contents_def commonBuf_inv_def)
  have q3: "is_queue w 3" using same_shape_queue [OF w(1), of 3] by (simp add: is_queue_def demo_inputs_def)
  obtain w' where p: "buf_put bump_env 3 h w = Some (0, w')"
    using buf_put_served [OF w(2) bump_env_law bump_env_serves h(2) q3] by blast
  have "env_func copy_qenv f w 0 None = (s_success, w')"
    using l h(1) p by (simp add: copy_qenv_def copy_func_def)
  then show "\<exists>rc w'. env_func copy_qenv f w 0 None = (rc, w') \<and> (if [x] = [] then rc = s_no_output else rc > 0) \<and> world_ok w' \<and> same_shape w w' \<and>
      contents w' 1 = contents w 1 \<and> contents w' 3 = contents w 3 @ [x]"
    using buf_put_effect [OF w(2) bump_env_law h(2) p] q3 h(3) by (auto simp: s_success_def)
qed

definition copy_rst :: rst where
  "copy_rst = \<lparr>rtbl = [(''a'', source_entry 7 1 ''a'' ''o''), (''o'', sink_entry 3 ''a'')],
     rstmts = [(7, (stmt_init stmt_normal ''p'' False)\<lparr>sin := Some 1, sout := Some 3, func := Some 0\<rparr>)],
     rworld = demo_inputs, nTuples = 5\<rparr>"

lemma copy_rst_ok:
  "one_stmt ''a'' ''o'' 7 1 3 copy_rst" "pipeline ''a'' ''o'' 7 0 1 3 demo_inputs copy_rst" "run_len 1 copy_rst = 2" "nTuples copy_rst = 5"
proof -
  show "one_stmt ''a'' ''o'' 7 1 3 copy_rst"
    by (simp add: one_stmt_def copy_rst_def buf_name_def demo_inputs_def buffer_init_def)
  show "pipeline ''a'' ''o'' 7 0 1 3 demo_inputs copy_rst"
    by (simp add: pipeline_def source_stmt_def copy_rst_def entry_at_def sink_entry_def stmt_init_def demo_inputs_ok is_queue_def)
      (simp add: demo_inputs_def)
  show "run_len 1 copy_rst = 2" by (simp add: run_len_def copy_rst_def demo_inputs_contents del: One_nat_def)
qed (simp add: copy_rst_def)

lemma driver_drains_source_witness:
  "\<exists>l' r'. Driver_run 7 copy_qenv (Driver_init False 0) copy_rst = Ret (run_success, l', r') \<and> nTuples r' = 3 \<and>
     contents (rworld r') 1 = [] \<and> contents (rworld r') 3 = [view (demo_dbt CHR ''x'' 1), view (demo_dbt CHR ''z'' 3)]"
  using driver_drains_source [OF copy_rst_ok(1,2) copy_computes, of 7 "Driver_init False 0"] copy_rst_ok(3,4)
  by (simp add: copy_rst_def demo_inputs_contents del: One_nat_def)

lemma run_keeps_graph_witness:
  "\<exists>l r'. Driver_run 7 copy_qenv (Driver_init False 0) copy_rst = Ret (run_success, l, r') \<and>
     graph_ok {''a'', ''o''} (buf_name demo_inputs) (map_of (rtbl r')) {} \<and> edges (map_of (rtbl r')) = {(''a'', 7, ''o'')}"
proof -
  obtain l r' where r: "Driver_run 7 copy_qenv (Driver_init False 0) copy_rst = Ret (run_success, l, r')"
    using driver_drains [OF copy_rst_ok(1,2) copy_computes, of 7 "Driver_init False 0"] copy_rst_ok(3,4) by auto
  let ?m = "map_of (rtbl copy_rst)"
  have m: "?m = [''a'' \<mapsto> source_entry 7 1 ''a'' ''o'', ''o'' \<mapsto> sink_entry 3 ''a'']"
    by (auto simp: copy_rst_def fun_eq_iff)
  have "graph_ok {''a'', ''o''} (buf_name demo_inputs) ?m {}"
    unfolding m by (auto simp: graph_ok_def entry_ok_def key_ok_def links_ok_def source_entry_def sink_entry_def ty_defs buf_name_def
        demo_inputs_def buffer_init_def split: if_splits)
  moreover have "edges ?m = {(''a'', 7, ''o'')}"
    unfolding m by (auto simp: in_edges edge_of_def source_entry_def sink_entry_def split: if_splits)
  moreover have "distinct (map fst (rtbl copy_rst))" by (simp add: copy_rst_def)
  ultimately show ?thesis using run_keeps_graph [OF r] r by blast
qed

section \<open>A quota that runs out before a fork\<close>

text \<open>
  A non-source fork does not look at the quota, but each of its branches returns at once when the
  quota is used up, without being marked as processed: the loop calls the first one for ever.
\<close>

definition stuck_fork :: "string \<Rightarrow> string list \<Rightarrow> rst \<Rightarrow> bool" where
  "stuck_fork k ds r \<longleftrightarrow>
     (\<exists>e b d de. entry_at r k = Some e \<and> b_type e = t_fork \<and> action e = act_cfork \<and>
        ebuf e = Some b \<and> buf_empty b (rworld r) = Some False \<and> start_fork e r = Some (Branch ds, r) \<and>
        ds \<noteq> [] \<and> d = hd ds \<and> entry_at r d = Some de \<and> b_type de = t_fork_dummy \<and> action de = act_jump \<and>
        \<not> processed de) \<and> nTuples r \<le> 0"

lemma stuck_fork_branch:
  assumes "stuck_fork k ds r"
  shows "runState n E (ds ! 0) u r = (if n = 0 then NoFuel else Ret (run_success, r))"
  using assms by (cases n) (auto simp: stuck_fork_def hd_conv_nth act_def jump_def follow_def)

lemma stuck_fork_loop:
  assumes "stuck_fork k ds r"
  shows "fork_loop n E k u ds 0 (int (length ds)) r = NoFuel"
proof (induction n)
  case (Suc n)
  obtain e de where e: "entry_at r k = Some e" "b_type e = t_fork" "ds \<noteq> []" "entry_at r (ds ! 0) = Some de" "\<not> processed de"
    using assms by (auto simp: stuck_fork_def hd_conv_nth)
  then show ?case using Suc stuck_fork_branch [OF assms, of n E u] by simp
qed simp

text \<open>
  C26: When the quota is used up and the machine is at a fork that is not a source and still holds
  a tuple, \<open>runState\<close> does not return, however long it runs.
\<close>

theorem fork_without_quota_hangs:
  assumes "stuck_fork k ds r"
  shows "runState n E k u r = NoFuel"
proof (cases n)
  case (Suc m)
  have "act E k u r = Some (Branch ds, r)" using assms by (auto simp: stuck_fork_def act_def cfork_def)
  then show ?thesis using stuck_fork_loop [OF assms] by (simp add: Suc follow_def)
qed simp

text \<open>A query that gets there: \<open>a\<close> is read into \<open>b\<close>, which two statements read.\<close>

definition fork_rst :: "int \<Rightarrow> rst" where
  "fork_rst q = \<lparr>rtbl =
       [(''b'', \<lparr>b_type = t_fork, statement = Some 8, ebuf = Some 2, bback = BackBuf (Some ''a''), inplace = Some ''b'',
                forward = ForkCount 2, action = act_cfork\<rparr>),
        (''bc'', dummy_entry (Some 8) ''b'' ''c''), (''bd'', dummy_entry (Some 9) ''b'' ''d'')],
     rstmts = [], rworld = demo_inputs, nTuples = q\<rparr>"

lemma fork_without_quota_hangs_witness:
  "stuck_fork ''b'' [''bc'', ''bd''] (fork_rst 0) \<and> (\<forall>n. runState n demo_qenv ''b'' False (fork_rst 0) = NoFuel)"
proof -
  have "buf_empty 2 demo_inputs = Some False"
    by (simp add: buf_empty_def buf_empty_rc_def demo_inputs_def commonBuf_empty_def)
  then have s: "stuck_fork ''b'' [''bc'', ''bd''] (fork_rst 0)"
    by (simp add: stuck_fork_def fork_rst_def entry_at_def start_fork_def name_at_def buf_name_def
        dummies_of_def dummy_entry_def processed_def guard_def Let_def) (simp add: demo_inputs_def buffer_init_def)
  with fork_without_quota_hangs [OF s] show ?thesis by blast
qed

section \<open>A quota that runs out between two statements\<close>

lemma stranded:
  assumes S: "source_stmt k out p f b ot w0 r" "computes E f b ot g w0"
    and c: "contents (rworld r) b = x # q" "g x \<noteq> []" and n: "nTuples r = 1"
    and e: "entry_at r out = Some e'" "action e' = act_cjump" "b_type e' = t_normal"
  shows "\<exists>r'. runState (Suc (Suc n)) E k u r = Ret (run_success, r') \<and> nTuples r' = 0 \<and> rtbl r' = rtbl r \<and>
    contents (rworld r') b = q \<and> contents (rworld r') ot = contents (rworld r) ot @ g x"
proof -
  from source_step [OF S c(1) _ e(1), of u] n c(2) e(3) obtain r' where r': "act E k u r = Some (Goto out u, r')"
    "rtbl r' = rtbl r" "nTuples r' = 0" "contents (rworld r') b = q" "contents (rworld r') ot = contents (rworld r) ot @ g x"
    by auto
  have "act E out u r' = Some (Done run_success, r')" using r'(2,3) e by (simp add: act_def entry_at_def cjump_def)
  then show ?thesis using r' by (simp add: follow_def)
qed

text \<open>
  C27: When the source takes the last tuple of the quota and its statement produces tuples for a
  buffer that another statement reads, \<open>runState\<close> returns success at once: the tuples produced
  stay in that buffer and no later statement has run.
\<close>

theorem last_tuple_is_stranded:
  assumes "source_stmt k out p f b ot w0 r" "computes E f b ot g w0"
    and "contents (rworld r) b = x # q" "g x \<noteq> []" and "nTuples r = 1"
    and "entry_at r out = Some e'" "action e' = act_cjump" "b_type e' = t_normal"
  shows "\<exists>r'. runState (Suc (Suc n)) E k u r = Ret (run_success, r') \<and> nTuples r' = 0 \<and> rtbl r' = rtbl r \<and>
    contents (rworld r') b = q \<and> contents (rworld r') ot = contents (rworld r) ot @ g x"
  using assms by (rule stranded)

definition chain_rst :: rst where
  "chain_rst = copy_rst\<lparr>nTuples := 1, rtbl := [(''a'', source_entry 7 1 ''a'' ''o''),
     (''o'', \<lparr>b_type = t_normal, statement = Some 8, ebuf = Some 3, bback = BackBuf (Some ''a''), inplace = Some ''o'',
        forward = ForwardBuf (Some ''z''), action = act_cjump\<rparr>)]\<rparr>"

lemma last_tuple_is_stranded_witness:
  "\<exists>r'. runState 5 copy_qenv ''a'' False chain_rst = Ret (run_success, r') \<and> nTuples r' = 0 \<and>
     contents (rworld r') 1 = [view (demo_dbt CHR ''z'' 3)] \<and> contents (rworld r') 3 = [view (demo_dbt CHR ''x'' 1)]"
proof -
  have "source_stmt ''a'' ''o'' 7 0 1 3 demo_inputs chain_rst"
    by (simp add: source_stmt_def chain_rst_def copy_rst_def entry_at_def stmt_init_def demo_inputs_ok is_queue_def)
      (simp add: demo_inputs_def)
  from last_tuple_is_stranded [OF this copy_computes, of "view (demo_dbt CHR ''x'' 1)" "[view (demo_dbt CHR ''z'' 3)]" _ 3 False]
  have "\<exists>r'. runState (Suc (Suc 3)) copy_qenv ''a'' False chain_rst = Ret (run_success, r') \<and> nTuples r' = 0 \<and>
     contents (rworld r') 1 = [view (demo_dbt CHR ''z'' 3)] \<and> contents (rworld r') 3 = [view (demo_dbt CHR ''x'' 1)]"
    by (simp add: chain_rst_def copy_rst_def entry_at_def demo_inputs_contents del: One_nat_def) blast
  moreover have "Suc (Suc 3) = (5::nat)" by simp
  ultimately show ?thesis by metis
qed

section \<open>A driver whose sources are empty\<close>

definition sources_empty :: "rst \<Rightarrow> bool" where
  "sources_empty r \<longleftrightarrow>
     list_all (\<lambda>(k, e). is_source (b_type e) \<longrightarrow> ebuf e \<bind> (\<lambda>b. buf_empty b (rworld r)) = Some True) (rtbl r)"

lemma idle_step:
  assumes "sources_empty r" "i < length (rtbl r)" "i \<noteq> j \<or> st"
  shows "run_loop (Suc n) E i j st l r = run_loop n E ((i + 1) mod length (rtbl r)) j False l r"
proof -
  obtain k e where ke: "rtbl r ! i = (k, e)" by force
  have src: "is_source (b_type e) \<longrightarrow> ebuf e \<bind> (\<lambda>b. buf_empty b (rworld r)) = Some True"
    using assms(1) nth_mem [OF assms(2)] unfolding ke sources_empty_def list_all_iff by blast
  have nx: "(if i + 1 = length (rtbl r) then 0 else i + 1) = (i + 1) mod length (rtbl r)" using assms(2) by simp
  have st: "\<not> (i = j \<and> \<not> st)" "\<not> length (rtbl r) \<le> i" using assms(2,3) by auto
  show ?thesis
    unfolding run_loop.simps(2) if_not_P [OF st(1)] if_not_P [OF st(2)] ke nx Let_def
    using src by (auto simp: is_source_def)
qed

lemma idle_round:
  assumes "sources_empty r" "0 < length (rtbl r)" "i < length (rtbl r)" "m \<le> length (rtbl r)" "0 < m" "length (rtbl r) - m < n"
  shows "run_loop n E ((i + m) mod length (rtbl r)) i False l r = Ret (run_success, l, r)"
  using assms(4-)
proof (induction n arbitrary: m)
  case (Suc n)
  let ?L = "length (rtbl r)"
  show ?case
  proof (cases "m = ?L")
    case True
    then show ?thesis using assms(3) by simp
  next
    case False
    have "(i + m) mod ?L \<noteq> i" using False Suc.prems assms(3) by (auto simp: mod_if)
    then have "run_loop (Suc n) E ((i + m) mod ?L) i False l r = run_loop n E (((i + m) mod ?L + 1) mod ?L) i False l r"
      using assms(1,2) by (intro idle_step) auto
    also have "((i + m) mod ?L + 1) mod ?L = (i + Suc m) mod ?L" by (simp add: mod_Suc_eq)
    also have "run_loop n E ((i + Suc m) mod ?L) i False l r = Ret (run_success, l, r)"
      using False Suc.prems by (intro Suc.IH) auto
    finally show ?thesis .
  qed
qed simp

text \<open>
  C28: When every source buffer is empty, \<open>Driver::run\<close> goes once round the state table and
  returns success without executing a statement, whatever the other buffers hold; so tuples left
  in an intermediate buffer wait until new input arrives at a source.
\<close>

theorem idle_run:
  assumes "sources_empty r" "rtbl r \<noteq> []" "nTuples r \<noteq> 0" "length (rtbl r) < n"
  shows "Driver_run n E d r = Ret (run_success, last_run_name d, r)"
proof -
  let ?i = "run_start (last_run_name d) (rtbl r)"
  have i: "?i < length (rtbl r)" using assms(2) by (auto simp: run_start_def Let_def)
  obtain m where m: "n = Suc m" using assms(4) by (cases n) auto
  have "run_loop n E ?i ?i True (last_run_name d) r = run_loop m E ((?i + 1) mod length (rtbl r)) ?i False (last_run_name d) r"
    unfolding m by (rule idle_step [OF assms(1) i]) simp
  also have "\<dots> = Ret (run_success, last_run_name d, r)"
    by (rule idle_round [OF assms(1) _ i]) (use assms(2,4) m in \<open>cases "rtbl r"; auto\<close>)+
  finally show ?thesis using assms(3) by (simp add: Driver_run_def)
qed

lemma idle_run_witness:
  "Driver_run 9 demo_qenv (Driver_init False 0) (fork_rst 4) = Ret (run_success, [], fork_rst 4) \<and>
   contents (rworld (fork_rst 4)) 2 \<noteq> []"
  using idle_run [of "fork_rst 4" 9 demo_qenv "Driver_init False 0"]
  by (simp add: sources_empty_def fork_rst_def dummy_entry_def is_source_def Driver_init_def demo_inputs_contents)

end
