(* ===== verification/DrvMgr.thy ===== *)
theory DrvMgr
  imports DriverRun
begin

text \<open>
  The driver manager (\<open>DrvMgr\<close>, \<open>sql/esl/driver.cc\<close>): it owns the drivers and finds the one a
  new statement belongs to from a multimap of buffer names to drivers. The multimap is an
  association list in the order of insertion; drivers live in a heap under their addresses, and
  the address of a new one is an argument.
\<close>

section \<open>Data\<close>

type_synonym dptr = nat

record drvmgr =
  dheap :: "(dptr \<times> driver) list"
  drivers :: "dptr list"
  bufToDrvMap :: "(string \<times> dptr) list"
  stmtToDrvMap :: "(string \<times> dptr) list"
  id_count :: int

definition DrvMgr_init :: drvmgr where
  "DrvMgr_init = \<lparr>dheap = [], drivers = [], bufToDrvMap = [], stmtToDrvMap = [], id_count = 0\<rparr>"

definition drv_at :: "drvmgr \<Rightarrow> dptr \<Rightarrow> driver option" where
  "drv_at m p = map_of (dheap m) p"

text \<open>\<open>equal_range\<close> of the multimap.\<close>

definition drivers_of :: "drvmgr \<Rightarrow> string \<Rightarrow> dptr list" where
  "drivers_of m nm = map snd (filter (\<lambda>x. fst x = nm) (bufToDrvMap m))"

definition ty_in :: "drvmgr \<Rightarrow> dptr \<Rightarrow> string \<Rightarrow> buffer_ty option" where
  "ty_in m p nm = map_option (getBufType nm) (drv_at m p)"

definition sinks_in :: "drvmgr \<Rightarrow> dptr \<Rightarrow> string \<Rightarrow> bool" where
  "sinks_in m p nm \<longleftrightarrow> ty_in m p nm = Some t_sink \<or> ty_in m p nm = Some t_merge_sink"

definition sources_in :: "drvmgr \<Rightarrow> dptr \<Rightarrow> string \<Rightarrow> bool" where
  "sources_in m p nm \<longleftrightarrow> ty_in m p nm = Some t_source \<or> ty_in m p nm = Some t_source_fork"

definition in_drv :: "drvmgr \<Rightarrow> dptr option \<Rightarrow> string \<Rightarrow> bool" where
  "in_drv m drv nm \<longleftrightarrow> (drv \<bind> drv_at m) \<bind> getBuffer nm \<noteq> None"

section \<open>addStmt\<close>

text \<open>
  The driver for one input that is known: \<open>None\<close> of the result is the return of \<open>FAILURE\<close>. A
  buffer known to two drivers has to be the sink of one and a source of the other.
\<close>

definition pick :: "drvmgr \<Rightarrow> string \<Rightarrow> dptr option \<Rightarrow> dptr option" where
  "pick m nm drv =
     (let inDrv = in_drv m drv nm; keep = (\<lambda>d. if drv = None \<or> \<not> inDrv then Some d else drv) in
      case drivers_of m nm of
        [] \<Rightarrow> None
      | [d2] \<Rightarrow>
          if drv \<noteq> None \<and> inDrv \<and> drv \<noteq> Some d2 then
            (if sinks_in m d2 nm \<and> sources_in m (the drv) nm then drv
             else if sinks_in m (the drv) nm \<and> sources_in m d2 nm then Some d2
             else None)
          else keep d2
      | [d2, d3] \<Rightarrow>
          if sinks_in m d2 nm \<and> sources_in m d3 nm
          then (if drv \<noteq> None \<and> inDrv \<and> drv \<noteq> Some d3 then None else keep d3)
          else if sinks_in m d3 nm \<and> sources_in m d2 nm
          then (if drv \<noteq> None \<and> inDrv \<and> drv \<noteq> Some d2 then None else keep d2)
          else None
      | _ \<Rightarrow> None)"

text \<open>The check of the output against the driver that was picked.\<close>

definition out_consistent :: "drvmgr \<Rightarrow> string \<Rightarrow> dptr \<Rightarrow> bool" where
  "out_consistent m out drv =
     (case drivers_of m out of
        [] \<Rightarrow> True
      | [d4] \<Rightarrow> \<not> (d4 \<noteq> drv \<and> in_drv m (Some drv) out)
      | _ \<Rightarrow> False)"

text \<open>All known inputs in turn; \<open>Inl\<close> is the return of \<open>FAILURE\<close> with the driver picked so far.\<close>

fun pick_all :: "drvmgr \<Rightarrow> string \<Rightarrow> string list \<Rightarrow> dptr option \<Rightarrow> dptr option + bool \<times> dptr option" where
  "pick_all m out [] drv = Inr (False, drv)"
| "pick_all m out (nm # nms) drv =
     (case pick m nm drv of
        None \<Rightarrow> Inl drv
      | Some d \<Rightarrow> if out_consistent m out d then pick_all m out nms (Some d) else Inl (Some d))"

text \<open>
  None of the inputs is known. The flag says that a driver has to be created; otherwise the last
  driver takes the statement, connected to it or not.
\<close>

definition pick_new :: "drvmgr \<Rightarrow> string \<Rightarrow> dptr option \<Rightarrow> dptr option + bool \<times> dptr option" where
  "pick_new m out drv =
     (case drivers_of m out of
        [] \<Rightarrow> (case drv of
                 Some d \<Rightarrow> Inr (False, Some d)
               | None \<Rightarrow> if drivers m = [] then Inr (True, None) else Inr (False, Some (last (drivers m))))
      | [d2] \<Rightarrow>
          if \<not> sources_in m d2 out then Inl drv
          else if in_drv m drv out \<and> drv \<noteq> Some d2 then Inl drv
          else Inr (False, if drv = None then Some d2 else drv)
      | _ \<Rightarrow> Inl drv)"

definition pick_drv :: "drvmgr \<Rightarrow> string \<Rightarrow> string list \<Rightarrow> dptr option \<Rightarrow> dptr option + bool \<times> dptr option" where
  "pick_drv m out ns drv =
     (let found = filter (\<lambda>nm. drivers_of m nm \<noteq> []) ns
      in if found \<noteq> [] then pick_all m out found drv else pick_new m out drv)"

definition put_drv :: "dptr \<Rightarrow> driver \<Rightarrow> drvmgr \<Rightarrow> drvmgr" where
  "put_drv p d m = m\<lparr>dheap := AList.update p d (dheap m)\<rparr>"

definition add_buf_drv :: "dptr \<Rightarrow> string \<Rightarrow> drvmgr \<Rightarrow> drvmgr" where
  "add_buf_drv p nm m =
     (if drivers_of m nm = [] then m\<lparr>bufToDrvMap := bufToDrvMap m @ [(nm, p)]\<rparr> else m)"

text \<open>The inputs the manager looks at: those of a union, the buffer \<open>in\<close> of anything else.\<close>

definition mgr_ins :: "stmt \<Rightarrow> bptr list option" where
  "mgr_ins s = (if is_union (stype s) then Some (union_bufs s) else map_option (\<lambda>i. [i]) (sin s))"

text \<open>
  \<open>DrvMgr::addStmt\<close>. The result has the return code, the driver that is passed back and the state.
\<close>

definition DrvMgr_addStmt ::
  "(bptr \<Rightarrow> string option) \<Rightarrow> bool \<Rightarrow> dptr \<Rightarrow> sptr \<Rightarrow> stmt \<Rightarrow> dptr option \<Rightarrow> drvmgr \<Rightarrow>
     (int \<times> dptr option \<times> drvmgr) option" where
  "DrvMgr_addStmt bn exp_mode new p s drv m =
     (if map_of (stmtToDrvMap m) (sname s) \<noteq> None then Some (SUCCESS, drv, m)
      else do {
        bs \<leftarrow> mgr_ins s;
        ns \<leftarrow> those (map bn bs);
        ot \<leftarrow> sout s;
        out \<leftarrow> bn ot;
        case pick_drv m out ns drv of
          Inl drv \<Rightarrow> Some (FAILURE, drv, m)
        | Inr (newDrv, drv) \<Rightarrow> do {
            let m = (if newDrv
                     then (put_drv new ((Driver_init exp_mode DEFAULT_TUPLE_PER_PROMPT)\<lparr>did := id_count m + 1\<rparr>) m)
                            \<lparr>id_count := id_count m + 1\<rparr>
                     else m);
            dp \<leftarrow> (if newDrv then Some new else drv);
            d \<leftarrow> drv_at m dp;
            (rc, d) \<leftarrow> addStmt bn p s d;
            let m = put_drv dp d m;
            if rc = SUCCESS then
              (let m = (if newDrv then m\<lparr>drivers := drivers m @ [dp]\<rparr> else m);
                   m = add_buf_drv dp out (fold (add_buf_drv dp) ns m)
               in Some (SUCCESS, Some dp, m\<lparr>stmtToDrvMap := AList.update (sname s) dp (stmtToDrvMap m)\<rparr>))
            else Some (rc, None, if newDrv then m\<lparr>dheap := AList.delete dp (dheap m)\<rparr> else m)
          }
      })"

section \<open>dropStmt\<close>

text \<open>\<open>Driver::dropStmt\<close> erases the entries of the multimap for the names it returns and itself.\<close>

definition forget :: "dptr \<Rightarrow> string list \<Rightarrow> drvmgr \<Rightarrow> drvmgr" where
  "forget p nms m = m\<lparr>bufToDrvMap := foldl (\<lambda>t nm. remove1 (nm, p) t) (bufToDrvMap m) nms\<rparr>"

definition DrvMgr_dropStmt ::
  "(bptr \<Rightarrow> string option) \<Rightarrow> (sptr \<Rightarrow> stmt option) \<Rightarrow> stmt \<Rightarrow> dptr option \<Rightarrow> drvmgr \<Rightarrow>
     (int \<times> dptr option \<times> drvmgr \<times> sptr option) option" where
  "DrvMgr_dropStmt bn st s drv m =
     (case map_of (stmtToDrvMap m) (sname s) of
        None \<Rightarrow> Some (SUCCESS, drv, m, None)
      | Some dp \<Rightarrow> do {
          d \<leftarrow> drv_at m dp;
          (rc, d, names, q) \<leftarrow> dropStmt bn st s d;
          let m = forget dp names (put_drv dp d m);
          if rc = SUCCESS then
            (let m = m\<lparr>stmtToDrvMap := AList.delete (sname s) (stmtToDrvMap m)\<rparr> in
             if dstmts d = []
             then Some (rc, None, m\<lparr>drivers := filter (\<lambda>x. x \<noteq> dp) (drivers m), dheap := AList.delete dp (dheap m)\<rparr>, q)
             else Some (rc, Some dp, m, q))
          else Some (rc, drv, m, q)
        })"

section \<open>Queries\<close>

definition DrvMgr_getStmtByName :: "(sptr \<Rightarrow> stmt option) \<Rightarrow> string option \<Rightarrow> drvmgr \<Rightarrow> sptr option option" where
  "DrvMgr_getStmtByName st nm m =
     (case nm of
        None \<Rightarrow> Some None
      | Some n \<Rightarrow>
          (case map_of (stmtToDrvMap m) n of
             None \<Rightarrow> Some None
           | Some dp \<Rightarrow> map_option (getStmtByName st (Some n)) (drv_at m dp)))"

definition DrvMgr_getBufByName :: "(bptr \<Rightarrow> string option) \<Rightarrow> string option \<Rightarrow> drvmgr \<Rightarrow> bptr option option" where
  "DrvMgr_getBufByName bn nm m =
     (case nm of
        None \<Rightarrow> Some None
      | Some n \<Rightarrow>
          (case drivers_of m n of
             [] \<Rightarrow> Some None
           | dp # _ \<Rightarrow> map_option (getBufByName bn (Some n)) (drv_at m dp)))"

definition getDrvById :: "int \<Rightarrow> drvmgr \<Rightarrow> dptr option" where
  "getDrvById i m = find (\<lambda>p. map_option did (drv_at m p) = Some i) (drivers m)"

definition bufferInUse :: "string \<Rightarrow> drvmgr \<Rightarrow> bool" where
  "bufferInUse nm m \<longleftrightarrow> drivers_of m nm \<noteq> []"

definition stmtInUse :: "string \<Rightarrow> drvmgr \<Rightarrow> bool" where
  "stmtInUse nm m \<longleftrightarrow> map_of (stmtToDrvMap m) nm \<noteq> None"

section \<open>The invariant of the manager\<close>

definition driver_ok :: "string set \<Rightarrow> (bptr \<Rightarrow> string option) \<Rightarrow> driver \<Rightarrow> bool" where
  "driver_ok N bn d \<longleftrightarrow>
     graph_ok N bn (map_of (tbl d)) {} \<and> distinct (map fst (tbl d)) \<and> (dstmts d = [] \<longrightarrow> tbl d = [])"

definition bufs_ok :: "string set \<Rightarrow> drvmgr \<Rightarrow> bool" where
  "bufs_ok N m \<longleftrightarrow> distinct (map fst (bufToDrvMap m)) \<and>
     (\<forall>nm p. (nm, p) \<in> set (bufToDrvMap m) \<longrightarrow> nm \<in> N \<and> (\<exists>d. drv_at m p = Some d \<and> getBuffer nm d \<noteq> None))"

definition stmts_ok :: "(sptr \<Rightarrow> stmt option) \<Rightarrow> drvmgr \<Rightarrow> bool" where
  "stmts_ok st m \<longleftrightarrow>
     (\<forall>snm p. map_of (stmtToDrvMap m) snm = Some p \<longrightarrow>
        (\<exists>d q. drv_at m p = Some d \<and> q \<in> set (dstmts d) \<and> map_option sname (st q) = Some snm))"

definition dm_ok :: "string set \<Rightarrow> (bptr \<Rightarrow> string option) \<Rightarrow> (sptr \<Rightarrow> stmt option) \<Rightarrow> drvmgr \<Rightarrow> bool" where
  "dm_ok N bn st m \<longleftrightarrow>
     distinct (map fst (dheap m)) \<and> distinct (drivers m) \<and> set (drivers m) = dom (map_of (dheap m)) \<and>
     (\<forall>p d. drv_at m p = Some d \<longrightarrow> driver_ok N bn d) \<and> bufs_ok N m \<and> stmts_ok st m"

lemma getBuffer_graph:
  assumes "driver_ok N bn d" "names_ok N" "nm \<in> N"
  shows "getBuffer nm d \<noteq> None \<longleftrightarrow> map_of (tbl d) nm \<noteq> None"
  using graph_ok_plain(2) [of N bn "map_of (tbl d)" "{}"] assms
  by (cases "map_of (tbl d) nm") (fastforce simp: getBuffer_def driver_ok_def)+

lemma drv_at_put [simp]: "drv_at (put_drv p d m) q = (if q = p then Some d else drv_at m q)"
  by (simp add: drv_at_def put_drv_def)

text \<open>The multimap never has two entries for a name.\<close>

lemma drivers_of_mem: "drivers_of m nm = [] \<longleftrightarrow> nm \<notin> fst ` set (bufToDrvMap m)"
  by (auto simp: drivers_of_def filter_empty_conv)

lemma add_buf_drv_map:
  "bufToDrvMap (add_buf_drv p nm m) = (if nm \<in> fst ` set (bufToDrvMap m) then bufToDrvMap m else bufToDrvMap m @ [(nm, p)])"
  by (simp add: add_buf_drv_def drivers_of_mem)

lemma add_buf_drv_sel [simp]:
  "dheap (add_buf_drv p nm m) = dheap m" "drivers (add_buf_drv p nm m) = drivers m"
  "stmtToDrvMap (add_buf_drv p nm m) = stmtToDrvMap m" "id_count (add_buf_drv p nm m) = id_count m"
  by (simp_all add: add_buf_drv_def)

lemma fold_add_buf_sel [simp]:
  "dheap (fold (add_buf_drv p) ns m) = dheap m" "drivers (fold (add_buf_drv p) ns m) = drivers m"
  "stmtToDrvMap (fold (add_buf_drv p) ns m) = stmtToDrvMap m"
  by (induction ns arbitrary: m) simp_all

lemma fold_add_buf:
  assumes "distinct (map fst (bufToDrvMap m))"
  shows "distinct (map fst (bufToDrvMap (fold (add_buf_drv p) ns m))) \<and>
    set (bufToDrvMap (fold (add_buf_drv p) ns m)) \<subseteq> set (bufToDrvMap m) \<union> {(nm, p) |nm. nm \<in> set ns} \<and>
    fst ` set (bufToDrvMap (fold (add_buf_drv p) ns m)) = fst ` set (bufToDrvMap m) \<union> set ns"
  using assms
proof (induction ns arbitrary: m)
  case (Cons a ns)
  have d: "distinct (map fst (bufToDrvMap (add_buf_drv p a m)))" using Cons.prems by (auto simp: add_buf_drv_map)
  have s: "set (bufToDrvMap (add_buf_drv p a m)) \<subseteq> insert (a, p) (set (bufToDrvMap m))"
    "fst ` set (bufToDrvMap (add_buf_drv p a m)) = insert a (fst ` set (bufToDrvMap m))"
    by (auto simp: add_buf_drv_map)
  show ?case using Cons.IH [OF d] s by (simp, blast)
qed auto

section \<open>Adding a statement\<close>

text \<open>The manager after the statement has been added to the driver at \<open>dp\<close>, which is now \<open>d\<close>.\<close>

definition registered :: "bool \<Rightarrow> dptr \<Rightarrow> driver \<Rightarrow> string \<Rightarrow> string list \<Rightarrow> string \<Rightarrow> drvmgr \<Rightarrow> drvmgr" where
  "registered newDrv dp d snm ns out m =
     (let m1 = put_drv dp d (if newDrv then m\<lparr>id_count := id_count m + 1\<rparr> else m);
          m2 = (if newDrv then m1\<lparr>drivers := drivers m @ [dp]\<rparr> else m1);
          m3 = fold (add_buf_drv dp) (ns @ [out]) m2
      in m3\<lparr>stmtToDrvMap := AList.update snm dp (stmtToDrvMap m)\<rparr>)"

lemma registered_drv_at [simp]: "drv_at (registered nd dp d snm ns out m) q = (if q = dp then Some d else drv_at m q)"
  by (simp add: registered_def Let_def drv_at_def put_drv_def)

lemma registered_bufs:
  assumes "distinct (map fst (bufToDrvMap m))"
  shows "distinct (map fst (bufToDrvMap (registered nd dp d snm ns out m))) \<and>
    set (bufToDrvMap (registered nd dp d snm ns out m)) \<subseteq> set (bufToDrvMap m) \<union> {(nm, dp) |nm. nm \<in> set ns \<union> {out}} \<and>
    fst ` set (bufToDrvMap (registered nd dp d snm ns out m)) = fst ` set (bufToDrvMap m) \<union> (set ns \<union> {out})"
proof -
  define m2 where "m2 = (if nd then (put_drv dp d (m\<lparr>id_count := id_count m + 1\<rparr>))\<lparr>drivers := drivers m @ [dp]\<rparr> else put_drv dp d m)"
  have b: "bufToDrvMap m2 = bufToDrvMap m" by (simp add: m2_def put_drv_def)
  have "bufToDrvMap (registered nd dp d snm ns out m) = bufToDrvMap (fold (add_buf_drv dp) (ns @ [out]) m2)"
    unfolding registered_def m2_def Let_def by simp
  then show ?thesis using fold_add_buf [of m2 dp "ns @ [out]"] assms unfolding b by simp
qed

lemma registered_stmts [simp]:
  "stmtToDrvMap (registered nd dp d snm ns out m) = AList.update snm dp (stmtToDrvMap m)"
  "drivers (registered nd dp d snm ns out m) = (if nd then drivers m @ [dp] else drivers m)"
  "dheap (registered nd dp d snm ns out m) = AList.update dp d (dheap m)"
  by (simp_all add: registered_def Let_def put_drv_def)

lemma DrvMgr_addStmt_eq:
  assumes "map_of (stmtToDrvMap m) (sname s) = None" "mgr_ins s = Some bs" "map bn bs = map Some ns"
    "sout s \<bind> bn = Some out" "pick_drv m out ns drv = Inr (nd, tp)"
    and "if nd then dp = new \<and> d0 = (Driver_init x DEFAULT_TUPLE_PER_PROMPT)\<lparr>did := id_count m + 1\<rparr>
         else tp = Some dp \<and> drv_at m dp = Some d0"
    and "addStmt bn p s d0 = Some (SUCCESS, d)"
  shows "DrvMgr_addStmt bn x new p s drv m = Some (SUCCESS, Some dp, registered nd dp d (sname s) ns out m)"
proof -
  have th: "those (map bn bs) = Some ns" using assms(3) by (induction bs arbitrary: ns) auto
  obtain ot where ot: "sout s = Some ot" "bn ot = Some out" using assms(4) by (auto simp: bind_eq_Some_conv)
  show ?thesis
  proof (cases nd)
    case True
    then have n: "dp = new" "d0 = (Driver_init x DEFAULT_TUPLE_PER_PROMPT)\<lparr>did := id_count m + 1\<rparr>" using assms(6) by auto
    then show ?thesis
      using True assms(1,2,5,7) th ot
      by (simp add: DrvMgr_addStmt_def registered_def Let_def drv_at_def put_drv_def AList.update_last)
  next
    case False
    then show ?thesis
      using assms(1,2,5,6,7) th ot by (simp add: DrvMgr_addStmt_def registered_def Let_def) (simp add: put_drv_def)
  qed
qed

lemma registered_ok:
  assumes ok: "dm_ok N bn st m" and N: "names_ok N" "set ns \<union> {out} \<subseteq> N"
    and d0: "if nd then drv_at m dp = None else drv_at m dp = Some d0" and d: "driver_ok N bn d"
    and dom: "set ns \<union> {out} \<subseteq> dom (map_of (tbl d))" "\<not> nd \<Longrightarrow> N \<inter> dom (map_of (tbl d0)) \<subseteq> dom (map_of (tbl d))"
    and p: "\<not> nd \<Longrightarrow> set (dstmts d0) \<subseteq> set (dstmts d)" "p \<in> set (dstmts d)" "map_option sname (st p) = Some snm"
  shows "dm_ok N bn st (registered nd dp d snm ns out m)" (is "dm_ok N bn st ?m")
proof -
  have o: "distinct (map fst (dheap m))" "distinct (drivers m)" "set (drivers m) = dom (map_of (dheap m))"
    "\<And>p d. drv_at m p = Some d \<Longrightarrow> driver_ok N bn d" "bufs_ok N m" "stmts_ok st m" using ok by (auto simp: dm_ok_def)
  have get: "getBuffer nm d \<noteq> None" if "nm \<in> dom (map_of (tbl d))" "nm \<in> N" for nm
    using getBuffer_graph [OF d N(1) that(2)] that(1) by blast
  have old: "getBuffer nm d \<noteq> None" if "\<not> nd" "getBuffer nm d0 \<noteq> None" "nm \<in> N" for nm
  proof -
    have "driver_ok N bn d0" using o(4) d0 that(1) by simp
    then have "nm \<in> dom (map_of (tbl d0))" using getBuffer_graph N(1) that(2,3) by blast
    then show ?thesis using dom(2) get that(1,3) by blast
  qed
  have "bufs_ok N ?m"
  proof -
    have "nm \<in> N \<and> (\<exists>d. drv_at ?m q = Some d \<and> getBuffer nm d \<noteq> None)" if "(nm, q) \<in> set (bufToDrvMap ?m)" for nm q
    proof (cases "(nm, q) \<in> set (bufToDrvMap m)")
      case True
      then obtain d1 where d1: "nm \<in> N" "drv_at m q = Some d1" "getBuffer nm d1 \<noteq> None" using o(5) unfolding bufs_ok_def by blast
      then show ?thesis using old d0 by (cases "q = dp"; cases nd) auto
    next
      case False
      then have "q = dp" "nm \<in> set ns \<union> {out}" using that registered_bufs [of m nd dp d snm ns out] o(5) by (auto simp: bufs_ok_def)
      moreover from this have "nm \<in> dom (map_of (tbl d))" "nm \<in> N" using dom(1) N(2) by blast+
      ultimately show ?thesis using get by auto
    qed
    then show ?thesis using registered_bufs [of m nd dp d snm ns out] o(5) by (simp add: bufs_ok_def)
  qed
  moreover have "stmts_ok st ?m"
    unfolding stmts_ok_def
  proof (intro allI impI)
    fix sn q assume s: "map_of (stmtToDrvMap ?m) sn = Some q"
    show "\<exists>d q'. drv_at ?m q = Some d \<and> q' \<in> set (dstmts d) \<and> map_option sname (st q') = Some sn"
    proof (cases "sn = snm")
      case True
      then show ?thesis using s p(2,3) by auto
    next
      case False
      with s have "map_of (stmtToDrvMap m) sn = Some q" by simp
      then obtain d1 q1 where d1: "drv_at m q = Some d1" "q1 \<in> set (dstmts d1)" "map_option sname (st q1) = Some sn"
        using o(6) unfolding stmts_ok_def by blast
      then show ?thesis using d0 p(1) by (cases "q = dp"; cases nd) auto
    qed
  qed
  moreover have "set (drivers ?m) = dom (map_of (dheap ?m))" "distinct (drivers ?m)"
    using o(2,3) d0 by (auto simp: drv_at_def)
  ultimately show ?thesis using o(1,4) d by (auto simp: dm_ok_def distinct_update)
qed

lemma mgr_add_core:
  assumes ok: "dm_ok N bn st m" and N: "names_ok N"
    and new: "map_of (stmtToDrvMap m) (sname s) = None" "drv_at m new = None" "st p = Some s"
    and ins: "mgr_ins s = Some bs" "map bn bs = map Some ns" "set ns \<subseteq> set ns'"
    and pick: "pick_drv m out ns drv = Inr (nd, tp)"
    and d0: "if nd then dp = new \<and> d0 = (Driver_init x DEFAULT_TUPLE_PER_PROMPT)\<lparr>did := id_count m + 1\<rparr>
             else tp = Some dp \<and> drv_at m dp = Some d0"
    and can: "can_add N bn s d0 bs' ns' out"
  obtains d' where "DrvMgr_addStmt bn x new p s drv m = Some (SUCCESS, Some dp, registered nd dp d' (sname s) ns out m)"
    "dm_ok N bn st (registered nd dp d' (sname s) ns out m)" "driver_ok N bn d'" "dstmts d' = dstmts d0 @ [p]"
    "edges (map_of (tbl d')) = edges (map_of (tbl d0)) \<union> {(nm, p, out) |nm. nm \<in> set ns'}"
    "set ns' \<union> {out} \<subseteq> dom (map_of (tbl d'))" "set ns' \<union> {out} \<subseteq> N"
proof -
  have e: "graph_ok N bn Map.empty {}" by (simp add: graph_ok_def)
  have dok: "driver_ok N bn d0"
  proof (cases nd)
    case True
    then show ?thesis using d0 e by (simp add: driver_ok_def Driver_init_def)
  next
    case False
    then show ?thesis using d0 ok by (auto simp: dm_ok_def)
  qed
  obtain d' where d': "addStmt bn p s d0 = Some (SUCCESS, d')" "graph_ok N bn (map_of (tbl d')) {}"
    "edges (map_of (tbl d')) = edges (map_of (tbl d0)) \<union> {(nm, p, out) |nm. nm \<in> set ns'}"
    "distinct (map fst (tbl d'))" "dstmts d' = dstmts d0 @ [p]"
    "N \<inter> dom (map_of (tbl d0)) \<union> set ns' \<union> {out} \<subseteq> dom (map_of (tbl d'))"
    using addStmt_graph [OF _ N _ _ can, of p] dok unfolding driver_ok_def by blast
  have c: "sout s \<bind> bn = Some out" "set ns' \<subseteq> N" "out \<in> N" using can by (auto simp: can_add_def)
  let ?m = "registered nd dp d' (sname s) ns out m"
  have dok': "driver_ok N bn d'" using d'(2,4,5) by (simp add: driver_ok_def)
  have "dm_ok N bn st ?m"
  proof (rule registered_ok [OF ok N _ _ dok'])
    show "set ns \<union> {out} \<subseteq> N" using ins(3) c by blast
    show "if nd then drv_at m dp = None else drv_at m dp = Some d0" using d0 new(2) by auto
    show "set ns \<union> {out} \<subseteq> dom (map_of (tbl d'))" "N \<inter> dom (map_of (tbl d0)) \<subseteq> dom (map_of (tbl d'))"
      using d'(6) ins(3) by blast+
    show "set (dstmts d0) \<subseteq> set (dstmts d')" "p \<in> set (dstmts d')" using d'(5) by auto
  qed (use new(3) in simp)
  then show ?thesis
    using that DrvMgr_addStmt_eq [OF new(1) ins(1,2) c(1) pick d0 d'(1)] d'(3,5,6) dok' c(2,3) by auto
qed

lemma registered_in_use:
  assumes "dm_ok N bn st m"
  shows "bufferInUse nm (registered nd dp d snm ns out m) \<longleftrightarrow> bufferInUse nm m \<or> nm \<in> set ns \<union> {out}"
  using registered_bufs [of m nd dp d snm ns out] assms
  by (auto simp: bufferInUse_def drivers_of_mem dm_ok_def bufs_ok_def)

text \<open>
  C4: \<open>DrvMgr::addStmt\<close> puts a statement that the driver picked for it (an existing one, or a new
  one when there is none) can take into that driver: it returns success and the driver, adds the
  statement's edges to that driver's graph and leaves every other driver alone. The invariant of
  the manager is kept: names are unique in the buffer map, every registered buffer is in the table
  of its driver, every registered statement is in its driver, and every driver's graph is
  well-formed.
\<close>

theorem manager_adds_stmt:
  assumes ok: "dm_ok N bn st m" and N: "names_ok N"
    and new: "map_of (stmtToDrvMap m) (sname s) = None" "drv_at m new = None" "st p = Some s"
    and ins: "mgr_ins s = Some bs" "map bn bs = map Some ns" "set ns \<subseteq> set ns'"
    and pick: "pick_drv m out ns drv = Inr (nd, tp)"
    and d0: "if nd then dp = new \<and> d0 = (Driver_init x DEFAULT_TUPLE_PER_PROMPT)\<lparr>did := id_count m + 1\<rparr>
             else tp = Some dp \<and> drv_at m dp = Some d0"
    and can: "can_add N bn s d0 bs' ns' out"
  shows "\<exists>d' m'. DrvMgr_addStmt bn x new p s drv m = Some (SUCCESS, Some dp, m') \<and> dm_ok N bn st m' \<and>
    drv_at m' dp = Some d' \<and> dstmts d' = dstmts d0 @ [p] \<and>
    edges (map_of (tbl d')) = edges (map_of (tbl d0)) \<union> {(nm, p, out) |nm. nm \<in> set ns'} \<and>
    (\<forall>q. q \<noteq> dp \<longrightarrow> drv_at m' q = drv_at m q) \<and> map_of (stmtToDrvMap m') (sname s) = Some dp \<and>
    (\<forall>nm\<in>set ns \<union> {out}. bufferInUse nm m')"
  using assms by (rule mgr_add_core) (auto simp: registered_in_use [OF ok])

text \<open>The first statement of an empty manager.\<close>

lemma empty_mgr_ok: "dm_ok N bn st DrvMgr_init" "drv_at DrvMgr_init q = None" "map_of (stmtToDrvMap DrvMgr_init) snm = None"
    "pick_drv DrvMgr_init out ns None = Inr (True, None)" "\<not> bufferInUse nm DrvMgr_init"
  by (simp_all add: dm_ok_def DrvMgr_init_def drv_at_def bufs_ok_def stmts_ok_def pick_drv_def pick_new_def drivers_of_def bufferInUse_def)

definition demo_drv :: driver where
  "demo_drv = (Driver_init False DEFAULT_TUPLE_PER_PROMPT)\<lparr>did := id_count DrvMgr_init + 1\<rparr>"

lemma demo_drv_empty: "tbl demo_drv = []" "edges (map_of (tbl demo_drv)) = {}" "dstmts demo_drv = []"
  "if True then (100::nat) = 100 \<and> demo_drv = (Driver_init False DEFAULT_TUPLE_PER_PROMPT)\<lparr>did := id_count DrvMgr_init + 1\<rparr>
   else None = Some (100::nat) \<and> drv_at DrvMgr_init 100 = Some demo_drv"
  by (simp_all add: demo_drv_def Driver_init_def edges_def)

lemma manager_adds_stmt_witness:
  "\<exists>d' m'. DrvMgr_addStmt demo_names False 100 7 (demo_stmt ''p'' 0 1) None DrvMgr_init = Some (SUCCESS, Some 100, m') \<and>
     drv_at m' 100 = Some d' \<and> edges (map_of (tbl d')) = {(''a'', 7, ''b'')} \<and> bufferInUse ''b'' m'"
proof -
  have i: "mgr_ins (demo_stmt ''p'' 0 1) = Some [0]" "map demo_names [0] = map Some [''a'']" "set [''a''] \<subseteq> set [''a'']"
    by (simp_all add: mgr_ins_def demo_stmt_simps is_union_def)
  have c: "can_add {''a'', ''b'', ''c''} demo_names (demo_stmt ''p'' 0 1) demo_drv [0] [''a''] ''b''"
    by (simp add: can_add_def demo_stmt_simps demo_drv_empty(1) in_ok_def)
  have st: "(\<lambda>_. Some (demo_stmt ''p'' 0 1)) (7::sptr) = Some (demo_stmt ''p'' 0 1)" by simp
  from manager_adds_stmt [where st = "\<lambda>_. Some (demo_stmt ''p'' 0 1)" and p = 7, OF empty_mgr_ok(1) demo_names_ok empty_mgr_ok(3,2) st i empty_mgr_ok(4) demo_drv_empty(4) c]
  show ?thesis by (auto simp: demo_drv_empty(2))
qed

text \<open>
  C29: The manager registers the buffer \<open>in\<close> and the output of a join, not its windows: a window
  buffer that was not registered before is then in the state table of the driver and read by the
  join, but \<open>bufferInUse\<close> says it is not in use.
\<close>

theorem join_windows_unregistered:
  assumes ok: "dm_ok N bn st m" and N: "names_ok N"
    and new: "map_of (stmtToDrvMap m) (sname s) = None" "drv_at m new = None" "st p = Some s"
    and ins: "mgr_ins s = Some bs" "map bn bs = map Some ns" "set ns \<subseteq> set ns'"
    and pick: "pick_drv m out ns drv = Inr (nd, tp)"
    and d0: "if nd then dp = new \<and> d0 = (Driver_init x DEFAULT_TUPLE_PER_PROMPT)\<lparr>did := id_count m + 1\<rparr>
             else tp = Some dp \<and> drv_at m dp = Some d0"
    and can: "can_add N bn s d0 bs' ns' out"
    and join: "stype s = stmt_join" and w: "nm \<in> set ns' - set ns - {out}" "\<not> bufferInUse nm m"
  shows "\<exists>d' m'. DrvMgr_addStmt bn x new p s drv m = Some (SUCCESS, Some dp, m') \<and> drv_at m' dp = Some d' \<and>
    (nm, p, out) \<in> edges (map_of (tbl d')) \<and> getBuffer nm d' \<noteq> None \<and> \<not> bufferInUse nm m'"
proof -
  obtain d' where d': "DrvMgr_addStmt bn x new p s drv m = Some (SUCCESS, Some dp, registered nd dp d' (sname s) ns out m)"
    "driver_ok N bn d'" "edges (map_of (tbl d')) = edges (map_of (tbl d0)) \<union> {(nm, p, out) |nm. nm \<in> set ns'}"
    "set ns' \<union> {out} \<subseteq> dom (map_of (tbl d'))" "set ns' \<union> {out} \<subseteq> N"
    by (rule mgr_add_core [OF ok N new ins pick d0 can])
  have "getBuffer nm d' \<noteq> None" using getBuffer_graph [OF d'(2) N, of nm] d'(4,5) w(1) by blast
  moreover have "\<not> bufferInUse nm (registered nd dp d' (sname s) ns out m)"
    using w by (simp add: registered_in_use [OF ok])
  ultimately show ?thesis using d'(1,3) w(1) by auto
qed

definition demo_join :: stmt where
  "demo_join = (stmt_init stmt_join ''j'' False)\<lparr>sin := Some 0, sout := Some 1, window_bufs := [2]\<rparr>"

lemma join_windows_unregistered_witness:
  "\<exists>d' m'. DrvMgr_addStmt demo_names False 100 7 demo_join None DrvMgr_init = Some (SUCCESS, Some 100, m') \<and>
     drv_at m' 100 = Some d' \<and> (''c'', 7, ''b'') \<in> edges (map_of (tbl d')) \<and> getBuffer ''c'' d' \<noteq> None \<and> \<not> bufferInUse ''c'' m'"
proof -
  have i: "mgr_ins demo_join = Some [0]" "map demo_names [0] = map Some [''a'']" "set [''a''] \<subseteq> set [''c'', ''a'']"
    by (simp_all add: mgr_ins_def demo_join_def demo_stmt_simps is_union_def)
  have c: "can_add {''a'', ''b'', ''c''} demo_names demo_join demo_drv [2, 0] [''c'', ''a''] ''b''"
    by (simp add: can_add_def demo_join_def demo_stmt_simps demo_drv_empty(1) in_ok_def)
  have st: "(\<lambda>_. Some demo_join) (7::sptr) = Some demo_join" by simp
  have j: "stype demo_join = stmt_join" by (simp add: demo_join_def stmt_init_def)
  have w: "''c'' \<in> set [''c'', ''a''] - set [''a''] - {''b''}" by simp
  show ?thesis
    by (rule join_windows_unregistered
        [where st = "\<lambda>_. Some demo_join" and p = 7, OF empty_mgr_ok(1) demo_names_ok empty_mgr_ok(3,2) st i empty_mgr_ok(4) demo_drv_empty(4) c j w empty_mgr_ok(5)])
qed

end
