(* ===== verification/NtList.thy ===== *)
theory NtList
  imports Prelude
begin

text \<open>
  The lists of the compiler (\<open>sql/list.cc\<close>): growable arrays of object pointers, used for every
  list of the syntax tree.

  \<^item> A list is a record of the array, its size and the number of elements in use. A slot of the
    array is \<open>None\<close> until it is written; an object pointer is \<open>None\<close> when it is null. The array
    of a well-formed list has \<open>al_size\<close> slots.
  \<^item> The results are options: \<open>None\<close> is a read or write outside the array, or a use of a slot that
    was never written. Copying such a slot is allowed, as in the source.
  \<^item> \<open>ntRealloc\<close> is an argument: whether a request for so many slots succeeds.
  \<^item> Positions are integers, as the callers pass them.

  The locale \<open>object_list\<close> states what the rest of the compiler uses of a list; it is interpreted
  on these definitions.
\<close>

section \<open>Slots\<close>

type_synonym 'e slots = "'e option option list"

definition slot_read :: "'e slots \<Rightarrow> int \<Rightarrow> 'e option option" where
  "slot_read els i = (if 0 \<le> i \<and> i < int (length els) then els ! nat i else None)"

definition slot_write :: "'e slots \<Rightarrow> int \<Rightarrow> 'e option \<Rightarrow> 'e slots option" where
  "slot_write els i x =
     (if 0 \<le> i \<and> i < int (length els) then Some (els[nat i := Some x]) else None)"

definition slot_copy :: "'e slots \<Rightarrow> nat \<Rightarrow> nat \<Rightarrow> 'e slots option" where
  "slot_copy els dst src =
     (if dst < length els \<and> src < length els then Some (els[dst := els ! src]) else None)"

text \<open>\<open>for (i = n; i > position; i--) elements[i] = elements[i-1]\<close>\<close>

fun shift_up :: "nat \<Rightarrow> nat \<Rightarrow> 'e slots \<Rightarrow> 'e slots option" where
  "shift_up 0 position els = Some els"
| "shift_up (Suc i) position els =
     (if Suc i > position then slot_copy els (Suc i) i \<bind> shift_up i position else Some els)"

text \<open>\<open>for (i = j; i < n; i++) elements[i] = elements[i+1]\<close>\<close>

function shift_down :: "nat \<Rightarrow> nat \<Rightarrow> 'e slots \<Rightarrow> 'e slots option" where
  "shift_down j n els =
     (if j < n then slot_copy els j (j + 1) \<bind> shift_down (j + 1) n else Some els)"
  by auto
termination
  by (relation "measure (\<lambda>(j, n, els). n - j)") auto

declare shift_down.simps [simp del]

section \<open>Lists\<close>

definition DEFAULT_LIST_SIZE :: nat where
  "DEFAULT_LIST_SIZE = 10"

record 'e A_list =
  al_pos :: int
  al_type :: int
  al_elements :: "'e slots"
  al_size :: nat
  al_length :: nat
  al_collect_type :: int

definition A_List :: "int \<Rightarrow> int \<Rightarrow> 'e A_list" where
  "A_List pos ty =
     \<lparr> al_pos = pos, al_type = ty, al_elements = replicate DEFAULT_LIST_SIZE (Some None),
       al_size = DEFAULT_LIST_SIZE, al_length = 0, al_collect_type = 0 \<rparr>"

definition A_ListEmpty :: "'e A_list option \<Rightarrow> int" where
  "A_ListEmpty l = (case l of None \<Rightarrow> 1 | Some l \<Rightarrow> if al_length l = 0 then 1 else 0)"

definition clearList :: "'e A_list \<Rightarrow> 'e A_list option" where
  "clearList l =
     (if al_size l \<le> length (al_elements l)
      then Some (l\<lparr> al_length := 0,
                    al_elements := replicate (al_size l) (Some None) @ drop (al_size l) (al_elements l) \<rparr>)
      else None)"

text \<open>\<open>walkList\<close> calls \<open>f\<close>, which has effects, until it returns zero.\<close>

fun walk_slots :: "('e option \<Rightarrow> 's \<Rightarrow> int \<times> 's) \<Rightarrow> 'e slots \<Rightarrow> 's \<Rightarrow> (int \<times> 's) option" where
  "walk_slots f [] s = Some (1, s)"
| "walk_slots f (x # xs) s =
     (case x of
        None \<Rightarrow> None
      | Some e \<Rightarrow>
          (case f e s of
             (bl, s') \<Rightarrow> if bl \<noteq> 0 \<and> xs \<noteq> [] then walk_slots f xs s' else Some (bl, s')))"

definition walkList :: "('e option \<Rightarrow> 's \<Rightarrow> int \<times> 's) \<Rightarrow> 'e A_list \<Rightarrow> 's \<Rightarrow> (int \<times> 's) option" where
  "walkList f l s =
     (if al_length l \<le> length (al_elements l) then walk_slots f (take (al_length l) (al_elements l)) s
      else None)"

definition doubleSizeList :: "(nat \<Rightarrow> bool) \<Rightarrow> 'e A_list \<Rightarrow> int \<times> 'e A_list" where
  "doubleSizeList ntRealloc l =
     (let new_size = (if al_size l \<noteq> 0 then 2 * al_size l else 1) in
      if ntRealloc new_size
      then (1, l\<lparr> al_size := new_size,
                  al_elements := take new_size (al_elements l) @
                     replicate (new_size - length (al_elements l)) None \<rparr>)
      else (0, l))"

definition getNthElementList :: "'e A_list \<Rightarrow> int \<Rightarrow> 'e option option" where
  "getNthElementList l position =
     (if position < int (al_length l) then slot_read (al_elements l) position else Some None)"

definition overwriteElementList :: "'e A_list \<Rightarrow> int \<Rightarrow> 'e option \<Rightarrow> 'e A_list option" where
  "overwriteElementList l position obj =
     (if 0 \<le> position \<and> position < int (al_length l)
      then map_option (\<lambda>els. l\<lparr> al_elements := els \<rparr>) (slot_write (al_elements l) position obj)
      else Some l)"

text \<open>
  \<open>insertElementList\<close> returns a value only when memory is exhausted: the other paths run off the
  end of the function, which is \<open>NoValue\<close>.
\<close>

datatype ins_ret = NoValue | OutOfMemory

function insertElementList ::
    "(nat \<Rightarrow> bool) \<Rightarrow> 'e A_list \<Rightarrow> int \<Rightarrow> 'e option \<Rightarrow> (ins_ret \<times> 'e A_list) option" where
  "insertElementList ntRealloc l position obj =
     (if 0 \<le> position \<and> position \<le> int (al_length l)
      then if al_size l > al_length l
           then do {
             els \<leftarrow> shift_up (al_length l) (nat position) (al_elements l);
             els' \<leftarrow> slot_write els position obj;
             Some (NoValue, l\<lparr> al_elements := els', al_length := al_length l + 1 \<rparr>)
           }
           else (case doubleSizeList ntRealloc l of
                   (status, l') \<Rightarrow>
                     if status \<noteq> 0
                     then map_option (\<lambda>r. (NoValue, snd r)) (insertElementList ntRealloc l' position obj)
                     else Some (OutOfMemory, l))
      else Some (NoValue, l))"
  by auto
termination
  by (relation "measure (\<lambda>(R, l, p, obj). Suc (al_length l) - al_size l)")
    (auto simp: doubleSizeList_def Let_def split: if_splits)

declare insertElementList.simps [simp del]

definition prependElementList :: "(nat \<Rightarrow> bool) \<Rightarrow> 'e A_list \<Rightarrow> 'e option \<Rightarrow> 'e A_list option" where
  "prependElementList R l obj = map_option snd (insertElementList R l 0 obj)"

definition appendElementList :: "(nat \<Rightarrow> bool) \<Rightarrow> 'e A_list \<Rightarrow> 'e option \<Rightarrow> 'e A_list option" where
  "appendElementList R l obj = map_option snd (insertElementList R l (int (al_length l)) obj)"

definition getFirstElementList :: "'e A_list \<Rightarrow> 'e option option" where
  "getFirstElementList l = getNthElementList l 0"

definition getLastElementList :: "'e A_list \<Rightarrow> 'e option option" where
  "getLastElementList l = getNthElementList l (int (al_length l) - 1)"

definition pushElementList :: "(nat \<Rightarrow> bool) \<Rightarrow> 'e A_list \<Rightarrow> 'e option \<Rightarrow> 'e A_list option" where
  "pushElementList R l obj = appendElementList R l obj"

definition removeNthElementList :: "'e A_list \<Rightarrow> int \<Rightarrow> ('e option \<times> 'e A_list) option" where
  "removeNthElementList l position =
     (if 0 \<le> position \<and> position < int (al_length l)
      then do {
        obj \<leftarrow> slot_read (al_elements l) position;
        els \<leftarrow> shift_down (nat position) (al_length l - 1) (al_elements l);
        els' \<leftarrow> slot_write els (int (al_length l) - 1) None;
        Some (obj, l\<lparr> al_elements := els', al_length := al_length l - 1 \<rparr>)
      }
      else Some (None, l))"

definition popElementList :: "'e A_list \<Rightarrow> ('e option \<times> 'e A_list) option" where
  "popElementList l = removeNthElementList l (int (al_length l) - 1)"

definition isEmptyList :: "'e A_list \<Rightarrow> int" where
  "isEmptyList l = (if al_length l \<le> 0 then 1 else 0)"

text \<open>The first position at which a pointer is found; the slots are read up to it.\<close>

fun find_slot :: "'e option \<Rightarrow> 'e slots \<Rightarrow> nat \<Rightarrow> nat option option" where
  "find_slot obj [] i = Some None"
| "find_slot obj (x # xs) i =
     (case x of None \<Rightarrow> None | Some e \<Rightarrow> if e = obj then Some (Some i) else find_slot obj xs (i + 1))"

definition find_element :: "'e A_list \<Rightarrow> 'e option \<Rightarrow> nat option option" where
  "find_element l obj =
     (if al_length l \<le> length (al_elements l) then find_slot obj (take (al_length l) (al_elements l)) 0
      else None)"

definition memberPList :: "'e A_list \<Rightarrow> 'e option \<Rightarrow> int option" where
  "memberPList l obj =
     map_option (\<lambda>r. case r of None \<Rightarrow> -1 | Some i \<Rightarrow> int i) (find_element l obj)"

definition removeElementList :: "'e A_list \<Rightarrow> 'e option \<Rightarrow> 'e A_list option" where
  "removeElementList l obj =
     (case find_element l obj of
        None \<Rightarrow> None
      | Some None \<Rightarrow> Some l
      | Some (Some i) \<Rightarrow> do {
          els \<leftarrow> shift_down i (al_length l) (al_elements l);
          els' \<leftarrow> slot_write els (int (al_length l) - 1) None;
          Some (l\<lparr> al_elements := els', al_length := al_length l - 1 \<rparr>)
        })"

definition exchangeElementsList :: "'e A_list \<Rightarrow> int \<Rightarrow> int \<Rightarrow> 'e A_list option" where
  "exchangeElementsList l position1 position2 =
     (if 0 < position1 \<and> position1 < int (al_length l) \<and> 0 < position2 \<and> position2 < int (al_length l)
      then do {
        temp_element \<leftarrow> slot_read (al_elements l) position1;
        other \<leftarrow> slot_read (al_elements l) position2;
        els \<leftarrow> slot_write (al_elements l) position1 other;
        els' \<leftarrow> slot_write els position2 temp_element;
        Some (l\<lparr> al_elements := els' \<rparr>)
      }
      else Some l)"

text \<open>\<open>appendListList\<close> for two different lists: the source list does not change during the loop.\<close>

fun appendListList_loop ::
    "(nat \<Rightarrow> bool) \<Rightarrow> 'e A_list \<Rightarrow> nat list \<Rightarrow> 'e A_list \<Rightarrow> 'e A_list option" where
  "appendListList_loop R alist [] l = Some l"
| "appendListList_loop R alist (i # is) l =
     getNthElementList alist (int i) \<bind> appendElementList R l \<bind> appendListList_loop R alist is"

definition appendListList :: "(nat \<Rightarrow> bool) \<Rightarrow> 'e A_list \<Rightarrow> 'e A_list \<Rightarrow> 'e A_list option" where
  "appendListList R l alist = appendListList_loop R alist [0..<al_length alist] l"

definition addElementList :: "(nat \<Rightarrow> bool) \<Rightarrow> 'e A_list \<Rightarrow> 'e option \<Rightarrow> 'e A_list option" where
  "addElementList R l obj =
     (case find_element l obj of
        None \<Rightarrow> None
      | Some None \<Rightarrow> appendElementList R l obj
      | Some (Some i) \<Rightarrow> Some l)"

section \<open>The loops over the slots\<close>

lemma shift_up_spec:
  assumes "p \<le> i" and "i < length els"
  shows "shift_up i p els = Some (take p els @ els ! p # drop p (take i els) @ drop (Suc i) els)"
  using assms
proof (induction i p els rule: shift_up.induct)
  case (1 p els)
  then show ?case by (simp add: Cons_nth_drop_Suc)
next
  case (2 i p els)
  show ?case
  proof (cases "Suc i > p")
    case True
    let ?e = "els[Suc i := els ! i]"
    have "shift_up (Suc i) p els = shift_up i p ?e"
      using True 2(3) by (simp add: slot_copy_def)
    also have "\<dots> = Some (take p ?e @ ?e ! p # drop p (take i ?e) @ drop (Suc i) ?e)"
      by (rule 2(1)) (use True 2(3) in \<open>auto simp: slot_copy_def\<close>)
    also have "take p ?e @ ?e ! p # drop p (take i ?e) @ drop (Suc i) ?e =
        take p els @ els ! p # drop p (take (Suc i) els) @ drop (Suc (Suc i)) els"
    proof -
      have "drop (Suc i) ?e = els ! i # drop (Suc (Suc i)) els"
        using 2(3) by (simp add: drop_update_swap Cons_nth_drop_Suc [symmetric])
      moreover have "drop p (take (Suc i) els) = drop p (take i els) @ [els ! i]"
        using True 2(3) by (simp add: take_Suc_conv_app_nth)
      ultimately show ?thesis using True by simp
    qed
    finally show ?thesis .
  next
    case False
    then have "p = Suc i" using 2(2) by simp
    then show ?thesis using 2(3) by (simp add: id_take_nth_drop [symmetric])
  qed
qed

lemma shift_down_spec:
  assumes "j \<le> n" and "n < length els"
  shows "shift_down j n els = Some (take j els @ drop (Suc j) (take (Suc n) els) @ drop n els)"
  using assms
proof (induction j n els rule: shift_down.induct)
  case (1 j n els)
  show ?case
  proof (cases "j < n")
    case True
    let ?e = "els[j := els ! Suc j]"
    have "shift_down j n els = shift_down (Suc j) n ?e"
      using True 1(3) by (subst shift_down.simps) (simp add: slot_copy_def)
    also have "\<dots> = Some (take (Suc j) ?e @ drop (Suc (Suc j)) (take (Suc n) ?e) @ drop n ?e)"
      using 1(1) [of ?e] True 1(3) by (simp add: slot_copy_def)
    also have "take (Suc j) ?e @ drop (Suc (Suc j)) (take (Suc n) ?e) @ drop n ?e =
        take j els @ drop (Suc j) (take (Suc n) els) @ drop n els"
    proof -
      have "take (Suc j) ?e = take j els @ [els ! Suc j]"
        using True 1(3) by (simp add: take_Suc_conv_app_nth)
      moreover have "drop (Suc j) (take (Suc n) els) = els ! Suc j # drop (Suc (Suc j)) (take (Suc n) els)"
        using True 1(3) by (subst Cons_nth_drop_Suc [symmetric]) auto
      moreover have "drop (Suc (Suc j)) (take (Suc n) ?e) = drop (Suc (Suc j)) (take (Suc n) els)"
        "drop n ?e = drop n els"
        using True by (simp_all add: drop_take drop_update_cancel take_update_swap)
      ultimately show ?thesis by simp
    qed
    finally show ?thesis .
  next
    case False
    then have "j = n" using 1(2) by simp
    then show ?thesis using 1(3) by (subst shift_down.simps) simp
  qed
qed

section \<open>Well-formed lists and their contents\<close>

definition al_ok :: "'e A_list \<Rightarrow> bool" where
  "al_ok l \<longleftrightarrow> al_size l = length (al_elements l) \<and> al_length l \<le> al_size l \<and>
     None \<notin> set (take (al_length l) (al_elements l))"

definition contents :: "'e A_list \<Rightarrow> 'e option list" where
  "contents l = map the (take (al_length l) (al_elements l))"

text \<open>A list with the elements \<open>xs\<close> and the free slots \<open>rest\<close>.\<close>

definition holding :: "'e A_list \<Rightarrow> 'e option list \<Rightarrow> 'e slots \<Rightarrow> 'e A_list" where
  "holding l xs rest =
     l\<lparr> al_elements := map Some xs @ rest, al_size := length xs + length rest, al_length := length xs \<rparr>"

lemma holding_simps [simp]:
  "al_elements (holding l xs rest) = map Some xs @ rest"
  "al_size (holding l xs rest) = length xs + length rest"
  "al_length (holding l xs rest) = length xs"
  "al_ok (holding l xs rest)" "contents (holding l xs rest) = xs"
  "holding (holding l xs rest) ys rest' = holding l ys rest'"
  by (auto simp: holding_def al_ok_def contents_def)

lemma al_ok_holding:
  assumes "al_ok l"
  shows "l = holding l (contents l) (drop (al_length l) (al_elements l))"
proof -
  have "map Some (contents l) = take (al_length l) (al_elements l)"
    unfolding contents_def map_map
    by (rule map_idI) (use assms in \<open>metis al_ok_def comp_apply option.collapse\<close>)
  moreover have "length (contents l) = al_length l"
    using assms by (simp add: al_ok_def contents_def)
  ultimately show ?thesis
    using assms by (cases l) (simp add: holding_def al_ok_def)
qed

lemma al_okE:
  assumes "al_ok l"
  obtains xs rest where "l = holding l xs rest" and "contents l = xs" and "al_length l = length xs"
  using al_ok_holding [OF assms] that holding_simps(3) by metis

lemma slot_read_holding [simp]:
  "slot_read (map Some xs @ rest) i = (if 0 \<le> i \<and> i < int (length xs) then Some (xs ! nat i) else
     if i < int (length xs + length rest) \<and> 0 \<le> i then rest ! (nat i - length xs) else None)"
  by (auto simp: slot_read_def nth_append)

lemma slot_write_inside [simp]:
  "0 \<le> i \<Longrightarrow> i < int (length xs) \<Longrightarrow>
   slot_write (map Some xs @ rest) i x = Some (map Some (xs[nat i := x]) @ rest)"
  by (auto simp: slot_write_def list_update_append map_update)

lemma insert_room:
  assumes "p \<le> length xs" and "rest \<noteq> []"
  shows "insertElementList R (holding l xs rest) (int p) x =
     Some (NoValue, holding l (take p xs @ x # drop p xs) (tl rest))"
proof -
  obtain r rs where rest: "rest = r # rs" using assms(2) by (cases rest) auto
  let ?els = "map Some xs @ rest"
  have up: "shift_up (length xs) p ?els =
      Some (take p ?els @ ?els ! p # drop p (take (length xs) ?els) @ drop (Suc (length xs)) ?els)"
    by (rule shift_up_spec) (use assms rest in auto)
  have "slot_write (take p ?els @ ?els ! p # drop p (take (length xs) ?els) @ drop (Suc (length xs)) ?els)
      (int p) x = Some (map Some (take p xs @ x # drop p xs) @ tl rest)"
    using assms(1) rest by (simp add: slot_write_def list_update_append min_def drop_map take_map)
  then show ?thesis
    using assms rest up
    by (subst insertElementList.simps) (simp add: holding_def)
qed

lemma double_holding:
  "doubleSizeList R (holding l xs []) =
     (let n = (if xs = [] then 1 else 2 * length xs) in
      if R n then (1, holding l xs (replicate (n - length xs) None)) else (0, holding l xs []))"
  by (auto simp: doubleSizeList_def holding_def Let_def)

text \<open>The slots that are free after an insertion.\<close>

definition room_after :: "'e option list \<Rightarrow> 'e slots \<Rightarrow> 'e slots" where
  "room_after xs rest =
     (if rest \<noteq> [] then tl rest
      else replicate ((if xs = [] then 1 else 2 * length xs) - length xs - 1) None)"

definition can_grow :: "(nat \<Rightarrow> bool) \<Rightarrow> 'e option list \<Rightarrow> 'e slots \<Rightarrow> bool" where
  "can_grow R xs rest \<longleftrightarrow> rest \<noteq> [] \<or> R (if xs = [] then 1 else 2 * length xs)"

lemma insert_holding:
  assumes "p \<le> length xs"
  shows "insertElementList R (holding l xs rest) (int p) x =
     Some (if can_grow R xs rest
           then (NoValue, holding l (take p xs @ x # drop p xs) (room_after xs rest))
           else (OutOfMemory, holding l xs rest))"
proof (cases "rest = []")
  case False
  then show ?thesis using insert_room [OF assms] by (simp add: can_grow_def room_after_def)
next
  case True
  let ?n = "if xs = [] then 1 else 2 * length xs"
  have gt: "?n - length xs \<noteq> 0" by simp
  have "insertElementList R (holding l xs []) (int p) x =
      (if R ?n
       then map_option (\<lambda>r. (NoValue, snd r))
              (insertElementList R (holding l xs (replicate (?n - length xs) None)) (int p) x)
       else Some (OutOfMemory, holding l xs []))"
    using assms by (subst insertElementList.simps) (simp add: double_holding Let_def)
  also have "\<dots> = Some (if R ?n
       then (NoValue, holding l (take p xs @ x # drop p xs) (tl (replicate (?n - length xs) None)))
       else (OutOfMemory, holding l xs []))"
    using insert_room [OF assms, of "replicate (?n - length xs) None"] gt by simp
  finally show ?thesis
    using True by (simp add: can_grow_def room_after_def tl_replicate)
qed

lemma removeNth_holding:
  assumes "p < length xs"
  shows "removeNthElementList (holding l xs rest) (int p) =
     Some (xs ! p, holding l (take p xs @ drop (Suc p) xs) (Some None # rest))"
proof -
  let ?els = "map Some xs @ rest"
  obtain n where n: "length xs = Suc n" using assms by (cases "length xs") auto
  have down: "shift_down p n ?els = Some (take p ?els @ drop (Suc p) (take (Suc n) ?els) @ drop n ?els)"
    by (rule shift_down_spec) (use assms n in auto)
  have "drop n ?els = Some (xs ! n) # rest"
    using n by (simp add: drop_map Cons_nth_drop_Suc [symmetric] drop_eq_Nil)
  then have "slot_write (take p ?els @ drop (Suc p) (take (Suc n) ?els) @ drop n ?els) (int n) None =
      Some (map Some (take p xs @ drop (Suc p) xs) @ Some None # rest)"
    using assms n by (simp add: slot_write_def list_update_append min_def drop_map take_map)
  then show ?thesis
    using assms n down by (simp add: removeNthElementList_def holding_def)
qed

lemma removeNth_outside:
  "\<not> (0 \<le> i \<and> i < int (al_length l)) \<Longrightarrow> removeNthElementList l i = Some (None, l)"
  by (auto simp: removeNthElementList_def)

lemma get_holding:
  "getNthElementList (holding l xs rest) i =
     (if int (length xs) \<le> i then Some None else if i < 0 then None else Some (xs ! nat i))"
  by (simp add: getNthElementList_def)

text \<open>The position of the first occurrence.\<close>

fun first_pos :: "'a \<Rightarrow> 'a list \<Rightarrow> nat option" where
  "first_pos x [] = None"
| "first_pos x (y # ys) = (if y = x then Some 0 else map_option Suc (first_pos x ys))"

lemma first_pos_None [simp]: "first_pos x xs = None \<longleftrightarrow> x \<notin> set xs"
  by (induction xs) auto

lemma first_pos_Some:
  "first_pos x xs = Some i \<Longrightarrow> i < length xs \<and> xs ! i = x \<and> x \<notin> set (take i xs)"
  by (induction xs arbitrary: i) (auto split: if_splits)

lemma first_pos_remove1: "first_pos x xs = Some i \<Longrightarrow> take i xs @ drop (Suc i) xs = remove1 x xs"
  by (induction xs arbitrary: i) (auto split: if_splits)

lemma find_slot_map: "find_slot x (map Some xs) i = Some (map_option (\<lambda>k. k + i) (first_pos x xs))"
  by (induction xs arbitrary: i) (auto simp: option.map_comp comp_def)

lemma find_holding: "find_element (holding l xs rest) x = Some (first_pos x xs)"
  by (simp add: find_element_def find_slot_map option.map_ident)

section \<open>The interface\<close>

locale object_list =
  fixes ok :: "'l \<Rightarrow> bool"
    and cont :: "'l \<Rightarrow> 'x option list"
    and grows :: "'l \<Rightarrow> bool"
    and ins :: "'l \<Rightarrow> int \<Rightarrow> 'x option \<Rightarrow> (ins_ret \<times> 'l) option"
    and rem :: "'l \<Rightarrow> int \<Rightarrow> ('x option \<times> 'l) option"
    and nth :: "'l \<Rightarrow> int \<Rightarrow> 'x option option"
    and pos :: "'l \<Rightarrow> 'x option \<Rightarrow> nat option option"
  assumes ins_law: "ok l \<Longrightarrow> p \<le> length (cont l) \<Longrightarrow> grows l \<Longrightarrow>
      \<exists>l'. ins l (int p) x = Some (NoValue, l') \<and> ok l' \<and> cont l' = take p (cont l) @ x # drop p (cont l)"
    and ins_full: "ok l \<Longrightarrow> p \<le> length (cont l) \<Longrightarrow> \<not> grows l \<Longrightarrow> ins l (int p) x = Some (OutOfMemory, l)"
    and rem_law: "ok l \<Longrightarrow> p < length (cont l) \<Longrightarrow>
      \<exists>l'. rem l (int p) = Some (cont l ! p, l') \<and> ok l' \<and> grows l' \<and>
        cont l' = take p (cont l) @ drop (Suc p) (cont l)"
    and nth_law: "ok l \<Longrightarrow> p < length (cont l) \<Longrightarrow> nth l (int p) = Some (cont l ! p)"
    and pos_law: "ok l \<Longrightarrow> pos l x = Some (first_pos x (cont l))"
begin

lemma push_pop:
  assumes "ok l" and "grows l"
  shows "\<exists>l1 l2. ins l (int (length (cont l))) x = Some (NoValue, l1) \<and> cont l1 = cont l @ [x] \<and>
     rem l1 (int (length (cont l))) = Some (x, l2) \<and> ok l2 \<and> cont l2 = cont l"
proof -
  obtain l1 where l1: "ins l (int (length (cont l))) x = Some (NoValue, l1)" "ok l1" "cont l1 = cont l @ [x]"
    using ins_law [OF assms(1) _ assms(2), of "length (cont l)" x] by auto
  then show ?thesis
    using rem_law [OF l1(2), of "length (cont l)"] by auto
qed

lemma remove_insert:
  assumes "ok l" and "p < length (cont l)"
  shows "\<exists>l1 l2. rem l (int p) = Some (cont l ! p, l1) \<and>
     ins l1 (int p) (cont l ! p) = Some (NoValue, l2) \<and> ok l2 \<and> cont l2 = cont l"
proof -
  obtain l1 where l1: "rem l (int p) = Some (cont l ! p, l1)" "ok l1" "grows l1"
    "cont l1 = take p (cont l) @ drop (Suc p) (cont l)"
    using rem_law [OF assms] by blast
  have "p \<le> length (cont l1)" using l1(4) assms(2) by auto
  then obtain l2 where "ins l1 (int p) (cont l ! p) = Some (NoValue, l2)" "ok l2"
    "cont l2 = take p (cont l1) @ (cont l ! p) # drop p (cont l1)"
    using ins_law [OF l1(2) _ l1(3), of p "cont l ! p"] by auto
  moreover have "take p (cont l1) @ (cont l ! p) # drop p (cont l1) = cont l"
    using l1(4) assms(2) by (simp add: id_take_nth_drop [symmetric])
  ultimately show ?thesis using l1 by auto
qed

text \<open>Appending a sequence of elements when memory never runs out.\<close>

lemma append_all:
  assumes "\<And>l. grows l" and "ok l"
  shows "\<exists>l'. foldM (\<lambda>x l. map_option snd (ins l (int (length (cont l))) x)) xs l = Some l' \<and>
     ok l' \<and> cont l' = cont l @ xs"
  using assms(2)
proof (induction xs arbitrary: l)
  case Nil
  then show ?case by simp
next
  case (Cons x xs)
  obtain l1 where "ins l (int (length (cont l))) x = Some (NoValue, l1)" "ok l1" "cont l1 = cont l @ [x]"
    using ins_law [OF Cons.prems _ assms(1), of "length (cont l)" x] by auto
  then show ?case using Cons.IH [of l1] by auto
qed

end

definition al_grows :: "(nat \<Rightarrow> bool) \<Rightarrow> 'e A_list \<Rightarrow> bool" where
  "al_grows R l \<longleftrightarrow> can_grow R (contents l) (drop (al_length l) (al_elements l))"

lemma al_grows_holding [simp]: "al_grows R (holding l xs rest) = can_grow R xs rest"
  by (simp add: al_grows_def)

interpretation al: object_list al_ok contents "al_grows R" "insertElementList R" removeNthElementList
  getNthElementList find_element for R
proof
  fix l :: "'a A_list" and p x
  assume ok: "al_ok l"
  then obtain xs rest where l: "l = holding l xs rest" and xs: "contents l = xs" by (rule al_okE)
  show "\<exists>l'. insertElementList R l (int p) x = Some (NoValue, l') \<and> al_ok l' \<and>
      contents l' = take p (contents l) @ x # drop p (contents l)"
    if "p \<le> length (contents l)" "al_grows R l"
    using that insert_holding [of p xs R l rest x] xs l by (metis al_grows_holding holding_simps(4,5))
  show "insertElementList R l (int p) x = Some (OutOfMemory, l)"
    if "p \<le> length (contents l)" "\<not> al_grows R l"
    using that insert_holding [of p xs R l rest x] xs l by (metis al_grows_holding)
  show "\<exists>l'. removeNthElementList l (int p) = Some (contents l ! p, l') \<and> al_ok l' \<and> al_grows R l' \<and>
      contents l' = take p (contents l) @ drop (Suc p) (contents l)"
    if "p < length (contents l)"
  proof -
    have "removeNthElementList l (int p) =
        Some (xs ! p, holding l (take p xs @ drop (Suc p) xs) (Some None # rest))"
      using removeNth_holding [of p xs l rest] that xs l by metis
    then show ?thesis by (simp add: xs can_grow_def)
  qed
  show "getNthElementList l (int p) = Some (contents l ! p)" if "p < length (contents l)"
    using get_holding [of l xs rest "int p"] that xs l by simp
  show "find_element l x = Some (first_pos x (contents l))"
    using find_holding [of l xs rest x] xs l by metis
qed
section \<open>The derived operations\<close>

lemma append_law:
  assumes "al_ok l" and "al_grows R l"
  shows "\<exists>l'. appendElementList R l x = Some l' \<and> al_ok l' \<and> contents l' = contents l @ [x]"
proof -
  have "length (contents l) = al_length l"
    using assms(1) by (auto elim: al_okE)
  then show ?thesis
    using al.ins_law [OF assms(1) _ assms(2), of "length (contents l)" x]
    by (auto simp: appendElementList_def)
qed

lemma al_length_contents: "al_ok l \<Longrightarrow> al_length l = length (contents l)"
  by (auto elim: al_okE)

lemma al_grows_all: "(\<And>n. R n) \<Longrightarrow> al_grows R l"
  by (simp add: al_grows_def can_grow_def)

lemma appendListList_loop_law:
  assumes grows: "\<And>n. R n" and ok: "al_ok a" "al_ok l"
    and "set is \<subseteq> {..<length (contents a)}"
  shows "\<exists>l'. appendListList_loop R a is l = Some l' \<and> al_ok l' \<and>
     contents l' = contents l @ map ((!) (contents a)) is"
  using assms(3,4)
proof (induction "is" arbitrary: l)
  case Nil
  then show ?case by simp
next
  case (Cons i "is")
  have "getNthElementList a (int i) = Some (contents a ! i)"
    using al.nth_law [OF ok(1)] Cons.prems(2) by simp
  moreover obtain l1 where "appendElementList R l (contents a ! i) = Some l1" "al_ok l1"
    "contents l1 = contents l @ [contents a ! i]"
    using append_law [OF Cons.prems(1) al_grows_all] grows by blast
  ultimately show ?case
    using Cons.IH [of l1] Cons.prems(2) by auto
qed

lemma shift_down_overrun: "j < n \<Longrightarrow> n = length els \<Longrightarrow> shift_down j n els = None"
proof (induction j n els rule: shift_down.induct)
  case (1 j n els)
  show ?case
  proof (cases "j + 1 < n")
    case True
    then show ?thesis
      using 1 by (subst shift_down.simps) (simp add: slot_copy_def)
  next
    case False
    then show ?thesis using 1(2,3) by (subst shift_down.simps) (simp add: slot_copy_def)
  qed
qed

lemma removeElement_holding:
  assumes "first_pos x xs = Some i"
  shows "removeElementList (holding l xs rest) x =
     (if rest = [] then None else Some (holding l (remove1 x xs) (Some None # rest)))"
proof -
  let ?els = "map Some xs @ rest"
  have i: "i < length xs" using first_pos_Some [OF assms] by simp
  obtain n where n: "length xs = Suc n" using i by (cases "length xs") auto
  show ?thesis
  proof (cases "rest = []")
    case True
    have "shift_down i (length xs) ?els = None"
      by (rule shift_down_overrun) (use True i in auto)
    then show ?thesis using True i by (simp add: removeElementList_def find_holding assms)
  next
    case False
    then obtain r rs where rest: "rest = r # rs" by (cases rest) auto
    have down: "shift_down i (length xs) ?els =
        Some (take i ?els @ drop (Suc i) (take (Suc (length xs)) ?els) @ drop (length xs) ?els)"
      by (rule shift_down_spec) (use i rest in auto)
    have "slot_write (take i ?els @ drop (Suc i) (take (Suc (length xs)) ?els) @ drop (length xs) ?els)
        (int n) None = Some (map Some (take i xs @ drop (Suc i) xs) @ Some None # rest)"
      using i n rest by (simp add: slot_write_def list_update_append min_def drop_map take_map)
    then have "removeElementList (holding l xs rest) x =
        Some ((holding l xs rest)\<lparr> al_elements := map Some (remove1 x xs) @ Some None # rest, al_length := n \<rparr>)"
      using n down first_pos_remove1 [OF assms] by (simp add: removeElementList_def find_holding assms)
    moreover have "length (remove1 x xs) = n"
      using n first_pos_Some [OF assms] by (auto simp: length_remove1)
    ultimately show ?thesis
      using n False by (simp add: holding_def)
  qed
qed

lemma removeElement_law:
  assumes "al_ok l"
  shows "removeElementList l x =
     (if x \<notin> set (contents l) then Some l
      else if al_length l = al_size l then None
      else Some (holding l (remove1 x (contents l)) (Some None # drop (al_length l) (al_elements l))))"
proof -
  define xs rest where xr: "xs = contents l" "rest = drop (al_length l) (al_elements l)"
  have l: "l = holding l xs rest" unfolding xr by (rule al_ok_holding [OF assms])
  have full: "rest = [] \<longleftrightarrow> al_length l = al_size l"
    using assms by (auto simp: xr al_ok_def)
  show ?thesis
  proof (cases "first_pos x xs")
    case None
    have "find_element l x = Some None"
      using find_holding [of l xs rest x] l None by metis
    then show ?thesis using None by (simp add: removeElementList_def xr)
  next
    case (Some i)
    have "x \<in> set xs" using Some first_pos_None [of x xs] by auto
    then show ?thesis
      using removeElement_holding [OF Some, of l rest] l full by (simp flip: xr)
  qed
qed

lemma exchange_law:
  assumes "al_ok l" and "0 < i" "i < length (contents l)" and "0 < j" "j < length (contents l)"
  shows "\<exists>l'. exchangeElementsList l (int i) (int j) = Some l' \<and> al_ok l' \<and>
     contents l' = (contents l)[i := contents l ! j, j := contents l ! i]"
proof -
  obtain xs rest where l: "l = holding l xs rest" and xs: "contents l = xs"
    using assms(1) by (rule al_okE)
  have "exchangeElementsList (holding l xs rest) (int i) (int j) =
      Some (holding l (xs[i := xs ! j, j := xs ! i]) rest)"
    using assms(2-5) xs by (simp add: exchangeElementsList_def holding_def)
  then show ?thesis using l xs by (metis holding_simps(4,5))
qed

lemma al_grows_iff:
  assumes "al_ok l"
  shows "al_grows R l \<longleftrightarrow>
     al_length l < al_size l \<or> R (if al_size l = 0 then 1 else 2 * al_size l)"
proof -
  have "length (contents l) = al_length l" by (simp add: al_length_contents [OF assms])
  then show ?thesis
    using assms
    by (cases "al_length l = al_size l") (auto simp: al_grows_def can_grow_def al_ok_def)
qed

lemma A_List_ok [simp]: "al_ok (A_List pos ty)" "contents (A_List pos ty) = []"
  by (simp_all add: A_List_def al_ok_def contents_def DEFAULT_LIST_SIZE_def)

lemma get_law:
  assumes "al_ok l"
  shows "getNthElementList l i =
     (if int (length (contents l)) \<le> i then Some None
      else if i < 0 then None else Some (contents l ! nat i))"
  using get_holding [of l "contents l" "drop (al_length l) (al_elements l)" i] al_ok_holding [OF assms]
  by simp

section \<open>Properties\<close>

text \<open>
  C14: A list is a sequence. On a well-formed list, inserting at a position from 0 to the length
  puts the element there and moves the rest up, doubling the array when it is full; removing at a
  position inside gives the element and closes the gap; both keep the list well formed. A position
  outside leaves the list alone. Reading gives the element, null past the end, and reads before
  the array for a negative position. Searching gives the first position of a pointer, or -1.
\<close>

theorem lists_are_sequences:
  assumes "al_ok l"
    and "al_length l < al_size l \<or> R (if al_size l = 0 then 1 else 2 * al_size l)"
  shows "(\<forall>p\<le>length (contents l). \<exists>l'. insertElementList R l (int p) x = Some (NoValue, l') \<and>
        al_ok l' \<and> contents l' = take p (contents l) @ x # drop p (contents l)) \<and>
     (\<forall>p<length (contents l). \<exists>l'. removeNthElementList l (int p) = Some (contents l ! p, l') \<and>
        al_ok l' \<and> contents l' = take p (contents l) @ drop (Suc p) (contents l)) \<and>
     (\<forall>p. p < 0 \<or> int (length (contents l)) < p \<longrightarrow>
        insertElementList R l p x = Some (NoValue, l) \<and> removeNthElementList l p = Some (None, l)) \<and>
     (\<forall>p. getNthElementList l p =
        (if int (length (contents l)) \<le> p then Some None
         else if p < 0 then None else Some (contents l ! nat p))) \<and>
     memberPList l x = Some (case first_pos x (contents l) of None \<Rightarrow> -1 | Some i \<Rightarrow> int i)"
proof (intro conjI)
  have grows: "al_grows R l" using al_grows_iff [OF assms(1)] assms(2) by blast
  have len: "al_length l = length (contents l)" by (rule al_length_contents [OF assms(1)])
  show "\<forall>p\<le>length (contents l). \<exists>l'. insertElementList R l (int p) x = Some (NoValue, l') \<and>
      al_ok l' \<and> contents l' = take p (contents l) @ x # drop p (contents l)"
    using al.ins_law [OF assms(1) _ grows] by blast
  show "\<forall>p<length (contents l). \<exists>l'. removeNthElementList l (int p) = Some (contents l ! p, l') \<and>
      al_ok l' \<and> contents l' = take p (contents l) @ drop (Suc p) (contents l)"
    using al.rem_law [OF assms(1)] by blast
  show "\<forall>p. p < 0 \<or> int (length (contents l)) < p \<longrightarrow>
      insertElementList R l p x = Some (NoValue, l) \<and> removeNthElementList l p = Some (None, l)"
    by (auto simp: removeNth_outside len insertElementList.simps)
  show "\<forall>p. getNthElementList l p =
      (if int (length (contents l)) \<le> p then Some None
       else if p < 0 then None else Some (contents l ! nat p))"
    by (simp add: get_law [OF assms(1)])
  show "memberPList l x = Some (case first_pos x (contents l) of None \<Rightarrow> -1 | Some i \<Rightarrow> int i)"
    by (simp add: memberPList_def al.pos_law [OF assms(1)])
qed

definition demo_list :: "string A_list" where
  "demo_list =
     \<lparr> al_pos = 0, al_type = 0, al_elements = [Some (Some ''a''), Some (Some ''b'')],
       al_size = 2, al_length = 2, al_collect_type = 0 \<rparr>"

lemma demo_list_ok [simp]: "al_ok demo_list" "contents demo_list = [Some ''a'', Some ''b'']"
    "al_size demo_list = 2" "al_length demo_list = 2"
  by (simp_all add: demo_list_def al_ok_def contents_def)

theorem lists_are_sequences_witness:
  "\<exists>l'. insertElementList (\<lambda>n. n \<le> 4) demo_list 1 (Some ''c'') = Some (NoValue, l') \<and>
     contents l' = [Some ''a'', Some ''c'', Some ''b'']"
proof -
  have "\<forall>p\<le>length (contents demo_list). \<exists>l'.
      insertElementList (\<lambda>n. n \<le> 4) demo_list (int p) (Some ''c'') = Some (NoValue, l') \<and>
      al_ok l' \<and> contents l' = take p (contents demo_list) @ Some ''c'' # drop p (contents demo_list)"
    using lists_are_sequences [of demo_list "\<lambda>n. n \<le> 4" "Some ''c''"] by simp
  from this [rule_format, of 1] show ?thesis by auto
qed

text \<open>
  C36: When the array is full and cannot be enlarged, insertion reports that memory is exhausted
  and changes nothing; \<open>appendElementList\<close> and \<open>prependElementList\<close> drop the report, so the
  element is lost silently.
\<close>

theorem insert_out_of_memory:
  assumes "al_ok l" and "al_length l = al_size l" and "\<not> R (if al_size l = 0 then 1 else 2 * al_size l)"
    and "p \<le> length (contents l)"
  shows "insertElementList R l (int p) x = Some (OutOfMemory, l) \<and>
     appendElementList R l x = Some l \<and> prependElementList R l x = Some l"
proof -
  have "\<not> al_grows R l" using al_grows_iff [OF assms(1)] assms(2,3) by simp
  from al.ins_full [OF assms(1) _ this, of p x] al.ins_full [OF assms(1) _ this, of 0 x]
    al.ins_full [OF assms(1) _ this, of "al_length l" x]
  show ?thesis
    using assms(4) al_length_contents [OF assms(1)]
    by (simp add: appendElementList_def prependElementList_def)
qed

theorem insert_out_of_memory_witness:
  "insertElementList (\<lambda>n. n \<le> 3) demo_list 2 (Some ''c'') = Some (OutOfMemory, demo_list)"
  using insert_out_of_memory [of demo_list "\<lambda>n. n \<le> 3" 2 "Some ''c''"] by simp

text \<open>
  C31: A list used as a stack: what was pushed last is popped first, and the contents are then
  what they were.
\<close>

theorem push_pop_roundtrip:
  assumes "al_ok l"
    and "al_length l < al_size l \<or> R (if al_size l = 0 then 1 else 2 * al_size l)"
  shows "\<exists>l1 l2. pushElementList R l x = Some l1 \<and> getLastElementList l1 = Some x \<and>
     popElementList l1 = Some (x, l2) \<and> al_ok l2 \<and> contents l2 = contents l"
proof -
  have grows: "al_grows R l" using al_grows_iff [OF assms(1)] assms(2) by blast
  obtain l1 where l1: "pushElementList R l x = Some l1" "al_ok l1" "contents l1 = contents l @ [x]"
    using append_law [OF assms(1) grows, of x] by (auto simp: pushElementList_def)
  have len: "al_length l1 = Suc (length (contents l))"
    using al_length_contents [OF l1(2)] l1(3) by simp
  have last_read: "getLastElementList l1 = Some x"
    using len l1(3) by (simp add: getLastElementList_def get_law [OF l1(2)])
  obtain l2 where "popElementList l1 = Some (x, l2)" "al_ok l2" "contents l2 = contents l"
    using al.rem_law [OF l1(2), of "length (contents l)"] l1(3) len by (auto simp: popElementList_def)
  with l1(1) last_read show ?thesis by blast
qed

theorem push_pop_roundtrip_witness:
  "\<exists>l1 l2. pushElementList (\<lambda>n. n \<le> 4) demo_list (Some ''c'') = Some l1 \<and>
     popElementList l1 = Some (Some ''c'', l2) \<and> contents l2 = [Some ''a'', Some ''b'']"
  using push_pop_roundtrip [of demo_list "\<lambda>n. n \<le> 4" "Some ''c''"] by auto

text \<open>
  C32: Appending one list to another, different one ends and gives the concatenation, when the
  array can always be enlarged; the appended list is only read.
\<close>

theorem appendListList_concatenates:
  assumes "al_ok l" and "al_ok a" and "\<forall>n. R n"
  shows "\<exists>l'. appendListList R l a = Some l' \<and> al_ok l' \<and> contents l' = contents l @ contents a"
proof -
  have "map ((!) (contents a)) [0..<al_length a] = contents a"
    using al_length_contents [OF assms(2)] by (simp add: map_nth)
  then show ?thesis
    using appendListList_loop_law [of R a l "[0..<al_length a]"] assms al_length_contents [OF assms(2)]
    by (auto simp: appendListList_def atLeast0LessThan)
qed

theorem appendListList_concatenates_witness:
  "\<exists>l'. appendListList (\<lambda>n. True) (A_List 0 0) demo_list = Some l' \<and>
     contents l' = [Some ''a'', Some ''b'']"
  using appendListList_concatenates [of "A_List 0 0" demo_list "\<lambda>n. True"] by auto

text \<open>
  C33: \<open>removeElementList\<close> removes the first occurrence of a pointer, but its loop copies one slot
  too many: on a list whose array is full it reads past the end of the array.
\<close>

theorem removeElement_reads_past_full_array:
  assumes "al_ok l" and "x \<in> set (contents l)"
  shows "(al_length l = al_size l \<longrightarrow> removeElementList l x = None) \<and>
     (al_length l < al_size l \<longrightarrow>
        (\<exists>l'. removeElementList l x = Some l' \<and> al_ok l' \<and> contents l' = remove1 x (contents l)))"
  using assms(2) by (simp add: removeElement_law [OF assms(1)])

theorem removeElement_reads_past_full_array_witness:
  "removeElementList demo_list (Some ''a'') = None"
  using removeElement_reads_past_full_array [of demo_list "Some ''a''"] by simp

text \<open>
  C38: \<open>exchangeElementsList\<close> swaps two elements neither of which is the first; a call that names
  position 0 does nothing. Reading the last element of an empty list reads before the array,
  though popping an empty list is safe and gives null.
\<close>

theorem exchange_and_ends:
  assumes "al_ok l"
  shows "(\<forall>i j. 0 < i \<and> i < length (contents l) \<and> 0 < j \<and> j < length (contents l) \<longrightarrow>
        (\<exists>l'. exchangeElementsList l (int i) (int j) = Some l' \<and> al_ok l' \<and>
           contents l' = (contents l)[i := contents l ! j, j := contents l ! i])) \<and>
     (\<forall>j. exchangeElementsList l 0 j = Some l \<and> exchangeElementsList l j 0 = Some l) \<and>
     (contents l = [] \<longrightarrow>
        getLastElementList l = None \<and> getFirstElementList l = Some None \<and> popElementList l = Some (None, l))"
proof (intro conjI)
  show "contents l = [] \<longrightarrow>
      getLastElementList l = None \<and> getFirstElementList l = Some None \<and> popElementList l = Some (None, l)"
    using al_length_contents [OF assms]
    by (auto simp: getLastElementList_def getFirstElementList_def popElementList_def get_law [OF assms]
          removeNth_outside)
qed (use exchange_law [OF assms] in blast, simp add: exchangeElementsList_def)

theorem exchange_and_ends_witness:
  "exchangeElementsList demo_list 0 1 = Some demo_list \<and> getLastElementList (A_List 0 0 :: string A_list) = None"
  using exchange_and_ends [of demo_list] exchange_and_ends [of "A_List 0 0 :: string A_list"]
  by simp

end
