(* ===== verification/SymTab.thy ===== *)
theory SymTab
  imports Prelude
begin

text \<open>
  The symbol tables of the compiler: the hash table of bindings (\<open>sql/table.cc\<close>), the interned
  symbols and the scopes built on it (\<open>sql/symbol.cc\<close>).

  \<^item> A \<open>TAB_table\<close> is an array of \<open>TABSIZE\<close> chains of binding cells and the key \<open>top\<close> that was entered
    last; every cell keeps the value of \<open>top\<close> from before it was entered, so the cells are
    threaded into one stack. A chain is the list of its cells; nobody outside \<open>table.cc\<close> sees a
    cell. A key is an address, a null pointer \<open>None\<close>; a value is a \<open>void*\<close>, null \<open>None\<close>.
  \<^item> A failed \<open>assert\<close> ends the process: as undefined behaviour it is \<open>None\<close>. \<open>ntMalloc\<close> is
    taken to succeed.
  \<^item> A symbol is an address and the address of its name; \<open>S_Symbol\<close> stores the pointer it is
    given, so names live in a memory of C strings that is an argument.

  The locale \<open>binding_stack\<close> is what the scopes rely on; it is interpreted on the hash table.
\<close>

section \<open>The hash table\<close>

definition TABSIZE :: nat where
  "TABSIZE = 127"

record 'v tab_binder =
  b_key :: addr
  b_value :: "'v option"
  b_prevtop :: "addr option"

record 'v TAB_table =
  tab :: "nat \<Rightarrow> 'v tab_binder list"
  tab_top :: "addr option"

text \<open>\<open>((unsigned)key) % TABSIZE\<close>; the null pointer hashes to bucket 0.\<close>

definition key_index :: "addr option \<Rightarrow> nat" where
  "key_index k = (case k of None \<Rightarrow> 0 | Some a \<Rightarrow> unat (of_nat a :: 32 word) mod TABSIZE)"

definition TAB_empty :: "'v TAB_table" where
  "TAB_empty = \<lparr> tab = (\<lambda>i. []), tab_top = None \<rparr>"

definition TAB_enter :: "'v TAB_table \<Rightarrow> addr option \<Rightarrow> 'v option \<Rightarrow> 'v TAB_table option" where
  "TAB_enter t key v =
     (case key of
        None \<Rightarrow> None
      | Some k \<Rightarrow>
          (let index = key_index key;
               b = \<lparr> b_key = k, b_value = v, b_prevtop = tab_top t \<rparr>
           in Some (t\<lparr> tab := (tab t)(index := b # tab t index), tab_top := key \<rparr>)))"

fun chain_look :: "addr \<Rightarrow> 'v tab_binder list \<Rightarrow> 'v option" where
  "chain_look k [] = None"
| "chain_look k (b # bs) = (if b_key b = k then b_value b else chain_look k bs)"

definition TAB_look :: "'v TAB_table \<Rightarrow> addr option \<Rightarrow> 'v option option" where
  "TAB_look t key =
     (case key of None \<Rightarrow> None | Some k \<Rightarrow> Some (chain_look k (tab t (key_index key))))"

definition TAB_pop :: "'v TAB_table \<Rightarrow> (addr \<times> 'v option \<times> 'v TAB_table) option" where
  "TAB_pop t =
     (case tab_top t of
        None \<Rightarrow> None
      | Some k \<Rightarrow>
          (let index = key_index (Some k) in
           case tab t index of
             [] \<Rightarrow> None
           | b # bs \<Rightarrow>
               Some (b_key b, b_value b,
                     t\<lparr> tab := (tab t)(index := bs), tab_top := b_prevtop b \<rparr>)))"

definition tab_size :: "'v TAB_table \<Rightarrow> nat" where
  "tab_size t = (\<Sum>i<TABSIZE. length (tab t i))"

lemma key_index_less [simp]: "key_index k < TABSIZE"
  by (simp add: key_index_def TABSIZE_def split: option.split)

lemma tab_size_pop_chain:
  assumes "tab t i = b # bs" and "i < TABSIZE"
  shows "tab_size (t\<lparr> tab := (tab t)(i := bs), tab_top := p \<rparr>) < tab_size t"
  unfolding tab_size_def
  by (rule sum_strict_mono_ex1) (use assms in auto)

lemma TAB_pop_size: "TAB_pop t = Some (k, v, t') \<Longrightarrow> tab_size t' < tab_size t"
  by (auto simp: TAB_pop_def Let_def intro!: tab_size_pop_chain split: option.splits list.splits)

text \<open>
  \<open>TAB_dump\<close> takes the cells off one by one, calls \<open>show\<close> on each, and puts them back on
  the way out of the recursion. The model returns the calls in their order, and the table.
\<close>

function TAB_dump :: "'v TAB_table \<Rightarrow> ((addr \<times> 'v option) list \<times> 'v TAB_table) option" where
  "TAB_dump t =
     (let k = tab_top t; index = key_index k in
      case tab t index of
        [] \<Rightarrow> Some ([], t)
      | b # bs \<Rightarrow>
          (case TAB_dump (t\<lparr> tab := (tab t)(index := bs), tab_top := b_prevtop b \<rparr>) of
             None \<Rightarrow> None
           | Some (shown, t') \<Rightarrow>
               if tab_top t' = b_prevtop b \<and> tab t' index = bs
               then Some ((b_key b, b_value b) # shown,
                          t'\<lparr> tab := (tab t')(index := b # bs), tab_top := k \<rparr>)
               else None))"
  by auto
termination
  by (relation "measure tab_size") (simp, simp add: tab_size_pop_chain)

declare TAB_dump.simps [simp del]

section \<open>Scopes\<close>

text \<open>The binding of a symbol, and the scopes: \<open>marksym\<close> is the address of the static mark.\<close>

definition S_empty :: "'v TAB_table" where
  "S_empty = TAB_empty"

definition S_enter :: "'v TAB_table \<Rightarrow> addr option \<Rightarrow> 'v option \<Rightarrow> 'v TAB_table option" where
  "S_enter t sy v = TAB_enter t sy v"

definition S_look :: "'v TAB_table \<Rightarrow> addr option \<Rightarrow> 'v option option" where
  "S_look t sy = TAB_look t sy"

definition S_beginScope :: "addr \<Rightarrow> 'v TAB_table \<Rightarrow> 'v TAB_table option" where
  "S_beginScope marksym t = S_enter t (Some marksym) None"

function S_endScopeval_loop ::
    "addr \<Rightarrow> 'v TAB_table \<Rightarrow> 'v option list \<Rightarrow> ('v option list \<times> 'v TAB_table) option" where
  "S_endScopeval_loop marksym t vals =
     (case TAB_pop t of
        None \<Rightarrow> None
      | Some (s, dummy, t') \<Rightarrow>
          (let vals' = (if s \<noteq> marksym then vals @ [dummy] else vals) in
           if s \<noteq> marksym then S_endScopeval_loop marksym t' vals' else Some (vals', t')))"
  by auto
termination
  by (relation "measure (\<lambda>(m, t, vals). tab_size t)") (auto simp: TAB_pop_size)

definition S_endScopeval :: "addr \<Rightarrow> 'v TAB_table \<Rightarrow> ('v option list \<times> 'v TAB_table) option" where
  "S_endScopeval marksym t = S_endScopeval_loop marksym t []"

function S_endScope :: "addr \<Rightarrow> 'v TAB_table \<Rightarrow> 'v TAB_table option" where
  "S_endScope marksym t =
     (case TAB_pop t of
        None \<Rightarrow> None
      | Some (s, dummy, t') \<Rightarrow> if s \<noteq> marksym then S_endScope marksym t' else Some t')"
  by auto
termination
  by (relation "measure (\<lambda>(m, t). tab_size t)") (auto simp: TAB_pop_size)

text \<open>
  \<open>S_swapScope\<close> pops the current scope into \<open>buf\<close>, which has \<open>MAX_STR_LEN\<close> entries, two for a
  binding; a write past its end is undefined. It pops the scope below, and enters \<open>buf\<close> again
  from its end. A pair of the model's \<open>buf\<close> is two entries of the array.
\<close>

function S_swapScope_save :: "addr \<Rightarrow> 'v TAB_table \<Rightarrow> (addr \<times> 'v option) list \<Rightarrow>
    ((addr \<times> 'v option) list \<times> 'v TAB_table) option" where
  "S_swapScope_save marksym t buf =
     (case TAB_pop t of
        None \<Rightarrow> None
      | Some (s, v, t') \<Rightarrow>
          if 2 * int (length buf) + 1 < MAX_STR_LEN
          then (let buf' = buf @ [(s, v)] in
                if s \<noteq> marksym then S_swapScope_save marksym t' buf' else Some (buf', t'))
          else None)"
  by auto
termination
  by (relation "measure (\<lambda>(m, t, buf). tab_size t)") (auto simp: TAB_pop_size)

definition S_swapScope_restore ::
    "(addr \<times> 'v option) list \<Rightarrow> 'v TAB_table \<Rightarrow> 'v TAB_table option" where
  "S_swapScope_restore buf = foldM (\<lambda>(s, v) t. TAB_enter t (Some s) v) (rev buf)"

definition S_swapScope :: "addr \<Rightarrow> 'v TAB_table \<Rightarrow> 'v TAB_table option" where
  "S_swapScope marksym t =
     (case S_swapScope_save marksym t [] of
        None \<Rightarrow> None
      | Some (buf, t1) \<Rightarrow>
          (case S_endScope marksym t1 of
             None \<Rightarrow> None
           | Some t2 \<Rightarrow> S_swapScope_restore buf t2))"

definition S_dump :: "'v TAB_table \<Rightarrow> ((addr \<times> 'v option) list \<times> 'v TAB_table) option" where
  "S_dump t = TAB_dump t"

declare S_endScopeval_loop.simps [simp del] S_endScope.simps [simp del]
  S_swapScope_save.simps [simp del]

section \<open>Interned symbols\<close>

definition SYM_SIZE :: nat where
  "SYM_SIZE = 109"

record S_symbol =
  sym_addr :: addr
  sym_name :: addr

type_synonym strmem = "addr \<rightharpoonup> string"
type_synonym symhash = "nat \<Rightarrow> S_symbol list"

text \<open>\<open>char\<close> is signed, and \<open>h*65599 + *s\<close> wraps at 32 bits.\<close>

definition schar :: "char \<Rightarrow> int" where
  "schar c = (let n = of_char c in if n \<ge> 128 then n - 256 else n)"

definition sym_hash :: "string \<Rightarrow> 32 word" where
  "sym_hash s = foldl (\<lambda>h c. h * 65599 + word_of_int (schar c)) 0 s"

definition sym_index :: "string \<Rightarrow> nat" where
  "sym_index s = unat (sym_hash s) mod SYM_SIZE"

definition SymInit :: symhash where
  "SymInit = (\<lambda>i. [])"

fun sym_find :: "strmem \<Rightarrow> string \<Rightarrow> S_symbol list \<Rightarrow> S_symbol option option" where
  "sym_find M s [] = Some None"
| "sym_find M s (y # ys) =
     (case M (sym_name y) of
        None \<Rightarrow> None
      | Some n \<Rightarrow> if n = s then Some (Some y) else sym_find M s ys)"

definition S_Symbol :: "addr \<Rightarrow> strmem \<Rightarrow> addr \<Rightarrow> symhash \<Rightarrow> (S_symbol \<times> symhash) option" where
  "S_Symbol fresh M name H =
     (case M name of
        None \<Rightarrow> None
      | Some s \<Rightarrow>
          (let index = sym_index s in
           case sym_find M s (H index) of
             None \<Rightarrow> None
           | Some (Some y) \<Rightarrow> Some (y, H)
           | Some None \<Rightarrow>
               (let y = \<lparr> sym_addr = fresh, sym_name = name \<rparr>
                in Some (y, H(index := y # H index)))))"

text \<open>\<open>new_Symbol\<close> interns a private copy of the string, at the address \<open>copy\<close>.\<close>

definition new_Symbol ::
    "addr \<Rightarrow> addr \<Rightarrow> strmem \<Rightarrow> addr \<Rightarrow> symhash \<Rightarrow> (S_symbol \<times> strmem \<times> symhash) option" where
  "new_Symbol fresh copy M str H =
     (case M str of
        None \<Rightarrow> None
      | Some s \<Rightarrow>
          (let M' = M(copy \<mapsto> s) in
           case S_Symbol fresh M' copy H of
             None \<Rightarrow> None
           | Some (y, H') \<Rightarrow> Some (y, M', H')))"

definition S_name :: "S_symbol option \<Rightarrow> addr option" where
  "S_name sy = map_option sym_name sy"

section \<open>A stack of bindings\<close>

text \<open>The binding of a key that was entered last; null when there is none.\<close>

definition stack_look :: "addr \<Rightarrow> (addr \<times> 'v option) list \<Rightarrow> 'v option" where
  "stack_look k st = (case map_of st k of None \<Rightarrow> None | Some v \<Rightarrow> v)"

locale binding_stack =
  fixes rep :: "(addr \<times> 'v option) list \<Rightarrow> 't"
    and enter :: "'t \<Rightarrow> addr option \<Rightarrow> 'v option \<Rightarrow> 't option"
    and look :: "'t \<Rightarrow> addr option \<Rightarrow> 'v option option"
    and pop :: "'t \<Rightarrow> (addr \<times> 'v option \<times> 't) option"
  assumes enter_rep: "enter (rep st) (Some k) v = Some (rep ((k, v) # st))"
    and look_rep: "look (rep st) (Some k) = Some (stack_look k st)"
    and pop_rep: "pop (rep ((k, v) # st)) = Some (k, v, rep st)"
    and pop_empty: "pop (rep []) = None"
begin

lemma enters_rep: "foldM (\<lambda>(k, v) t. enter t (Some k) v) bs (rep st) = Some (rep (rev bs @ st))"
  by (induction bs arbitrary: st) (auto simp: enter_rep)

text \<open>A loop that pops until it meets the mark consumes one scope, and the table is at the end
  what it was before the scope began.\<close>

lemma unwind:
  assumes loop: "\<And>t acc. f t acc =
      (case pop t of
         None \<Rightarrow> None
       | Some (k, v, t') \<Rightarrow>
           (case h k v acc of
              None \<Rightarrow> None
            | Some acc' \<Rightarrow> if k \<noteq> m then f t' acc' else Some (acc', t')))"
    and "m \<notin> fst ` set cur"
  shows "f (rep (cur @ (m, v0) # st)) acc =
     foldM (\<lambda>(k, v). h k v) (cur @ [(m, v0)]) acc \<bind> (\<lambda>acc'. Some (acc', rep st))"
  using assms(2)
proof (induction cur arbitrary: acc)
  case Nil
  show ?case by (subst loop) (simp add: pop_rep split: option.split)
next
  case (Cons b cur)
  obtain k v where b: "b = (k, v)" by fastforce
  show ?case
    using Cons by (subst loop) (simp add: b pop_rep split: option.split)
qed

lemma unwind_no_mark:
  assumes loop: "\<And>t acc. f t acc =
      (case pop t of
         None \<Rightarrow> None
       | Some (k, v, t') \<Rightarrow>
           (case h k v acc of
              None \<Rightarrow> None
            | Some acc' \<Rightarrow> if k \<noteq> m then f t' acc' else Some (acc', t')))"
    and "m \<notin> fst ` set st"
  shows "f (rep st) acc = None"
  using assms(2)
proof (induction st arbitrary: acc)
  case Nil
  show ?case by (subst loop) (simp add: pop_empty)
next
  case (Cons b cur)
  obtain k v where b: "b = (k, v)" by fastforce
  show ?case
    using Cons by (subst loop) (simp add: b pop_rep split: option.split)
qed

end

text \<open>The table that holds a stack of bindings, and nothing else.\<close>

definition top_of :: "(addr \<times> 'v option) list \<Rightarrow> addr option" where
  "top_of st = (case st of [] \<Rightarrow> None | b # bs \<Rightarrow> Some (fst b))"

fun bucket :: "nat \<Rightarrow> (addr \<times> 'v option) list \<Rightarrow> 'v tab_binder list" where
  "bucket i [] = []"
| "bucket i ((k, v) # st) =
     (if key_index (Some k) = i
      then \<lparr> b_key = k, b_value = v, b_prevtop = top_of st \<rparr> # bucket i st
      else bucket i st)"

definition stack_table :: "(addr \<times> 'v option) list \<Rightarrow> 'v TAB_table" where
  "stack_table st = \<lparr> tab = (\<lambda>i. bucket i st), tab_top = top_of st \<rparr>"

lemma top_of_simps [simp]: "top_of [] = None" "top_of ((k, v) # st) = Some k"
  by (simp_all add: top_of_def)

lemma bucket_Cons_upd: "(\<lambda>i. bucket i ((k, v) # st)) =
   (\<lambda>i. bucket i st)(key_index (Some k) :=
      \<lparr> b_key = k, b_value = v, b_prevtop = top_of st \<rparr> # bucket (key_index (Some k)) st)"
  by auto

lemma bucket_restore: "(\<lambda>i. bucket i ((k, v) # st))(key_index (Some k) := bucket (key_index (Some k)) st) =
   (\<lambda>i. bucket i st)"
  by auto

lemma chain_look_bucket: "chain_look k (bucket (key_index (Some k)) st) = stack_look k st"
  by (induction st rule: bucket.induct) (auto simp: stack_look_def)

interpretation tb: binding_stack stack_table TAB_enter TAB_look TAB_pop
proof
  show "TAB_enter (stack_table st) (Some k) v = Some (stack_table ((k, v) # st))"
    for st k and v :: "'a option"
    by (simp only: TAB_enter_def stack_table_def bucket_Cons_upd) (simp add: Let_def)
  show "TAB_look (stack_table st) (Some k) = Some (stack_look k st)"
    for st k and v :: "'a option"
    by (simp add: TAB_look_def stack_table_def chain_look_bucket)
  show "TAB_pop (stack_table ((k, v) # st)) = Some (k, v, stack_table st)"
    for st k and v :: "'a option"
    using bucket_restore [of k v st] by (simp add: TAB_pop_def stack_table_def Let_def)
  show "TAB_pop (stack_table []) = (None :: (addr \<times> 'a option \<times> 'a TAB_table) option)"
    by (simp add: TAB_pop_def stack_table_def)
qed

lemma TAB_empty_stack: "TAB_empty = stack_table []"
  by (simp add: TAB_empty_def stack_table_def)

lemma TAB_dump_stack: "TAB_dump (stack_table st) = Some (st, stack_table st)"
proof (induction st)
  case Nil
  show ?case by (subst TAB_dump.simps) (simp add: stack_table_def)
next
  case (Cons b st)
  obtain k v where b: "b = (k, v)" by fastforce
  let ?i = "key_index (Some k)"
  let ?b = "\<lparr> b_key = k, b_value = v, b_prevtop = top_of st \<rparr>"
  have pop: "(stack_table ((k, v) # st))\<lparr> tab := (tab (stack_table ((k, v) # st)))(?i := bucket ?i st),
      tab_top := top_of st \<rparr> = stack_table st"
    using bucket_restore [of k v st] by (simp add: stack_table_def)
  have push: "(stack_table st)\<lparr> tab := (tab (stack_table st))(?i := ?b # bucket ?i st), tab_top := Some k \<rparr> =
      stack_table ((k, v) # st)"
    unfolding stack_table_def bucket_Cons_upd by simp
  have ids: "tab_top (stack_table ((k, v) # st)) = Some k"
    "tab (stack_table ((k, v) # st)) ?i = ?b # bucket ?i st"
    "tab_top (stack_table st) = top_of st" "tab (stack_table st) ?i = bucket ?i st"
    by (simp_all add: stack_table_def)
  show ?case
    unfolding b by (subst TAB_dump.simps) (simp add: ids Let_def pop push Cons.IH)
qed

section \<open>Scopes as segments of the stack\<close>

lemma endScope_stack:
  assumes "m \<notin> fst ` set cur"
  shows "S_endScope m (stack_table (cur @ (m, v0) # st)) = Some (stack_table st)"
proof -
  have acc: "foldM (\<lambda>(k, v) u. Some u) xs u = Some u" for xs :: "(addr \<times> 'a option) list" and u :: unit
    by (induction xs) auto
  have "map_option (Pair ()) (S_endScope m (stack_table (cur @ (m, v0) # st))) =
      foldM (\<lambda>(k, v) u. Some u) (cur @ [(m, v0)]) () \<bind> (\<lambda>u. Some (u, stack_table st))"
    by (rule tb.unwind [where f = "\<lambda>t u. map_option (Pair u) (S_endScope m t)", OF _ assms])
      (subst S_endScope.simps, auto split: option.split)
  then show ?thesis by (auto simp: acc)
qed

lemma endScope_no_mark:
  assumes "m \<notin> fst ` set st"
  shows "S_endScope m (stack_table st) = None"
proof -
  have "map_option (Pair ()) (S_endScope m (stack_table st)) = None"
    by (rule tb.unwind_no_mark [where f = "\<lambda>t u. map_option (Pair u) (S_endScope m t)"
          and h = "\<lambda>k v u. Some u", OF _ assms])
      (subst S_endScope.simps, auto split: option.split)
  then show ?thesis by simp
qed

text \<open>The two other loops, brought to the shape of the locale's lemmas.\<close>

lemma endScopeval_loop_shape:
  "S_endScopeval_loop m t vals =
    (case TAB_pop t of
       None \<Rightarrow> None
     | Some (k, v, t') \<Rightarrow>
         (case Some (if k \<noteq> m then vals @ [v] else vals) of
            None \<Rightarrow> None
          | Some acc \<Rightarrow> if k \<noteq> m then S_endScopeval_loop m t' acc else Some (acc, t')))"
  by (subst S_endScopeval_loop.simps) (auto simp: Let_def split: option.split)

lemma swap_save_shape:
  "S_swapScope_save m t buf =
    (case TAB_pop t of
       None \<Rightarrow> None
     | Some (k, v, t') \<Rightarrow>
         (case if 2 * int (length buf) + 1 < MAX_STR_LEN then Some (buf @ [(k, v)]) else None of
            None \<Rightarrow> None
          | Some acc \<Rightarrow> if k \<noteq> m then S_swapScope_save m t' acc else Some (acc, t')))"
  by (subst S_swapScope_save.simps) (auto simp: Let_def split: option.split)

lemma collect_vals:
  "m \<notin> fst ` set cur \<Longrightarrow>
   foldM (\<lambda>(k, v) acc. Some (if k \<noteq> m then acc @ [v] else acc)) cur vals = Some (vals @ map snd cur)"
  by (induction cur arbitrary: vals) auto

lemma collect_buf:
  "2 * int (length buf + length cur) \<le> MAX_STR_LEN \<Longrightarrow>
   foldM (\<lambda>(k, v) b. if 2 * int (length b) + 1 < MAX_STR_LEN then Some (b @ [(k, v)]) else None) cur buf =
     Some (buf @ cur)"
  by (induction cur arbitrary: buf) (auto simp: MAX_STR_LEN_def)

lemma collect_overflow:
  "2 * int (length buf) \<le> MAX_STR_LEN \<Longrightarrow> MAX_STR_LEN < 2 * int (length buf + length cur) \<Longrightarrow>
   foldM (\<lambda>(k, v) b. if 2 * int (length b) + 1 < MAX_STR_LEN then Some (b @ [(k, v)]) else None) cur buf =
     None"
  by (induction cur arbitrary: buf) (auto simp: MAX_STR_LEN_def)

lemma endScopeval_stack:
  assumes "m \<notin> fst ` set cur"
  shows "S_endScopeval m (stack_table (cur @ (m, v0) # st)) = Some (map snd cur, stack_table st)"
proof -
  have "S_endScopeval_loop m (stack_table (cur @ (m, v0) # st)) [] =
      foldM (\<lambda>(k, v) acc. Some (if k \<noteq> m then acc @ [v] else acc)) (cur @ [(m, v0)]) [] \<bind>
        (\<lambda>acc. Some (acc, stack_table st))"
    by (rule tb.unwind [OF endScopeval_loop_shape assms])
  then show ?thesis
    using collect_vals [OF assms, of "[]"] by (simp add: S_endScopeval_def)
qed

lemma swap_save_stack:
  assumes "m \<notin> fst ` set cur"
  shows "S_swapScope_save m (stack_table (cur @ (m, v0) # st)) [] =
     (if 2 * int (length cur + 1) \<le> MAX_STR_LEN then Some (cur @ [(m, v0)], stack_table st) else None)"
proof -
  have "S_swapScope_save m (stack_table (cur @ (m, v0) # st)) [] =
      foldM (\<lambda>(k, v) b. if 2 * int (length b) + 1 < MAX_STR_LEN then Some (b @ [(k, v)]) else None)
        (cur @ [(m, v0)]) [] \<bind> (\<lambda>b. Some (b, stack_table st))"
    by (rule tb.unwind [OF swap_save_shape assms])
  also have "\<dots> =
     (if 2 * int (length cur + 1) \<le> MAX_STR_LEN then Some (cur @ [(m, v0)], stack_table st) else None)"
    using collect_buf [of "[]" "cur @ [(m, v0)]"] collect_overflow [of "[]" "cur @ [(m, v0)]"]
    by (cases "2 * int (length cur + 1) \<le> MAX_STR_LEN") (simp_all add: MAX_STR_LEN_def del: foldM_append)
  finally show ?thesis .
qed

lemma swap_restore_stack: "S_swapScope_restore buf (stack_table st) = Some (stack_table (buf @ st))"
  using tb.enters_rep [of "rev buf" st] by (simp add: S_swapScope_restore_def)

lemma swapScope_core:
  assumes "m \<notin> fst ` set cur" and "m \<notin> fst ` set prev"
  shows "S_swapScope m (stack_table (cur @ (m, v1) # prev @ (m, v2) # st)) =
     (if 2 * int (length cur + 1) \<le> MAX_STR_LEN then Some (stack_table (cur @ (m, v1) # st)) else None)"
proof -
  have save: "S_swapScope_save m (stack_table (cur @ (m, v1) # prev @ (m, v2) # st)) [] =
     (if 2 * int (length cur + 1) \<le> MAX_STR_LEN then Some (cur @ [(m, v1)], stack_table (prev @ (m, v2) # st))
      else None)"
    by (rule swap_save_stack [OF assms(1)])
  show ?thesis
    using swap_restore_stack [of "cur @ [(m, v1)]" st]
    by (simp add: S_swapScope_def save endScope_stack [OF assms(2)])
qed

text \<open>One round of the loop of \<open>S_endScope\<close> that goes on.\<close>

inductive scope_step :: "addr \<Rightarrow> 'v TAB_table \<Rightarrow> 'v TAB_table \<Rightarrow> bool" for marksym where
  pop: "TAB_pop t = Some (s, v, t') \<Longrightarrow> s \<noteq> marksym \<Longrightarrow> scope_step marksym t t'"

code_pred scope_step .

inductive_simps scope_step_iff: "scope_step m t t'"

lemma scope_step_endScope: "scope_step m t t' \<Longrightarrow> S_endScope m t = S_endScope m t'"
  by (subst S_endScope.simps) (auto simp: scope_step_iff)

lemma scope_steps_empty:
  "m \<notin> fst ` set st \<Longrightarrow> (scope_step m ^^ length st) (stack_table st) (stack_table [])"
proof (induction st)
  case Nil
  show ?case by simp
next
  case (Cons b st)
  obtain k v where b: "b = (k, v)" by fastforce
  have "scope_step m (stack_table (b # st)) (stack_table st)"
    using Cons.prems tb.pop_rep [of k v st] by (auto simp: b scope_step_iff)
  moreover have "(scope_step m ^^ length st) (stack_table st) (stack_table [])"
    using Cons by simp
  ultimately show ?case by (simp only: length_Cons relpowp_Suc_I2)
qed

lemma TAB_pop_fails_iff: "TAB_pop (stack_table st) = None \<longleftrightarrow> stack_table st = TAB_empty"
proof (cases st)
  case Nil
  then show ?thesis by (simp add: TAB_empty_stack tb.pop_empty)
next
  case (Cons b bs)
  obtain k v where b: "b = (k, v)" by fastforce
  have "tab_top (stack_table st) \<noteq> tab_top TAB_empty"
    by (simp add: Cons b stack_table_def TAB_empty_def)
  then show ?thesis by (auto simp: Cons b tb.pop_rep)
qed

text \<open>A stack without the mark, or its current scope and the rest.\<close>

lemma scope_cases:
  obtains (unmarked) "m \<notin> fst ` set st"
    | (marked) cur v rest where "st = cur @ (m, v) # rest" and "m \<notin> fst ` set cur"
proof (cases "m \<in> fst ` set st")
  case True
  then obtain b where "b \<in> set st" "fst b = m" by auto
  then obtain cur c rest where c: "st = cur @ c # rest" "fst c = m" "\<forall>x\<in>set cur. fst x \<noteq> m"
    using split_list_first_propE [of st "\<lambda>x. fst x = m"] by metis
  show thesis by (rule marked [of cur "snd c" rest]) (use c in \<open>auto simp: prod_eq_iff\<close>)
qed (rule unmarked)

lemma endScopeval_no_mark:
  assumes "m \<notin> fst ` set st"
  shows "S_endScopeval m (stack_table st) = None"
  unfolding S_endScopeval_def by (rule tb.unwind_no_mark [OF endScopeval_loop_shape assms])

lemma swapScope_no_mark:
  assumes "m \<notin> fst ` set st"
  shows "S_swapScope m (stack_table st) = None"
proof -
  have "S_swapScope_save m (stack_table st) [] = None"
    by (rule tb.unwind_no_mark [OF swap_save_shape assms])
  then show ?thesis by (simp add: S_swapScope_def)
qed

lemma swapScope_one_mark:
  assumes "m \<notin> fst ` set cur" and "m \<notin> fst ` set rest"
  shows "S_swapScope m (stack_table (cur @ (m, v) # rest)) = None"
  using assms by (simp add: S_swapScope_def swap_save_stack endScope_no_mark)

lemma no_marks: "m \<notin> fst ` set st \<Longrightarrow> filter (\<lambda>b. fst b = m) st = [] \<and> takeWhile (\<lambda>b. fst b \<noteq> m) st = st"
  by (auto simp: filter_empty_conv takeWhile_eq_all_conv)

lemma marked_scope:
  assumes "m \<notin> fst ` set cur"
  shows "filter (\<lambda>b. fst b = m) (cur @ (m, v) # rest) = (m, v) # filter (\<lambda>b. fst b = m) rest"
    and "takeWhile (\<lambda>b. fst b \<noteq> m) (cur @ (m, v) # rest) = cur"
  using no_marks [OF assms] by (simp_all add: takeWhile_tail takeWhile_append)

lemma swapScope_succeeds_iff:
  "S_swapScope m (stack_table st) \<noteq> None \<longleftrightarrow>
     2 \<le> length (filter (\<lambda>b. fst b = m) st) \<and>
     2 * int (length (takeWhile (\<lambda>b. fst b \<noteq> m) st) + 1) \<le> MAX_STR_LEN"
proof (cases rule: scope_cases [of m st])
  case unmarked
  then show ?thesis by (simp add: swapScope_no_mark no_marks)
next
  case (marked cur v rest)
  show ?thesis
  proof (cases rule: scope_cases [of m rest])
    case unmarked
    then show ?thesis using marked by (simp add: swapScope_one_mark marked_scope no_marks)
  next
    case (marked prev w below)
    then show ?thesis
      using swapScope_core [OF \<open>m \<notin> fst ` set cur\<close> marked(2), of v w below]
      by (simp add: \<open>st = cur @ (m, v) # rest\<close> marked_scope \<open>m \<notin> fst ` set cur\<close> del: filter_append)
  qed
qed

section \<open>Interning\<close>

definition symbols :: "symhash \<Rightarrow> S_symbol set" where
  "symbols H = (\<Union>i. set (H i))"

text \<open>
  Every symbol has a readable name and is in the chain of its hash, no name is interned twice and
  no two symbols share an address.
\<close>

definition intern_ok :: "strmem \<Rightarrow> symhash \<Rightarrow> bool" where
  "intern_ok M H \<longleftrightarrow>
     (\<forall>i. \<forall>y\<in>set (H i). \<exists>s. M (sym_name y) = Some s \<and> sym_index s = i) \<and>
     (\<forall>y\<in>symbols H. \<forall>z\<in>symbols H. M (sym_name y) = M (sym_name z) \<longrightarrow> y = z) \<and>
     (\<forall>y\<in>symbols H. \<forall>z\<in>symbols H. sym_addr y = sym_addr z \<longrightarrow> y = z)"

lemma intern_okD:
  assumes "intern_ok M H"
  shows "y \<in> set (H i) \<Longrightarrow> \<exists>s. M (sym_name y) = Some s \<and> sym_index s = i"
    and "y \<in> symbols H \<Longrightarrow> z \<in> symbols H \<Longrightarrow> M (sym_name y) = M (sym_name z) \<Longrightarrow> y = z"
    and "y \<in> symbols H \<Longrightarrow> z \<in> symbols H \<Longrightarrow> sym_addr y = sym_addr z \<Longrightarrow> y = z"
  using assms unfolding intern_ok_def by blast+

lemma symbols_upd: "symbols (H(i := y # H i)) = insert y (symbols H)"
  by (auto simp: symbols_def split: if_splits)

lemma sym_find_cases:
  assumes "\<forall>y\<in>set ys. M (sym_name y) \<noteq> None"
  shows "(\<exists>y\<in>set ys. M (sym_name y) = Some s \<and> sym_find M s ys = Some (Some y)) \<or>
         ((\<forall>y\<in>set ys. M (sym_name y) \<noteq> Some s) \<and> sym_find M s ys = Some None)"
  using assms
proof (induction ys)
  case Nil
  show ?case by simp
next
  case (Cons z ys)
  then obtain n where n: "M (sym_name z) = Some n" by auto
  show ?case using Cons n by (cases "n = s") auto
qed

lemma symbol_with_name_in_chain:
  assumes "intern_ok M H" and "y \<in> symbols H" and "M (sym_name y) = Some s"
  shows "y \<in> set (H (sym_index s))"
  using assms intern_okD(1) [OF assms(1)] by (fastforce simp: symbols_def)

lemma S_Symbol_known:
  assumes ok: "intern_ok M H" and y: "y \<in> symbols H" "M (sym_name y) = Some s" and q: "M q = Some s"
  shows "S_Symbol g M q H = Some (y, H)"
proof -
  let ?c = "H (sym_index s)"
  have mem: "y \<in> set ?c"
    using symbol_with_name_in_chain [OF ok y] .
  have "\<forall>z\<in>set ?c. M (sym_name z) \<noteq> None"
    using intern_okD(1) [OF ok] by fastforce
  from sym_find_cases [OF this, of s] mem y
  obtain z where z: "z \<in> set ?c" "M (sym_name z) = Some s" "sym_find M s ?c = Some (Some z)"
    by blast
  have "z = y"
    by (rule intern_okD(2) [OF ok]) (use z y in \<open>auto simp: symbols_def\<close>)
  then show ?thesis
    using z q by (simp add: S_Symbol_def Let_def)
qed

lemma S_Symbol_new:
  assumes ok: "intern_ok M H" and none: "\<forall>y\<in>symbols H. M (sym_name y) \<noteq> Some s" and p: "M p = Some s"
  shows "S_Symbol f M p H =
     Some (\<lparr> sym_addr = f, sym_name = p \<rparr>,
           H(sym_index s := \<lparr> sym_addr = f, sym_name = p \<rparr> # H (sym_index s)))"
proof -
  have "\<forall>z\<in>set (H (sym_index s)). M (sym_name z) \<noteq> None"
    using intern_okD(1) [OF ok] by fastforce
  from sym_find_cases [OF this, of s] none
  have "sym_find M s (H (sym_index s)) = Some None"
    by (auto simp: symbols_def)
  then show ?thesis
    using p by (simp add: S_Symbol_def Let_def)
qed

lemma intern_ok_add:
  assumes ok: "intern_ok M H" and none: "\<forall>y\<in>symbols H. M (sym_name y) \<noteq> Some s"
    and y: "M (sym_name y) = Some s" and fresh: "\<forall>z\<in>symbols H. sym_addr z \<noteq> sym_addr y"
  shows "intern_ok M (H(sym_index s := y # H (sym_index s)))"
  unfolding intern_ok_def symbols_upd
proof (intro conjI)
  show "\<forall>i. \<forall>z\<in>set ((H(sym_index s := y # H (sym_index s))) i).
      \<exists>n. M (sym_name z) = Some n \<and> sym_index n = i"
    using intern_okD(1) [OF ok] y by (auto split: if_splits)
  show "\<forall>a\<in>insert y (symbols H). \<forall>b\<in>insert y (symbols H). M (sym_name a) = M (sym_name b) \<longrightarrow> a = b"
    using intern_okD(2) [OF ok] none y by auto
  show "\<forall>a\<in>insert y (symbols H). \<forall>b\<in>insert y (symbols H). sym_addr a = sym_addr b \<longrightarrow> a = b"
    using intern_okD(3) [OF ok] fresh by (auto 4 3 dest: sym)
qed

text \<open>Writing to memory that holds no name of a symbol changes nothing.\<close>

lemma sym_find_cong: "\<forall>y\<in>set ys. M' (sym_name y) = M (sym_name y) \<Longrightarrow> sym_find M' s ys = sym_find M s ys"
  by (induction ys) (auto split: option.split)

lemma intern_ok_cong:
  assumes same: "\<forall>y\<in>symbols H. M' (sym_name y) = M (sym_name y)" and ok: "intern_ok M H"
  shows "intern_ok M' H"
proof -
  have "M' (sym_name y) = M (sym_name y)" if "y \<in> set (H i)" for y i
    using same that by (auto simp: symbols_def)
  then show ?thesis using ok same unfolding intern_ok_def by auto
qed

lemma names_readable: "intern_ok M H \<Longrightarrow> y \<in> symbols H \<Longrightarrow> M (sym_name y) \<noteq> None"
  using intern_okD(1) by (fastforce simp: symbols_def)

text \<open>A symbol whose name is overwritten is not found under its old string any more.\<close>

lemma overwritten_symbol_is_lost:
  assumes ok: "intern_ok M H" and none: "\<forall>y\<in>symbols H. M (sym_name y) \<noteq> Some s" and p: "M p = Some s"
    and w: "s' \<noteq> s" and q: "q \<noteq> p" "M q = Some s"
  shows "S_Symbol g (M(p \<mapsto> s')) q (H(sym_index s := \<lparr> sym_addr = f, sym_name = p \<rparr> # H (sym_index s))) =
     Some (\<lparr> sym_addr = g, sym_name = q \<rparr>,
           H(sym_index s := \<lparr> sym_addr = g, sym_name = q \<rparr> # \<lparr> sym_addr = f, sym_name = p \<rparr> # H (sym_index s)))"
proof -
  let ?c = "H (sym_index s)"
  have sub: "set ?c \<subseteq> symbols H" by (auto simp: symbols_def)
  then have "\<forall>y\<in>set ?c. (M(p \<mapsto> s')) (sym_name y) = M (sym_name y)" using none p by fastforce
  then have "sym_find (M(p \<mapsto> s')) s ?c = sym_find M s ?c" by (rule sym_find_cong)
  moreover have "\<forall>y\<in>set ?c. M (sym_name y) \<noteq> None" using names_readable [OF ok] sub by blast
  ultimately have "sym_find (M(p \<mapsto> s')) s ?c = Some None"
    using sym_find_cases [of ?c M s] none sub by auto
  then show ?thesis using q w by (simp add: S_Symbol_def Let_def)
qed

lemma new_Symbol_new:
  assumes ok: "intern_ok M H" and none: "\<forall>y\<in>symbols H. M (sym_name y) \<noteq> Some s" and p: "M p = Some s"
    and copy: "M copy = None" and fresh: "\<forall>y\<in>symbols H. sym_addr y \<noteq> f"
  shows "\<exists>H'. new_Symbol f copy M p H = Some (\<lparr> sym_addr = f, sym_name = copy \<rparr>, M(copy \<mapsto> s), H') \<and>
     intern_ok (M(copy \<mapsto> s)) H' \<and> symbols H' = insert \<lparr> sym_addr = f, sym_name = copy \<rparr> (symbols H)"
proof -
  let ?M = "M(copy \<mapsto> s)" and ?y = "\<lparr> sym_addr = f, sym_name = copy \<rparr>"
  have same: "\<forall>y\<in>symbols H. ?M (sym_name y) = M (sym_name y)"
    using names_readable [OF ok] copy by fastforce
  have ok': "intern_ok ?M H" by (rule intern_ok_cong [OF same ok])
  have none': "\<forall>y\<in>symbols H. ?M (sym_name y) \<noteq> Some s" using same none by auto
  have "S_Symbol f ?M copy H = Some (?y, H(sym_index s := ?y # H (sym_index s)))"
    by (rule S_Symbol_new [OF ok' none']) simp
  moreover have "intern_ok ?M (H(sym_index s := ?y # H (sym_index s)))"
    by (rule intern_ok_add [OF ok' none']) (use fresh in auto)
  ultimately show ?thesis
    using p by (auto simp: new_Symbol_def Let_def symbols_upd)
qed

section \<open>Properties\<close>

text \<open>
  C12: A symbol table is a stack of bindings. On the table that holds the bindings \<open>st\<close>, entering
  pushes, looking a key up gives its most recent binding, null when it has none, popping removes
  and returns the binding entered last whatever its hash bucket, popping an empty table fails
  the assertion, and dumping shows all bindings from the most recent to the oldest and leaves the
  table as it was.
\<close>

theorem symbol_table_is_stack:
  "TAB_empty = stack_table [] \<and>
   TAB_enter (stack_table st) None v = None \<and>
   TAB_enter (stack_table st) (Some k) v = Some (stack_table ((k, v) # st)) \<and>
   TAB_look (stack_table st) (Some k) = Some (case map_of st k of None \<Rightarrow> None | Some w \<Rightarrow> w) \<and>
   TAB_pop (stack_table st) =
     (case st of [] \<Rightarrow> None | (k', v') # st' \<Rightarrow> Some (k', v', stack_table st')) \<and>
   TAB_dump (stack_table st) = Some (st, stack_table st)"
proof (intro conjI)
  show "TAB_pop (stack_table st) =
      (case st of [] \<Rightarrow> None | (k', v') # st' \<Rightarrow> Some (k', v', stack_table st'))"
    by (simp add: tb.pop_empty tb.pop_rep split: list.split)
qed (simp_all add: TAB_empty_stack TAB_enter_def [of _ None] tb.enter_rep tb.look_rep stack_look_def
       TAB_dump_stack)

text \<open>
  C16: Ending a scope undoes it. After \<open>S_beginScope\<close> and any entries, none of them for the mark,
  a lookup finds the entries of the scope before those outside, \<open>S_endScope\<close> gives back exactly
  the table from before, and \<open>S_endScopeval\<close> also returns the values of the scope, the last
  entered first.
\<close>

theorem scope_roundtrip:
  assumes "marksym \<notin> fst ` set bs"
  shows "\<exists>t. S_beginScope marksym (stack_table st) \<bind> foldM (\<lambda>(k, v) t. S_enter t (Some k) v) bs = Some t \<and>
     (\<forall>k. k \<noteq> marksym \<longrightarrow>
        S_look t (Some k) =
          (if k \<in> fst ` set bs then Some (the (map_of (rev bs) k)) else S_look (stack_table st) (Some k))) \<and>
     S_endScope marksym t = Some (stack_table st) \<and>
     S_endScopeval marksym t = Some (rev (map snd bs), stack_table st)"
proof -
  let ?t = "stack_table (rev bs @ (marksym, None) # st)"
  have mark: "marksym \<notin> fst ` set (rev bs)" using assms by simp
  have built: "S_beginScope marksym (stack_table st) \<bind> foldM (\<lambda>(k, v) t. S_enter t (Some k) v) bs = Some ?t"
    by (simp add: S_beginScope_def S_enter_def tb.enter_rep tb.enters_rep)
  have dom: "map_of (rev bs) k = None \<longleftrightarrow> k \<notin> fst ` set bs" for k
    by (simp add: map_of_eq_None_iff)
  have look: "S_look ?t (Some k) =
      (if k \<in> fst ` set bs then Some (the (map_of (rev bs) k)) else S_look (stack_table st) (Some k))"
    if "k \<noteq> marksym" for k
    using that dom [of k]
    by (cases "map_of (rev bs) k") (auto simp: S_look_def tb.look_rep stack_look_def map_add_def)
  show ?thesis
    using built look endScope_stack [OF mark] endScopeval_stack [OF mark] by (auto simp: rev_map)
qed

theorem scope_roundtrip_witness:
  "\<exists>t. S_beginScope 1 (stack_table [(5, Some ''x'')]) \<bind>
         foldM (\<lambda>(k, v) t. S_enter t (Some k) v) [(5, Some ''y''), (132, None)] = Some t \<and>
     S_look t (Some 5) = Some (Some ''y'') \<and>
     S_endScope 1 t = Some (stack_table [(5, Some ''x'')]) \<and>
     S_endScopeval 1 t = Some ([None, Some ''y''], stack_table [(5, Some ''x'')])"
proof -
  from scope_roundtrip [of 1 "[(5, Some ''y''), (132, None)]" "[(5, Some ''x'')]"]
  obtain t where t: "S_beginScope 1 (stack_table [(5, Some ''x'')]) \<bind>
         foldM (\<lambda>(k, v) t. S_enter t (Some k) v) [(5, Some ''y''), (132, None)] = Some t"
      "\<forall>k. k \<noteq> 1 \<longrightarrow> S_look t (Some k) =
        (if k \<in> fst ` set [(5, Some ''y''), (132, None)]
         then Some (the (map_of (rev [(5, Some ''y''), (132, None)]) k))
         else S_look (stack_table [(5, Some ''x'')]) (Some k))"
      "S_endScope 1 t = Some (stack_table [(5, Some ''x'')])"
      "S_endScopeval 1 t = Some (rev (map snd [(5, Some ''y''), (132, None)]), stack_table [(5, Some ''x'')])"
    by (auto simp del: foldM.simps)
  from t(2) have "S_look t (Some 5) = Some (Some ''y'')" by simp
  with t show ?thesis by auto
qed

text \<open>
  C30: \<open>S_swapScope\<close> removes the scope below the current one and keeps the current one, entry by
  entry, as long as the scope with its mark fits the buffer of \<open>MAX_STR_LEN\<close> pointers; for a
  larger scope it writes past the end of the buffer.
\<close>

theorem swapScope_removes_scope_below:
  assumes "marksym \<notin> fst ` set cur" and "marksym \<notin> fst ` set prev"
  shows "S_swapScope marksym (stack_table (cur @ (marksym, v1) # prev @ (marksym, v2) # st)) =
     (if 2 * int (length cur + 1) \<le> MAX_STR_LEN
      then Some (stack_table (cur @ (marksym, v1) # st)) else None)"
  using assms by (rule swapScope_core)

theorem swapScope_removes_scope_below_witness:
  "S_swapScope 1 (stack_table [(5, Some ''a''), (1, None), (6, Some ''b''), (1, None), (7, Some ''c'')]) =
     Some (stack_table [(5, Some ''a''), (1, None), (7, Some ''c'')])"
  using swapScope_removes_scope_below [of 1 "[(5, Some ''a'')]" "[(6, Some ''b'')]" None None "[(7, Some ''c'')]"]
  by (simp add: MAX_STR_LEN_def)

text \<open>
  C37: When ending a scope fails, and how. \<open>S_endScope\<close> and \<open>S_endScopeval\<close> fail exactly when no scope
  was begun. Then the loop of \<open>S_endScope\<close> pops every binding, one per round, and reaches the empty
  table, on which \<open>TAB_pop\<close> fails the assertion for its top; on no table with a binding does it fail.
  \<open>S_swapScope\<close> succeeds exactly when two scopes were begun and the current one with its mark
  fits the buffer of \<open>MAX_STR_LEN\<close> pointers.
\<close>

theorem scope_ends_fail_exactly:
  fixes st :: "(addr \<times> 'v option) list"
  shows "(S_endScope marksym (stack_table st) = None \<longleftrightarrow> marksym \<notin> fst ` set st) \<and>
   (S_endScopeval marksym (stack_table st) = None \<longleftrightarrow> marksym \<notin> fst ` set st) \<and>
   (marksym \<notin> fst ` set st \<longrightarrow> (scope_step marksym ^^ length st) (stack_table st) TAB_empty) \<and>
   (\<forall>t t'. scope_step marksym t t' \<longrightarrow> S_endScope marksym t = S_endScope marksym (t' :: 'v TAB_table)) \<and>
   (TAB_pop (stack_table st) = None \<longleftrightarrow> stack_table st = TAB_empty) \<and>
   (S_swapScope marksym (stack_table st) \<noteq> None \<longleftrightarrow>
      2 \<le> length (filter (\<lambda>b. fst b = marksym) st) \<and>
      2 * int (length (takeWhile (\<lambda>b. fst b \<noteq> marksym) st) + 1) \<le> MAX_STR_LEN)"
proof (intro conjI impI allI)
  show "S_endScope marksym (stack_table st) = None \<longleftrightarrow> marksym \<notin> fst ` set st"
    by (cases rule: scope_cases [of marksym st]) (auto simp: endScope_no_mark endScope_stack)
  show "S_endScopeval marksym (stack_table st) = None \<longleftrightarrow> marksym \<notin> fst ` set st"
    by (cases rule: scope_cases [of marksym st]) (auto simp: endScopeval_no_mark endScopeval_stack)
  show "(scope_step marksym ^^ length st) (stack_table st) TAB_empty" if "marksym \<notin> fst ` set st"
    using scope_steps_empty [OF that] by (simp add: TAB_empty_stack)
qed (rule TAB_pop_fails_iff scope_step_endScope swapScope_succeeds_iff, assumption?)+

theorem scope_ends_fail_exactly_witness:
  "(scope_step 1 ^^ 2) (stack_table [(5, Some ''x''), (132, None)]) TAB_empty \<and>
   S_endScope 1 (stack_table [(5, Some ''x''), (132, None)]) = None"
  using scope_ends_fail_exactly [of 1 "[(5, Some ''x''), (132, None)]"] by (simp add: numeral_2_eq_2)

text \<open>
  C15: Interning gives one symbol per string. On a well-formed symbol table, with the allocator
  returning an address no symbol has, \<open>S_Symbol\<close> on a readable name returns a symbol with that name and keeps the table well
  formed, no symbol is lost; a second call with an equal string at any address returns the same
  symbol and changes nothing; and of all symbols only this one has this string, and only it has
  this address, so comparing addresses compares names.
\<close>

theorem S_Symbol_interns:
  assumes "intern_ok M H" and "M p = Some s" and "\<forall>y\<in>symbols H. sym_addr y \<noteq> fresh"
  shows "\<exists>y H'. S_Symbol fresh M p H = Some (y, H') \<and> intern_ok M H' \<and> symbols H' = insert y (symbols H) \<and>
     M (sym_name y) = Some s \<and>
     (\<forall>g q. M q = Some s \<longrightarrow> S_Symbol g M q H' = Some (y, H')) \<and>
     (\<forall>z\<in>symbols H'. sym_addr z = sym_addr y \<longleftrightarrow> M (sym_name z) = Some s)"
proof -
  have "\<exists>y H'. S_Symbol fresh M p H = Some (y, H') \<and> intern_ok M H' \<and> symbols H' = insert y (symbols H) \<and>
      M (sym_name y) = Some s"
  proof (cases "\<exists>y\<in>symbols H. M (sym_name y) = Some s")
    case True
    then obtain y where y: "y \<in> symbols H" "M (sym_name y) = Some s" by blast
    from S_Symbol_known [OF assms(1) y assms(2)] show ?thesis
      using assms(1) y by (auto simp: insert_absorb)
  next
    case False
    let ?y = "\<lparr> sym_addr = fresh, sym_name = p \<rparr>"
    let ?H = "H(sym_index s := ?y # H (sym_index s))"
    have none: "\<forall>y\<in>symbols H. M (sym_name y) \<noteq> Some s" using False by blast
    have "S_Symbol fresh M p H = Some (?y, ?H)"
      by (rule S_Symbol_new [OF assms(1) none assms(2)])
    moreover have "intern_ok M ?H"
      by (rule intern_ok_add [OF assms(1) none]) (use assms(2,3) in auto)
    ultimately show ?thesis
      using assms(2) symbols_upd by fastforce
  qed
  then obtain y H' where y: "S_Symbol fresh M p H = Some (y, H')" "intern_ok M H'"
    "symbols H' = insert y (symbols H)" "M (sym_name y) = Some s" by blast
  have mem: "y \<in> symbols H'" using y(3) by simp
  have again: "S_Symbol g M q H' = Some (y, H')" if "M q = Some s" for g q
    by (rule S_Symbol_known [OF y(2) mem y(4) that])
  have unique: "sym_addr z = sym_addr y \<longleftrightarrow> M (sym_name z) = Some s" if "z \<in> symbols H'" for z
    using intern_okD(2,3) [OF y(2) that mem] y(4) by auto
  show ?thesis using y again unique by blast
qed

theorem S_Symbol_interns_witness:
  "\<exists>y H'. S_Symbol 500 [10 \<mapsto> ''a'', 20 \<mapsto> ''a''] 10 SymInit = Some (y, H') \<and>
     S_Symbol 501 [10 \<mapsto> ''a'', 20 \<mapsto> ''a''] 20 H' = Some (y, H')"
proof -
  have ok: "intern_ok [10 \<mapsto> ''a'', 20 \<mapsto> ''a''] SymInit" "\<forall>y\<in>symbols SymInit. sym_addr y \<noteq> 500"
    by (simp_all add: intern_ok_def symbols_def SymInit_def)
  show ?thesis
    using S_Symbol_interns [OF ok(1) _ ok(2), of 10 "''a''"] by fastforce
qed

text \<open>
  C35: \<open>S_Symbol\<close> keeps the caller's pointer. When a string \<open>s\<close> that is not interned yet is interned
  from a buffer \<open>p\<close> and the caller then writes another string to the buffer, interning \<open>s\<close> again
  from elsewhere makes a second symbol with another address, and the table is no longer well formed
  if the new content has another hash index. \<open>new_Symbol\<close> interns a copy, at an address the
  allocator returns: after the same write the table is well formed and \<open>s\<close> has the same symbol.
\<close>

theorem S_Symbol_keeps_caller_buffer:
  assumes "intern_ok M H" and "\<forall>y\<in>symbols H. M (sym_name y) \<noteq> Some s" and "M p = Some s"
    and "q \<noteq> p" and "M q = Some s" and "s' \<noteq> s"
    and "\<forall>y\<in>symbols H. sym_addr y \<noteq> f" and "g \<noteq> f" and "M copy = None"
  shows "(\<exists>y H'. S_Symbol f M p H = Some (y, H') \<and>
            (\<exists>z H''. S_Symbol g (M(p \<mapsto> s')) q H' = Some (z, H'') \<and> sym_addr z \<noteq> sym_addr y) \<and>
            (sym_index s' \<noteq> sym_index s \<longrightarrow> \<not> intern_ok (M(p \<mapsto> s')) H')) \<and>
     (\<exists>y M' H'. new_Symbol f copy M p H = Some (y, M', H') \<and>
            S_Symbol g (M'(p \<mapsto> s')) q H' = Some (y, H') \<and> intern_ok (M'(p \<mapsto> s')) H')"
proof
  let ?y = "\<lparr> sym_addr = f, sym_name = p \<rparr>"
  let ?H = "H(sym_index s := ?y # H (sym_index s))"
  have "S_Symbol f M p H = Some (?y, ?H)" by (rule S_Symbol_new [OF assms(1-3)])
  moreover have "\<not> intern_ok (M(p \<mapsto> s')) ?H" if "sym_index s' \<noteq> sym_index s"
    using that intern_okD(1) [of "M(p \<mapsto> s')" ?H ?y "sym_index s"] by auto
  ultimately show "\<exists>y H'. S_Symbol f M p H = Some (y, H') \<and>
      (\<exists>z H''. S_Symbol g (M(p \<mapsto> s')) q H' = Some (z, H'') \<and> sym_addr z \<noteq> sym_addr y) \<and>
      (sym_index s' \<noteq> sym_index s \<longrightarrow> \<not> intern_ok (M(p \<mapsto> s')) H')"
    using overwritten_symbol_is_lost [OF assms(1-3,6,4,5), of g f] assms(8) by auto
next
  let ?c = "\<lparr> sym_addr = f, sym_name = copy \<rparr>" and ?M = "M(copy \<mapsto> s)"
  obtain H' where n: "new_Symbol f copy M p H = Some (?c, ?M, H')" "intern_ok ?M H'"
    "symbols H' = insert ?c (symbols H)"
    using new_Symbol_new [OF assms(1-3,9,7)] by blast
  have "\<forall>y\<in>symbols H'. (?M(p \<mapsto> s')) (sym_name y) = ?M (sym_name y)"
    using assms(2,3,9) unfolding n(3) by fastforce
  then have ok: "intern_ok (?M(p \<mapsto> s')) H'" using n(2) by (rule intern_ok_cong)
  have "S_Symbol g (?M(p \<mapsto> s')) q H' = Some (?c, H')"
    by (rule S_Symbol_known [OF ok]) (use assms(3-5,9) n(3) in auto)
  then show "\<exists>y M' H'. new_Symbol f copy M p H = Some (y, M', H') \<and>
      S_Symbol g (M'(p \<mapsto> s')) q H' = Some (y, H') \<and> intern_ok (M'(p \<mapsto> s')) H'"
    using n(1) ok by blast
qed

theorem S_Symbol_keeps_caller_buffer_witness:
  "\<exists>y H z H'. S_Symbol 500 [10 \<mapsto> ''ab'', 20 \<mapsto> ''ab''] 10 SymInit = Some (y, H) \<and>
     S_Symbol 501 [10 \<mapsto> ''xy'', 20 \<mapsto> ''ab''] 20 H = Some (z, H') \<and> sym_addr z \<noteq> sym_addr y \<and>
     \<not> intern_ok [10 \<mapsto> ''xy'', 20 \<mapsto> ''ab''] H"
proof -
  let ?M = "[10 \<mapsto> ''ab'', 20 \<mapsto> ''ab'']"
  have idx: "sym_index ''xy'' \<noteq> sym_index ''ab''"
    by (simp add: sym_index_def sym_hash_def schar_def SYM_SIZE_def Let_def)
  have ok: "intern_ok ?M SymInit" "symbols SymInit = {}"
    by (simp_all add: intern_ok_def symbols_def SymInit_def)
  have upd: "?M(10 \<mapsto> ''xy'') = ([10 \<mapsto> ''xy'', 20 \<mapsto> ''ab''] :: strmem)" by (rule ext) simp
  show ?thesis
    using S_Symbol_keeps_caller_buffer [OF ok(1), of "''ab''" 10 20 "''xy''" 500 501 30] idx ok(2)
    unfolding upd by auto
qed

end
