(* ===== verification/SqlTypes.thy ===== *)
theory SqlTypes
  imports NtList SymTab
begin

text \<open>
  The types of the compiler (\<open>sql/types.cc\<close>).

  \<^item> Type objects, fields and field lists are shared by pointer, and two of the operations change
    type objects in place, so they live in an explicit store: \<open>tstore\<close> maps addresses to type
    objects, fields and lists (\<open>NtList\<close>), holds the static pointers of the parameterless
    types (\<open>singles\<close>, null until the first call) and the next free address. Nothing is ever freed.
  \<^item> A union is the member that was written last; reading another member, or one that was never
    written, is undefined.
  \<^item> \<open>Ty_ty &source\<close> is a pointer variable of the caller: \<open>extendType\<close> returns its new value, and
    the caller stores it.
  \<^item> Types may be cyclic, so the recursive operations take fuel.
\<close>

section \<open>Data\<close>

datatype ty_t =
  Ty_record | Ty_nil | Ty_int | Ty_real | Ty_string | Ty_array | Ty_name | Ty_void | Ty_ref |
  Ty_timestamp | Ty_iext | Ty_rext | Ty_cext | Ty_text

text \<open>The number of an enumerator, which indexes the tables.\<close>

fun ty_num :: "ty_t \<Rightarrow> nat" where
  "ty_num Ty_record = 0" | "ty_num Ty_nil = 1" | "ty_num Ty_int = 2" | "ty_num Ty_real = 3"
| "ty_num Ty_string = 4" | "ty_num Ty_array = 5" | "ty_num Ty_name = 6" | "ty_num Ty_void = 7"
| "ty_num Ty_ref = 8" | "ty_num Ty_timestamp = 9" | "ty_num Ty_iext = 10" | "ty_num Ty_rext = 11"
| "ty_num Ty_cext = 12" | "ty_num Ty_text = 13"

datatype ty_union = U_unset | U_record "addr option" | U_array addr | U_name "addr option" addr

record ty_obj =
  ty_kind :: ty_t
  ty_u :: ty_union

record ty_field =
  f_name :: "addr option"
  f_ty :: addr
  f_ref :: "addr option"
  f_implicit :: int
  f_iskey :: int
  f_isTimekey :: int
  f_size :: int

record tstore =
  tys :: "addr \<rightharpoonup> ty_obj"
  flds :: "addr \<rightharpoonup> ty_field"
  lsts :: "addr \<rightharpoonup> addr A_list"
  singles :: "ty_t \<Rightarrow> addr option"
  brk :: addr

section \<open>Making types\<close>

definition alloc_ty :: "ty_obj \<Rightarrow> tstore \<Rightarrow> addr \<times> tstore" where
  "alloc_ty obj \<sigma> = (brk \<sigma>, \<sigma>\<lparr> tys := (tys \<sigma>)(brk \<sigma> \<mapsto> obj), brk := brk \<sigma> + 1 \<rparr>)"

text \<open>The common text of \<open>Ty_Nil\<close>, \<open>Ty_Int\<close> and the others: one object, made at the first call.\<close>

definition Ty_single :: "ty_t \<Rightarrow> tstore \<Rightarrow> addr \<times> tstore" where
  "Ty_single k \<sigma> =
     (case singles \<sigma> k of
        Some a \<Rightarrow> (a, \<sigma>)
      | None \<Rightarrow>
          (case alloc_ty \<lparr> ty_kind = k, ty_u = U_unset \<rparr> \<sigma> of
             (a, \<sigma>') \<Rightarrow> (a, \<sigma>'\<lparr> singles := (singles \<sigma>')(k \<mapsto> a) \<rparr>)))"

definition Ty_Nil :: "tstore \<Rightarrow> addr \<times> tstore" where "Ty_Nil = Ty_single Ty_nil"
definition Ty_Int :: "tstore \<Rightarrow> addr \<times> tstore" where "Ty_Int = Ty_single Ty_int"
definition Ty_REF :: "tstore \<Rightarrow> addr \<times> tstore" where "Ty_REF = Ty_single Ty_ref"
definition Ty_Real :: "tstore \<Rightarrow> addr \<times> tstore" where "Ty_Real = Ty_single Ty_real"
definition Ty_String :: "tstore \<Rightarrow> addr \<times> tstore" where "Ty_String = Ty_single Ty_string"
definition Ty_Timestamp :: "tstore \<Rightarrow> addr \<times> tstore" where "Ty_Timestamp = Ty_single Ty_timestamp"
definition Ty_IExt :: "tstore \<Rightarrow> addr \<times> tstore" where "Ty_IExt = Ty_single Ty_iext"
definition Ty_RExt :: "tstore \<Rightarrow> addr \<times> tstore" where "Ty_RExt = Ty_single Ty_rext"
definition Ty_CExt :: "tstore \<Rightarrow> addr \<times> tstore" where "Ty_CExt = Ty_single Ty_cext"
definition Ty_TExt :: "tstore \<Rightarrow> addr \<times> tstore" where "Ty_TExt = Ty_single Ty_text"
definition Ty_Void :: "tstore \<Rightarrow> addr \<times> tstore" where "Ty_Void = Ty_single Ty_void"

definition Ty_Record :: "addr option \<Rightarrow> tstore \<Rightarrow> addr \<times> tstore" where
  "Ty_Record fl = alloc_ty \<lparr> ty_kind = Ty_record, ty_u = U_record fl \<rparr>"

definition Ty_Ref_fields :: "addr option \<Rightarrow> tstore \<Rightarrow> addr \<times> tstore" where
  "Ty_Ref_fields fl = alloc_ty \<lparr> ty_kind = Ty_ref, ty_u = U_record fl \<rparr>"

definition u_record :: "ty_obj \<Rightarrow> addr option option" where
  "u_record obj = (case ty_u obj of U_record l \<Rightarrow> Some l | _ \<Rightarrow> None)"

definition Ty_Ref :: "addr \<Rightarrow> tstore \<Rightarrow> (addr \<times> tstore) option" where
  "Ty_Ref record_ty \<sigma> = do {
     obj \<leftarrow> tys \<sigma> record_ty;
     fl \<leftarrow> u_record obj;
     Some (alloc_ty \<lparr> ty_kind = Ty_ref, ty_u = U_record fl \<rparr> \<sigma>)
   }"

definition Ty_Array :: "addr \<Rightarrow> tstore \<Rightarrow> addr \<times> tstore" where
  "Ty_Array ty = alloc_ty \<lparr> ty_kind = Ty_array, ty_u = U_array ty \<rparr>"

definition Ty_Name :: "addr option \<Rightarrow> addr \<Rightarrow> tstore \<Rightarrow> addr \<times> tstore" where
  "Ty_Name s ty = alloc_ty \<lparr> ty_kind = Ty_name, ty_u = U_name s ty \<rparr>"

definition alloc_field :: "ty_field \<Rightarrow> tstore \<Rightarrow> addr \<times> tstore" where
  "alloc_field f \<sigma> = (brk \<sigma>, \<sigma>\<lparr> flds := (flds \<sigma>)(brk \<sigma> \<mapsto> f), brk := brk \<sigma> + 1 \<rparr>)"

definition Ty_Field_ref :: "addr option \<Rightarrow> addr option \<Rightarrow> addr \<Rightarrow> tstore \<Rightarrow> addr \<times> tstore" where
  "Ty_Field_ref name ref ty =
     alloc_field \<lparr> f_name = name, f_ty = ty, f_ref = ref, f_implicit = 0, f_iskey = 0,
                   f_isTimekey = 0, f_size = 0 \<rparr>"

definition Ty_Field :: "addr option \<Rightarrow> addr \<Rightarrow> int \<Rightarrow> tstore \<Rightarrow> addr \<times> tstore" where
  "Ty_Field name ty sz =
     alloc_field \<lparr> f_name = name, f_ty = ty, f_ref = None, f_implicit = 0, f_iskey = 0,
                   f_isTimekey = 0, f_size = sz \<rparr>"

section \<open>Printing and sizes\<close>

definition str_ty :: "string list" where
  "str_ty = [''ty_record'', ''ty_nil'', ''ty_int'', ''ty_real'', ''ty_timestamp'', ''ty_string'',
     ''ty_array'', ''ty_name'', ''ty_void'', ''ty_ref'']"

text \<open>\<open>Ty_print\<close> with the text of the symbols' names as an argument; \<open>None\<close> of the result is a
  read past the end of the table.\<close>

definition Ty_print :: "(addr option \<Rightarrow> string) \<Rightarrow> tstore \<Rightarrow> addr option \<Rightarrow> string option" where
  "Ty_print name \<sigma> t =
     (case t of
        None \<Rightarrow> Some ''null''
      | Some a \<Rightarrow> do {
          obj \<leftarrow> tys \<sigma> a;
          guard (ty_num (ty_kind obj) < length str_ty);
          (if ty_kind obj = Ty_name
           then (case ty_u obj of
                   U_name s ty \<Rightarrow> Some (str_ty ! ty_num (ty_kind obj) @ '', '' @ name s)
                 | _ \<Rightarrow> None)
           else Some (str_ty ! ty_num (ty_kind obj)))
        })"

text \<open>The table for the 32-bit target: \<open>int\<close> has 4 bytes, \<open>double\<close> 8, \<open>struct timeval\<close> 8.\<close>

definition typeSize :: "(int \<times> int) list" where
  "typeSize = [(10, 4), (20, 4), (10, 4), (10, 8), (20, 0), (0, 0), (0, 0), (0, 0), (10, 4), (10, 8)]"

definition getDisplaySize :: "tstore \<Rightarrow> addr \<Rightarrow> int option" where
  "getDisplaySize \<sigma> t = do {
     obj \<leftarrow> tys \<sigma> t;
     guard (ty_num (ty_kind obj) < length typeSize);
     Some (fst (typeSize ! ty_num (ty_kind obj)))
   }"

definition getStorageSize :: "tstore \<Rightarrow> addr \<Rightarrow> int option" where
  "getStorageSize \<sigma> t = do {
     obj \<leftarrow> tys \<sigma> t;
     guard (ty_num (ty_kind obj) < length typeSize);
     Some (snd (typeSize ! ty_num (ty_kind obj)))
   }"

section \<open>Comparing types\<close>

text \<open>A field of a list, by its position: the pointer and what it points to.\<close>

definition field_at :: "tstore \<Rightarrow> addr A_list \<Rightarrow> int \<Rightarrow> (addr \<times> ty_field) option" where
  "field_at \<sigma> l i = do {
     p \<leftarrow> getNthElementList l i;
     a \<leftarrow> p;
     f \<leftarrow> flds \<sigma> a;
     Some (a, f)
   }"

definition list_at :: "tstore \<Rightarrow> addr option \<Rightarrow> addr A_list option" where
  "list_at \<sigma> p = do { a \<leftarrow> p; lsts \<sigma> a }"

text \<open>
  The loop over two field lists: the body, which may change the store, is run on the pairs of
  fields at the same positions until it returns zero.
\<close>

fun pair_loop ::
    "(addr \<Rightarrow> ty_field \<Rightarrow> addr \<Rightarrow> ty_field \<Rightarrow> tstore \<Rightarrow> (int \<times> tstore) outcome) \<Rightarrow>
     addr A_list \<Rightarrow> addr A_list \<Rightarrow> nat list \<Rightarrow> tstore \<Rightarrow> (int \<times> tstore) outcome" where
  "pair_loop body l1 l2 [] \<sigma> = Ret (1, \<sigma>)"
| "pair_loop body l1 l2 (i # is) \<sigma> =
     (case (field_at \<sigma> l1 (int i), field_at \<sigma> l2 (int i)) of
        (Some (a1, f1), Some (a2, f2)) \<Rightarrow>
          (case body a1 f1 a2 f2 \<sigma> of
             Ret (rc, \<sigma>') \<Rightarrow> if rc \<noteq> 0 then pair_loop body l1 l2 is \<sigma>' else Ret (0, \<sigma>')
           | Crash \<Rightarrow> Crash
           | NoFuel \<Rightarrow> NoFuel)
      | _ \<Rightarrow> Crash)"

definition set_kind :: "addr \<Rightarrow> ty_t \<Rightarrow> tstore \<Rightarrow> tstore" where
  "set_kind a k \<sigma> = \<sigma>\<lparr> tys := (tys \<sigma>)(a := map_option (\<lambda>obj. obj\<lparr> ty_kind := k \<rparr>) (tys \<sigma> a)) \<rparr>"

text \<open>
  The second condition of \<open>Ty_compatible\<close> is the assignment \<open>if (ty1->kind = Ty_record)\<close>: it writes
  the kind, and its value is the number of \<open>Ty_record\<close>.
\<close>

fun Ty_compatible :: "nat \<Rightarrow> tstore \<Rightarrow> addr \<Rightarrow> addr \<Rightarrow> (int \<times> tstore) outcome" where
  "Ty_compatible 0 \<sigma> ty1 ty2 = NoFuel"
| "Ty_compatible (Suc n) \<sigma> ty1 ty2 =
     (case (tys \<sigma> ty1, tys \<sigma> ty2) of
        (Some o1, Some o2) \<Rightarrow>
          if ty_kind o1 \<noteq> ty_kind o2 \<and>
             \<not> (ty_kind o1 = Ty_int \<and> ty_kind o2 = Ty_real \<or> ty_kind o1 = Ty_real \<and> ty_kind o2 = Ty_int)
          then Ret (0, \<sigma>)
          else (let \<sigma>1 = set_kind ty1 Ty_record \<sigma> in
                if ty_num Ty_record \<noteq> 0
                then (case (u_record o1 \<bind> list_at \<sigma>1, u_record o2 \<bind> list_at \<sigma>1) of
                        (Some list1, Some list2) \<Rightarrow>
                          if al_length list1 \<noteq> al_length list2 then Ret (0, \<sigma>1)
                          else pair_loop (\<lambda>a1 f1 a2 f2 \<sigma>. Ty_compatible n \<sigma> (f_ty f1) (f_ty f2))
                                 list1 list2 [0..<al_length list1] \<sigma>1
                      | _ \<Rightarrow> Crash)
                else Ret (1, \<sigma>1))
      | _ \<Rightarrow> Crash)"

definition getNumOfExplictFields :: "tstore \<Rightarrow> addr option \<Rightarrow> int option" where
  "getNumOfExplictFields \<sigma> fl = do {
     l \<leftarrow> list_at \<sigma> fl;
     let n = int (al_length l);
     (a, f) \<leftarrow> field_at \<sigma> l (n - 1);
     Some (if f_implicit f \<noteq> 0 then n - 1 else n)
   }"

text \<open>\<open>f1->ty = ty; f1->size = size\<close>\<close>

definition set_field_ty :: "addr \<Rightarrow> addr \<Rightarrow> tstore \<Rightarrow> tstore" where
  "set_field_ty a ty \<sigma> = \<sigma>\<lparr> flds := (flds \<sigma>)(a := map_option (\<lambda>f. f\<lparr> f_ty := ty \<rparr>) (flds \<sigma> a)) \<rparr>"

definition set_field_size :: "addr \<Rightarrow> int \<Rightarrow> tstore \<Rightarrow> tstore" where
  "set_field_size a sz \<sigma> = \<sigma>\<lparr> flds := (flds \<sigma>)(a := map_option (\<lambda>f. f\<lparr> f_size := sz \<rparr>) (flds \<sigma> a)) \<rparr>"

text \<open>The first part of \<open>extendType\<close>: the kinds. \<open>None\<close> is the early return of 0.\<close>

definition extend_kind :: "tstore \<Rightarrow> addr \<Rightarrow> ty_obj \<Rightarrow> ty_obj \<Rightarrow> (addr \<times> tstore) option" where
  "extend_kind \<sigma> source so to =
     (if ty_kind so \<noteq> ty_kind to then
        if ty_kind so = Ty_int \<and> ty_kind to = Ty_real then Some (Ty_Real \<sigma>)
        else if ty_kind to = Ty_ref \<and>
                (ty_kind so = Ty_nil \<or> ty_kind so = Ty_int \<or> ty_kind so = Ty_record) then Some (source, \<sigma>)
        else None
      else Some (source, \<sigma>))"

text \<open>
  The body of the loop of \<open>extendType\<close>: the recursive call has \<open>f1->ty\<close> as its variable, which is
  written when the call changes it; then the size is copied.
\<close>

definition extend_field ::
    "(tstore \<Rightarrow> addr \<Rightarrow> addr \<Rightarrow> (int \<times> addr \<times> tstore) outcome) \<Rightarrow>
     addr \<Rightarrow> ty_field \<Rightarrow> addr \<Rightarrow> ty_field \<Rightarrow> tstore \<Rightarrow> (int \<times> tstore) outcome" where
  "extend_field rec a1 f1 a2 f2 \<sigma> =
     (case rec \<sigma> (f_ty f1) (f_ty f2) of
        Ret (rc, ty', \<sigma>') \<Rightarrow>
          (let \<sigma>1 = (if ty' \<noteq> f_ty f1 then set_field_ty a1 ty' \<sigma>' else \<sigma>') in
           if rc = 0 then Ret (0, \<sigma>1)
           else (case flds \<sigma>1 a2 of
                   None \<Rightarrow> Crash
                 | Some g2 \<Rightarrow> Ret (1, set_field_size a1 (f_size g2) \<sigma>1)))
      | Crash \<Rightarrow> Crash
      | NoFuel \<Rightarrow> NoFuel)"

text \<open>The second part of \<open>extendType\<close>, for two record types with different field lists.\<close>

definition extend_lists ::
    "(tstore \<Rightarrow> addr \<Rightarrow> addr \<Rightarrow> (int \<times> addr \<times> tstore) outcome) \<Rightarrow>
     addr option \<Rightarrow> addr option \<Rightarrow> tstore \<Rightarrow> (int \<times> tstore) outcome" where
  "extend_lists rec p1 p2 \<sigma> =
     (case (list_at \<sigma> p1, list_at \<sigma> p2, getNumOfExplictFields \<sigma> p2) of
        (Some list1, Some list2, Some m) \<Rightarrow>
          if int (al_length list1) \<noteq> m then Ret (0, \<sigma>)
          else pair_loop (extend_field rec) list1 list2 [0..<al_length list1] \<sigma>
      | _ \<Rightarrow> Crash)"

fun extendType :: "nat \<Rightarrow> tstore \<Rightarrow> addr \<Rightarrow> addr \<Rightarrow> (int \<times> addr \<times> tstore) outcome" where
  "extendType 0 \<sigma> source target = NoFuel"
| "extendType (Suc n) \<sigma> source target =
     (case (tys \<sigma> source, tys \<sigma> target) of
        (Some so, Some to) \<Rightarrow>
          (case extend_kind \<sigma> source so to of
             None \<Rightarrow> Ret (0, source, \<sigma>)
           | Some (source', \<sigma>1) \<Rightarrow>
               (case tys \<sigma>1 source' of
                  None \<Rightarrow> Crash
                | Some so' \<Rightarrow>
                    if ty_kind so' \<noteq> Ty_record then Ret (1, source', \<sigma>1)
                    else (case (u_record so', u_record to) of
                            (Some p1, Some p2) \<Rightarrow>
                              if p1 = p2 then Ret (1, source', \<sigma>1)
                              else (case extend_lists (extendType n) p1 p2 \<sigma>1 of
                                      Ret (rc, \<sigma>') \<Rightarrow> Ret (rc, source', \<sigma>')
                                    | Crash \<Rightarrow> Crash
                                    | NoFuel \<Rightarrow> NoFuel)
                          | _ \<Rightarrow> Crash)))
      | _ \<Rightarrow> Crash)"

text \<open>\<open>makeCompatibleType\<close> changes the kind of the source object itself.\<close>

definition compatible_field ::
    "(tstore \<Rightarrow> addr \<Rightarrow> addr \<Rightarrow> (int \<times> tstore) outcome) \<Rightarrow>
     addr \<Rightarrow> ty_field \<Rightarrow> addr \<Rightarrow> ty_field \<Rightarrow> tstore \<Rightarrow> (int \<times> tstore) outcome" where
  "compatible_field rec a1 f1 a2 f2 \<sigma> =
     (case rec \<sigma> (f_ty f1) (f_ty f2) of
        Ret (rc, \<sigma>') \<Rightarrow>
          if rc = 0 then Ret (0, \<sigma>')
          else (case (flds \<sigma>' a1, flds \<sigma>' a2) of
                  (Some g1, Some g2) \<Rightarrow>
                    Ret (1, if f_size g1 < f_size g2 then set_field_size a1 (f_size g2) \<sigma>' else \<sigma>')
                | _ \<Rightarrow> Crash)
      | Crash \<Rightarrow> Crash
      | NoFuel \<Rightarrow> NoFuel)"

fun makeCompatibleType :: "nat \<Rightarrow> tstore \<Rightarrow> addr \<Rightarrow> addr \<Rightarrow> (int \<times> tstore) outcome" where
  "makeCompatibleType 0 \<sigma> source target = NoFuel"
| "makeCompatibleType (Suc n) \<sigma> source target =
     (case (tys \<sigma> source, tys \<sigma> target) of
        (Some so, Some to) \<Rightarrow>
          if (ty_kind so = Ty_nil \<and> ty_kind to = Ty_ref) \<or> (ty_kind so = Ty_ref \<and> ty_kind to = Ty_nil)
          then Ret (1, \<sigma>)
          else if ty_kind so \<noteq> ty_kind to \<and>
                  \<not> (ty_kind so = Ty_int \<and> ty_kind to = Ty_real \<or> ty_kind so = Ty_real \<and> ty_kind to = Ty_int)
          then Ret (0, \<sigma>)
          else (let \<sigma>1 = (if ty_kind so \<noteq> ty_kind to then set_kind source Ty_real \<sigma> else \<sigma>) in
                if ty_kind so = ty_kind to \<and> ty_kind so = Ty_record
                then (case (u_record so \<bind> list_at \<sigma>1, u_record to \<bind> list_at \<sigma>1) of
                        (Some list1, Some list2) \<Rightarrow>
                          if al_length list1 \<noteq> al_length list2 then Ret (0, \<sigma>1)
                          else pair_loop (compatible_field (makeCompatibleType n))
                                 list1 list2 [0..<al_length list1] \<sigma>1
                      | _ \<Rightarrow> Crash)
                else Ret (1, \<sigma>1))
      | _ \<Rightarrow> Crash)"

fun field_named :: "tstore \<Rightarrow> addr A_list \<Rightarrow> addr option \<Rightarrow> nat list \<Rightarrow> int option" where
  "field_named \<sigma> l name [] = Some 0"
| "field_named \<sigma> l name (i # is) =
     (case field_at \<sigma> l (int i) of
        None \<Rightarrow> None
      | Some (a, f) \<Rightarrow> if f_name f = name then Some 1 else field_named \<sigma> l name is)"

definition isFieldNameP :: "tstore \<Rightarrow> addr option \<Rightarrow> addr option \<Rightarrow> int option" where
  "isFieldNameP \<sigma> p name = do {
     l \<leftarrow> list_at \<sigma> p;
     field_named \<sigma> l name [0..<al_length l]
   }"

section \<open>Well-formed stores\<close>

text \<open>The fields a list refers to are all present.\<close>

definition fields_ok :: "tstore \<Rightarrow> addr A_list \<Rightarrow> bool" where
  "fields_ok \<sigma> l \<longleftrightarrow> al_ok l \<and>
     (\<forall>p\<in>set (contents l). \<exists>a f. p = Some a \<and> flds \<sigma> a = Some f)"

text \<open>A record or reference type has a list of at least one field.\<close>

definition record_ok :: "tstore \<Rightarrow> ty_obj \<Rightarrow> bool" where
  "record_ok \<sigma> obj \<longleftrightarrow>
     (\<exists>la l. ty_u obj = U_record (Some la) \<and> lsts \<sigma> la = Some l \<and> fields_ok \<sigma> l \<and> contents l \<noteq> [])"

text \<open>
  Record and reference types are complete, every field has a type, addresses from \<open>brk\<close> on are
  free, and each static pointer is null or points to an object of its kind.
\<close>

definition store_ok :: "tstore \<Rightarrow> bool" where
  "store_ok \<sigma> \<longleftrightarrow>
     (\<forall>a obj. tys \<sigma> a = Some obj \<longrightarrow> ty_kind obj \<in> {Ty_record, Ty_ref} \<longrightarrow> record_ok \<sigma> obj) \<and>
     (\<forall>a f. flds \<sigma> a = Some f \<longrightarrow> tys \<sigma> (f_ty f) \<noteq> None) \<and>
     (\<forall>a\<ge>brk \<sigma>. tys \<sigma> a = None) \<and>
     (\<forall>k a. singles \<sigma> k = Some a \<longrightarrow> (\<exists>obj. tys \<sigma> a = Some obj \<and> ty_kind obj = k))"

text \<open>A rank that falls from a type to the types of its fields: there are no cycles.\<close>

definition ranked :: "(addr \<Rightarrow> nat) \<Rightarrow> tstore \<Rightarrow> bool" where
  "ranked r \<sigma> \<longleftrightarrow>
     (\<forall>a obj la l. tys \<sigma> a = Some obj \<longrightarrow> ty_u obj = U_record (Some la) \<longrightarrow> lsts \<sigma> la = Some l \<longrightarrow>
        (\<forall>b f. Some b \<in> set (contents l) \<longrightarrow> flds \<sigma> b = Some f \<longrightarrow> r (f_ty f) < r a)) \<and>
     (\<forall>a\<ge>brk \<sigma>. r a = 0) \<and> (\<forall>a. singles \<sigma> Ty_real = Some a \<longrightarrow> r a = 0)"

definition sound :: "(addr \<Rightarrow> nat) \<Rightarrow> tstore \<Rightarrow> bool" where
  "sound r \<sigma> \<longleftrightarrow> store_ok \<sigma> \<and> ranked r \<sigma>"

text \<open>What a store may become: no type object is changed, and no field gets a higher type.\<close>

definition evolves :: "(addr \<Rightarrow> nat) \<Rightarrow> tstore \<Rightarrow> tstore \<Rightarrow> bool" where
  "evolves r \<sigma> \<sigma>' \<longleftrightarrow> tys \<sigma> \<subseteq>\<^sub>m tys \<sigma>' \<and> lsts \<sigma>' = lsts \<sigma> \<and> dom (flds \<sigma>') = dom (flds \<sigma>) \<and>
     (\<forall>a f f'. flds \<sigma> a = Some f \<longrightarrow> flds \<sigma>' a = Some f' \<longrightarrow> r (f_ty f') \<le> r (f_ty f))"

lemma map_le_keeps: "m \<subseteq>\<^sub>m m' \<Longrightarrow> m a = Some x \<Longrightarrow> m' a = Some x"
  by (auto simp: map_le_def dom_def)

lemma evolves_refl [simp]: "evolves r \<sigma> \<sigma>"
  by (auto simp: evolves_def)

lemma evolves_trans:
  assumes "evolves r \<sigma>1 \<sigma>2" and "evolves r \<sigma>2 \<sigma>3"
  shows "evolves r \<sigma>1 \<sigma>3"
proof -
  have "r (f_ty f3) \<le> r (f_ty f1)" if "flds \<sigma>1 a = Some f1" "flds \<sigma>3 a = Some f3" for a f1 f3
  proof -
    from that assms obtain f2 where f2: "flds \<sigma>2 a = Some f2"
      unfolding evolves_def by blast
    have "r (f_ty f3) \<le> r (f_ty f2)" "r (f_ty f2) \<le> r (f_ty f1)"
      using assms that f2 unfolding evolves_def by blast+
    then show ?thesis by simp
  qed
  then show ?thesis
    using assms map_le_trans unfolding evolves_def by auto
qed

lemma evolves_ty: "evolves r \<sigma> \<sigma>' \<Longrightarrow> tys \<sigma> a = Some obj \<Longrightarrow> tys \<sigma>' a = Some obj"
  unfolding evolves_def by (blast intro: map_le_keeps)

lemma fields_ok_evolves:
  assumes "fields_ok \<sigma> l" and "evolves r \<sigma> \<sigma>'"
  shows "fields_ok \<sigma>' l"
  unfolding fields_ok_def
proof (intro conjI ballI)
  show "al_ok l" using assms(1) by (simp add: fields_ok_def)
  fix p assume "p \<in> set (contents l)"
  then obtain a f where a: "p = Some a" "flds \<sigma> a = Some f"
    using assms(1) by (auto simp: fields_ok_def)
  then obtain f' where "flds \<sigma>' a = Some f'"
    using assms(2) unfolding evolves_def by blast
  then show "\<exists>a f. p = Some a \<and> flds \<sigma>' a = Some f"
    using a by blast
qed

lemma record_ok_evolves: "record_ok \<sigma> obj \<Longrightarrow> evolves r \<sigma> \<sigma>' \<Longrightarrow> record_ok \<sigma>' obj"
  using fields_ok_evolves [of \<sigma> _ r \<sigma>'] unfolding record_ok_def evolves_def by metis

lemma field_at_ok:
  assumes "fields_ok \<sigma> l" and "i < length (contents l)"
  obtains a f where "field_at \<sigma> l (int i) = Some (a, f)" and "Some a \<in> set (contents l)"
    and "flds \<sigma> a = Some f"
proof -
  have ok: "al_ok l" using assms(1) by (simp add: fields_ok_def)
  have mem: "contents l ! i \<in> set (contents l)" using assms(2) by simp
  then obtain a f where a: "contents l ! i = Some a" "flds \<sigma> a = Some f"
    using assms(1) unfolding fields_ok_def by blast
  have "field_at \<sigma> l (int i) = Some (a, f)"
    using al.nth_law [OF ok assms(2)] a by (simp add: field_at_def)
  then show ?thesis using that a mem by metis
qed

lemma store_okD:
  assumes "store_ok \<sigma>"
  shows "tys \<sigma> a = Some obj \<Longrightarrow> ty_kind obj \<in> {Ty_record, Ty_ref} \<Longrightarrow> record_ok \<sigma> obj"
    and "flds \<sigma> b = Some f \<Longrightarrow> tys \<sigma> (f_ty f) \<noteq> None"
    and "c \<ge> brk \<sigma> \<Longrightarrow> tys \<sigma> c = None"
    and "singles \<sigma> k = Some d \<Longrightarrow> \<exists>obj. tys \<sigma> d = Some obj \<and> ty_kind obj = k"
  using assms unfolding store_ok_def by blast+

lemma rankedD:
  assumes "ranked r \<sigma>"
  shows "tys \<sigma> a = Some obj \<Longrightarrow> ty_u obj = U_record (Some la) \<Longrightarrow> lsts \<sigma> la = Some l \<Longrightarrow>
      Some b \<in> set (contents l) \<Longrightarrow> flds \<sigma> b = Some f \<Longrightarrow> r (f_ty f) < r a"
    and "c \<ge> brk \<sigma> \<Longrightarrow> r c = 0"
    and "singles \<sigma> Ty_real = Some d \<Longrightarrow> r d = 0"
  using assms unfolding ranked_def by blast+

section \<open>The steps keep stores sound\<close>

lemma Ty_single_cases:
  "Ty_single k \<sigma> = (a, \<sigma>') \<Longrightarrow>
     singles \<sigma> k = Some a \<and> \<sigma>' = \<sigma> \<or>
     singles \<sigma> k = None \<and> a = brk \<sigma> \<and>
       \<sigma>' = \<sigma>\<lparr> tys := (tys \<sigma>)(brk \<sigma> \<mapsto> \<lparr> ty_kind = k, ty_u = U_unset \<rparr>), brk := brk \<sigma> + 1,
               singles := (singles \<sigma>)(k \<mapsto> brk \<sigma>) \<rparr>"
  by (auto simp: Ty_single_def alloc_ty_def split: option.splits)

lemma alloc_fresh:
  assumes "store_ok \<sigma>"
  shows "tys \<sigma> (brk \<sigma>) = None"
  using store_okD(3) [OF assms] by blast

lemma Ty_single_store_ok:
  assumes "store_ok \<sigma>" and "Ty_single k \<sigma> = (a, \<sigma>')" and "k \<notin> {Ty_record, Ty_ref}"
  shows "store_ok \<sigma>' \<and> (\<exists>obj. tys \<sigma>' a = Some obj \<and> ty_kind obj = k) \<and> Ty_single k \<sigma>' = (a, \<sigma>') \<and>
     tys \<sigma> \<subseteq>\<^sub>m tys \<sigma>'"
proof -
  have again: "Ty_single k \<sigma>' = (a, \<sigma>')"
    using Ty_single_cases [OF assms(2)] by (auto simp: Ty_single_def)
  from Ty_single_cases [OF assms(2)] show ?thesis
  proof
    assume "singles \<sigma> k = Some a \<and> \<sigma>' = \<sigma>"
    then show ?thesis using assms(1) again store_okD(4) [OF assms(1)] by auto
  next
    assume "singles \<sigma> k = None \<and> a = brk \<sigma> \<and>
       \<sigma>' = \<sigma>\<lparr> tys := (tys \<sigma>)(brk \<sigma> \<mapsto> \<lparr> ty_kind = k, ty_u = U_unset \<rparr>), brk := brk \<sigma> + 1,
               singles := (singles \<sigma>)(k \<mapsto> brk \<sigma>) \<rparr>"
    then have new: "a = brk \<sigma>" "tys \<sigma>' = (tys \<sigma>)(brk \<sigma> \<mapsto> \<lparr> ty_kind = k, ty_u = U_unset \<rparr>)"
      "brk \<sigma>' = brk \<sigma> + 1" "singles \<sigma>' = (singles \<sigma>)(k \<mapsto> brk \<sigma>)" "flds \<sigma>' = flds \<sigma>" "lsts \<sigma>' = lsts \<sigma>"
      by auto
    have free: "tys \<sigma> (brk \<sigma>) = None" by (rule alloc_fresh [OF assms(1)])
    have ev: "evolves (\<lambda>x. 0) \<sigma> \<sigma>'"
      unfolding evolves_def new using free by (auto simp: map_le_def)
    have old: "tys \<sigma> b = Some obj \<Longrightarrow> b \<noteq> brk \<sigma>" for b obj using free by auto
    have "store_ok \<sigma>'"
      unfolding store_ok_def
    proof (intro conjI allI impI)
      fix b obj assume "tys \<sigma>' b = Some obj" "ty_kind obj \<in> {Ty_record, Ty_ref}"
      then show "record_ok \<sigma>' obj"
        using assms(3) store_okD(1) [OF assms(1)] record_ok_evolves [OF _ ev]
        by (auto simp: new split: if_splits)
    next
      fix k' d assume "singles \<sigma>' k' = Some d"
      then show "\<exists>obj. tys \<sigma>' d = Some obj \<and> ty_kind obj = k'"
        using store_okD(4) [OF assms(1)] old by (force simp: new split: if_splits)
    qed (use store_okD(2,3) [OF assms(1)] in \<open>auto simp: new\<close>)
    then show ?thesis using again ev by (simp add: new evolves_def)
  qed
qed

lemma Ty_single_sound:
  assumes "sound r \<sigma>" and "Ty_single k \<sigma> = (a, \<sigma>')" and "k \<notin> {Ty_record, Ty_ref}"
  shows "sound r \<sigma>'" and "evolves r \<sigma> \<sigma>'" and "\<exists>obj. tys \<sigma>' a = Some obj \<and> ty_kind obj = k"
    and "k = Ty_real \<Longrightarrow> r a = 0"
proof -
  have ok: "store_ok \<sigma>" "ranked r \<sigma>" using assms(1) by (simp_all add: sound_def)
  have base: "store_ok \<sigma>'" "\<exists>obj. tys \<sigma>' a = Some obj \<and> ty_kind obj = k" "tys \<sigma> \<subseteq>\<^sub>m tys \<sigma>'"
    using Ty_single_store_ok [OF ok(1) assms(2,3)] by blast+
  have same: "flds \<sigma>' = flds \<sigma>" "lsts \<sigma>' = lsts \<sigma>"
    using Ty_single_cases [OF assms(2)] by auto
  have "ranked r \<sigma>'"
    using Ty_single_cases [OF assms(2)] rankedD [OF ok(2)] ok(2)
    by (auto simp: ranked_def split: if_splits)
  then show "sound r \<sigma>'" using base(1) by (simp add: sound_def)
  show "evolves r \<sigma> \<sigma>'" using base(3) same by (simp add: evolves_def)
  show "\<exists>obj. tys \<sigma>' a = Some obj \<and> ty_kind obj = k" by (rule base(2))
  show "r a = 0" if "k = Ty_real"
    using Ty_single_cases [OF assms(2)] rankedD(2,3) [OF ok(2)] that by auto
qed

text \<open>Writing a field: its type is replaced by one that is present and not higher.\<close>

lemma field_update_sound:
  assumes "sound r \<sigma>" and "flds \<sigma> a = Some f" and "tys \<sigma> (f_ty f') \<noteq> None" and "r (f_ty f') \<le> r (f_ty f)"
  shows "sound r (\<sigma>\<lparr> flds := (flds \<sigma>)(a \<mapsto> f') \<rparr>)" and "evolves r \<sigma> (\<sigma>\<lparr> flds := (flds \<sigma>)(a \<mapsto> f') \<rparr>)"
proof -
  let ?s = "\<sigma>\<lparr> flds := (flds \<sigma>)(a \<mapsto> f') \<rparr>"
  have ok: "store_ok \<sigma>" "ranked r \<sigma>" using assms(1) by (simp_all add: sound_def)
  show ev: "evolves r \<sigma> ?s"
    using assms(2,4) by (auto simp: evolves_def)
  have "store_ok ?s"
    using ok(1) assms(3) record_ok_evolves [OF _ ev] unfolding store_ok_def by auto
  moreover have "ranked r ?s"
    unfolding ranked_def
  proof (intro conjI allI impI)
    fix c obj la l b g
    assume h: "tys ?s c = Some obj" "ty_u obj = U_record (Some la)" "lsts ?s la = Some l"
      "Some b \<in> set (contents l)" "flds ?s b = Some g"
    show "r (f_ty g) < r c"
    proof (cases "b = a")
      case True
      have "r (f_ty f) < r c"
        using rankedD(1) [OF ok(2), of c obj la l b f] h True assms(2) by simp
      then show ?thesis using h(5) True assms(4) by simp
    next
      case False
      then show ?thesis using rankedD(1) [OF ok(2), of c obj la l b g] h by simp
    qed
  qed (use rankedD(2,3) [OF ok(2)] in auto)
  ultimately show "sound r ?s" by (simp add: sound_def)
qed

section \<open>The loop over two field lists\<close>

text \<open>
  A step on a pair of fields that is total on sound stores as long as the type of the second field
  has a rank below \<open>n\<close>, and that keeps stores sound.
\<close>

definition total_step ::
    "(addr \<Rightarrow> nat) \<Rightarrow> nat \<Rightarrow>
     (addr \<Rightarrow> ty_field \<Rightarrow> addr \<Rightarrow> ty_field \<Rightarrow> tstore \<Rightarrow> (int \<times> tstore) outcome) \<Rightarrow> bool" where
  "total_step r n body \<longleftrightarrow>
     (\<forall>a1 f1 a2 f2 \<sigma>. sound r \<sigma> \<longrightarrow> flds \<sigma> a1 = Some f1 \<longrightarrow> flds \<sigma> a2 = Some f2 \<longrightarrow> r (f_ty f2) < n \<longrightarrow>
        (\<exists>rc \<sigma>'. body a1 f1 a2 f2 \<sigma> = Ret (rc, \<sigma>') \<and> rc \<in> {0, 1} \<and> sound r \<sigma>' \<and> evolves r \<sigma> \<sigma>'))"

lemma total_stepD:
  assumes "total_step r n body" and "sound r \<sigma>" and "flds \<sigma> a1 = Some f1" and "flds \<sigma> a2 = Some f2"
    and "r (f_ty f2) < n"
  obtains rc \<sigma>' where "body a1 f1 a2 f2 \<sigma> = Ret (rc, \<sigma>')" "rc \<in> {0, 1}" "sound r \<sigma>'" "evolves r \<sigma> \<sigma>'"
  using assms unfolding total_step_def by blast

lemma pair_loop_total:
  assumes "total_step r n body" and "sound r \<sigma>" and "fields_ok \<sigma> l1" and "fields_ok \<sigma> l2"
    and "\<And>b f. Some b \<in> set (contents l2) \<Longrightarrow> flds \<sigma> b = Some f \<Longrightarrow> r (f_ty f) < n"
    and "\<forall>i\<in>set is. i < length (contents l1) \<and> i < length (contents l2)"
  shows "\<exists>rc \<sigma>'. pair_loop body l1 l2 is \<sigma> = Ret (rc, \<sigma>') \<and> rc \<in> {0, 1} \<and> sound r \<sigma>' \<and> evolves r \<sigma> \<sigma>'"
  using assms(2-)
proof (induction "is" arbitrary: \<sigma>)
  case Nil
  then show ?case by simp
next
  case (Cons i "is")
  have i: "i < length (contents l1)" "i < length (contents l2)" using Cons.prems(5) by auto
  obtain a1 f1 where f1: "field_at \<sigma> l1 (int i) = Some (a1, f1)" "flds \<sigma> a1 = Some f1"
    by (rule field_at_ok [OF Cons.prems(2) i(1)])
  obtain a2 f2 where f2: "field_at \<sigma> l2 (int i) = Some (a2, f2)" "Some a2 \<in> set (contents l2)"
    "flds \<sigma> a2 = Some f2"
    by (rule field_at_ok [OF Cons.prems(3) i(2)])
  have low: "r (f_ty f2) < n" by (rule Cons.prems(4) [OF f2(2,3)])
  obtain rc \<sigma>1 where s: "body a1 f1 a2 f2 \<sigma> = Ret (rc, \<sigma>1)" "rc \<in> {0, 1}" "sound r \<sigma>1" "evolves r \<sigma> \<sigma>1"
    by (rule total_stepD [OF assms(1) Cons.prems(1) f1(2) f2(3) low])
  show ?case
  proof (cases "rc = 0")
    case True
    then show ?thesis using f1 f2 s by simp
  next
    case False
    have low1: "r (f_ty f) < n" if mem: "Some b \<in> set (contents l2)" and fb: "flds \<sigma>1 b = Some f" for b f
    proof -
      obtain g where g: "flds \<sigma> b = Some g"
        using mem Cons.prems(3) by (fastforce simp: fields_ok_def)
      have "r (f_ty f) \<le> r (f_ty g)" using s(4) g fb by (auto simp: evolves_def)
      then show ?thesis using Cons.prems(4) [OF mem g] by simp
    qed
    have "\<exists>rc \<sigma>'. pair_loop body l1 l2 is \<sigma>1 = Ret (rc, \<sigma>') \<and> rc \<in> {0, 1} \<and> sound r \<sigma>' \<and> evolves r \<sigma>1 \<sigma>'"
      by (rule Cons.IH [OF s(3) fields_ok_evolves [OF Cons.prems(2) s(4)]
              fields_ok_evolves [OF Cons.prems(3) s(4)] low1])
        (use Cons.prems(5) in auto)
    then show ?thesis
      using False f1 f2 s evolves_trans [OF s(4)] by auto
  qed
qed

section \<open>Extending a type\<close>

definition extend_spec ::
    "(addr \<Rightarrow> nat) \<Rightarrow> nat \<Rightarrow> (tstore \<Rightarrow> addr \<Rightarrow> addr \<Rightarrow> (int \<times> addr \<times> tstore) outcome) \<Rightarrow> bool" where
  "extend_spec r n rec \<longleftrightarrow>
     (\<forall>\<sigma> s t. sound r \<sigma> \<longrightarrow> tys \<sigma> s \<noteq> None \<longrightarrow> tys \<sigma> t \<noteq> None \<longrightarrow> r t < n \<longrightarrow>
        (\<exists>rc s' \<sigma>'. rec \<sigma> s t = Ret (rc, s', \<sigma>') \<and> rc \<in> {0, 1} \<and> sound r \<sigma>' \<and> evolves r \<sigma> \<sigma>' \<and>
           tys \<sigma>' s' \<noteq> None \<and> (s' = s \<or> r s' = 0)))"

lemma set_field_ty_sound:
  assumes "sound r \<sigma>" and "flds \<sigma> a = Some f" and "tys \<sigma> ty \<noteq> None" and "r ty \<le> r (f_ty f)"
  shows "sound r (set_field_ty a ty \<sigma>) \<and> evolves r \<sigma> (set_field_ty a ty \<sigma>)"
  using field_update_sound [OF assms(1,2), of "f\<lparr> f_ty := ty \<rparr>"] assms(2-)
  by (simp add: set_field_ty_def)

lemma set_field_size_sound:
  assumes "sound r \<sigma>" and "flds \<sigma> a = Some f"
  shows "sound r (set_field_size a sz \<sigma>) \<and> evolves r \<sigma> (set_field_size a sz \<sigma>)"
proof -
  have "tys \<sigma> (f_ty f) \<noteq> None"
    using assms by (auto simp: sound_def store_okD(2))
  then show ?thesis
    using field_update_sound [OF assms, of "f\<lparr> f_size := sz \<rparr>"] assms(2)
    by (simp add: set_field_size_def)
qed

lemma extend_field_total:
  assumes "extend_spec r n rec"
  shows "total_step r n (extend_field rec)"
  unfolding total_step_def
proof (intro allI impI)
  fix a1 f1 a2 f2 \<sigma>
  assume so: "sound r \<sigma>" and f: "flds \<sigma> a1 = Some f1" "flds \<sigma> a2 = Some f2" and low: "r (f_ty f2) < n"
  have "tys \<sigma> (f_ty f1) \<noteq> None" "tys \<sigma> (f_ty f2) \<noteq> None"
    using so f by (auto simp: sound_def store_okD(2))
  then obtain rc ty' \<sigma>' where c: "rec \<sigma> (f_ty f1) (f_ty f2) = Ret (rc, ty', \<sigma>')" "rc \<in> {0, 1}"
    "sound r \<sigma>'" "evolves r \<sigma> \<sigma>'" "tys \<sigma>' ty' \<noteq> None" "ty' = f_ty f1 \<or> r ty' = 0"
    using assms so low unfolding extend_spec_def by blast
  define \<sigma>1 where "\<sigma>1 = (if ty' \<noteq> f_ty f1 then set_field_ty a1 ty' \<sigma>' else \<sigma>')"
  have one: "sound r \<sigma>1 \<and> evolves r \<sigma>' \<sigma>1"
  proof (cases "ty' = f_ty f1")
    case True
    then show ?thesis using c by (simp add: \<sigma>1_def)
  next
    case False
    obtain g where "flds \<sigma>' a1 = Some g" using c(4) f(1) unfolding evolves_def by blast
    then show ?thesis using set_field_ty_sound [OF c(3), of a1 g ty'] False c by (simp add: \<sigma>1_def)
  qed
  have ev: "evolves r \<sigma> \<sigma>1" using evolves_trans [OF c(4)] one by blast
  obtain g1 g2 where g: "flds \<sigma>1 a1 = Some g1" "flds \<sigma>1 a2 = Some g2"
    using ev f unfolding evolves_def by blast
  have two: "sound r (set_field_size a1 (f_size g2) \<sigma>1)" "evolves r \<sigma> (set_field_size a1 (f_size g2) \<sigma>1)"
    using set_field_size_sound [of r \<sigma>1 a1 g1] one g evolves_trans [OF ev] by blast+
  show "\<exists>rc \<sigma>'. extend_field rec a1 f1 a2 f2 \<sigma> = Ret (rc, \<sigma>') \<and> rc \<in> {0, 1} \<and> sound r \<sigma>' \<and> evolves r \<sigma> \<sigma>'"
    using c(1,2) one ev two g by (auto simp: extend_field_def Let_def \<sigma>1_def [symmetric])
qed

lemma getNumOfExplictFields_ok:
  assumes "lsts \<sigma> la = Some l" and "fields_ok \<sigma> l" and "contents l \<noteq> []"
  shows "\<exists>m. getNumOfExplictFields \<sigma> (Some la) = Some m \<and> m \<le> int (length (contents l))"
proof -
  have len: "al_length l = length (contents l)"
    using assms(2) al_length_contents by (auto simp: fields_ok_def)
  have ix: "int (length (contents l) - 1) = int (length (contents l)) - 1"
    using assms(3) by (cases "contents l") auto
  obtain a f where "field_at \<sigma> l (int (length (contents l) - 1)) = Some (a, f)"
    by (rule field_at_ok [OF assms(2), of "length (contents l) - 1"]) (use assms(3) in auto)
  then show ?thesis
    using assms(1) len ix by (simp add: getNumOfExplictFields_def list_at_def Let_def)
qed

lemma record_okE:
  assumes "record_ok \<sigma> obj"
  obtains la l where "ty_u obj = U_record (Some la)" and "u_record obj = Some (Some la)"
    and "lsts \<sigma> la = Some l" and "list_at \<sigma> (Some la) = Some l" and "fields_ok \<sigma> l" and "contents l \<noteq> []"
    and "al_length l = length (contents l)"
proof -
  obtain la l where l: "ty_u obj = U_record (Some la)" "lsts \<sigma> la = Some l" "fields_ok \<sigma> l" "contents l \<noteq> []"
    using assms unfolding record_ok_def by blast
  then have "al_length l = length (contents l)"
    using al_length_contents by (auto simp: fields_ok_def)
  with l show ?thesis using that by (simp add: u_record_def list_at_def)
qed

lemma extend_lists_total:
  assumes spec: "extend_spec r n rec" and so: "sound r \<sigma>"
    and l1: "lsts \<sigma> p1 = Some l1" "fields_ok \<sigma> l1"
    and l2: "lsts \<sigma> p2 = Some l2" "fields_ok \<sigma> l2" "contents l2 \<noteq> []"
    and low: "\<And>b f. Some b \<in> set (contents l2) \<Longrightarrow> flds \<sigma> b = Some f \<Longrightarrow> r (f_ty f) < n"
  shows "\<exists>rc \<sigma>'. extend_lists rec (Some p1) (Some p2) \<sigma> = Ret (rc, \<sigma>') \<and> rc \<in> {0, 1} \<and> sound r \<sigma>' \<and>
     evolves r \<sigma> \<sigma>'"
proof -
  obtain m where m: "getNumOfExplictFields \<sigma> (Some p2) = Some m" "m \<le> int (length (contents l2))"
    using getNumOfExplictFields_ok [OF l2] by blast
  have len: "al_length l1 = length (contents l1)"
    using l1(2) al_length_contents by (auto simp: fields_ok_def)
  have lists: "list_at \<sigma> (Some p1) = Some l1" "list_at \<sigma> (Some p2) = Some l2"
    using l1 l2 by (simp_all add: list_at_def)
  show ?thesis
  proof (cases "int (al_length l1) = m")
    case False
    then show ?thesis using lists m so by (simp add: extend_lists_def)
  next
    case True
    have "\<exists>rc \<sigma>'. pair_loop (extend_field rec) l1 l2 [0..<al_length l1] \<sigma> = Ret (rc, \<sigma>') \<and> rc \<in> {0, 1} \<and>
        sound r \<sigma>' \<and> evolves r \<sigma> \<sigma>'"
      by (rule pair_loop_total [OF extend_field_total [OF spec] so l1(2) l2(2) low])
        (use True m(2) len in auto)
    then show ?thesis using True lists m by (simp add: extend_lists_def)
  qed
qed

lemma extend_kind_sound:
  assumes "sound r \<sigma>" and "tys \<sigma> s = Some so" and "extend_kind \<sigma> s so to = Some (s', \<sigma>')"
  shows "sound r \<sigma>' \<and> evolves r \<sigma> \<sigma>' \<and> (\<exists>so'. tys \<sigma>' s' = Some so' \<and>
      (ty_kind so' = Ty_record \<longrightarrow> so' = so \<and> ty_kind to \<in> {Ty_record, Ty_ref})) \<and> (s' = s \<or> r s' = 0)"
proof (cases "ty_kind so = Ty_int \<and> ty_kind to = Ty_real")
  case True
  then have "Ty_single Ty_real \<sigma> = (s', \<sigma>')"
    using assms(3) by (simp add: extend_kind_def Ty_Real_def)
  from Ty_single_sound [OF assms(1) this] show ?thesis by auto
next
  case False
  then show ?thesis
    using assms by (auto simp: extend_kind_def split: if_splits)
qed

lemma extendType_spec: "extend_spec r n (extendType n)"
proof (induction n)
  case 0
  show ?case by (simp add: extend_spec_def)
next
  case (Suc n)
  show ?case
    unfolding extend_spec_def
  proof (intro allI impI)
    fix \<sigma> s t
    assume so: "sound r \<sigma>" and st: "tys \<sigma> s \<noteq> None" "tys \<sigma> t \<noteq> None" and low: "r t < Suc n"
    then obtain sob tob where ob: "tys \<sigma> s = Some sob" "tys \<sigma> t = Some tob" by auto
    show "\<exists>rc s' \<sigma>'. extendType (Suc n) \<sigma> s t = Ret (rc, s', \<sigma>') \<and> rc \<in> {0, 1} \<and> sound r \<sigma>' \<and>
        evolves r \<sigma> \<sigma>' \<and> tys \<sigma>' s' \<noteq> None \<and> (s' = s \<or> r s' = 0)"
    proof (cases "extend_kind \<sigma> s sob tob")
      case None
      then show ?thesis using ob so by simp
    next
      case (Some q)
      obtain s1 \<sigma>1 where q: "q = (s1, \<sigma>1)" by fastforce
      with Some extend_kind_sound [OF so ob(1), of tob s1 \<sigma>1]
      obtain so1 where k: "sound r \<sigma>1" "evolves r \<sigma> \<sigma>1" "tys \<sigma>1 s1 = Some so1"
        "ty_kind so1 = Ty_record \<longrightarrow> so1 = sob \<and> ty_kind tob \<in> {Ty_record, Ty_ref}" "s1 = s \<or> r s1 = 0"
        by auto
      show ?thesis
      proof (cases "ty_kind so1 = Ty_record")
        case False
        then show ?thesis using ob Some q k by auto
      next
        case True
        have t1: "tys \<sigma>1 t = Some tob" by (rule evolves_ty [OF k(2) ob(2)])
        have ok1: "store_ok \<sigma>1" "ranked r \<sigma>1" using k(1) by (simp_all add: sound_def)
        have "record_ok \<sigma>1 so1" "record_ok \<sigma>1 tob"
          using store_okD(1) [OF ok1(1)] k(3,4) t1 True by blast+
        then obtain p1 l1 p2 l2 where
          l1: "u_record so1 = Some (Some p1)" "lsts \<sigma>1 p1 = Some l1" "fields_ok \<sigma>1 l1" and
          l2: "ty_u tob = U_record (Some p2)" "u_record tob = Some (Some p2)" "lsts \<sigma>1 p2 = Some l2"
            "fields_ok \<sigma>1 l2" "contents l2 \<noteq> []"
          by (metis record_okE)
        have fl: "r (f_ty f) < n" if "Some b \<in> set (contents l2)" "flds \<sigma>1 b = Some f" for b f
          using rankedD(1) [OF ok1(2) t1 l2(1,3) that] low by simp
        obtain rc \<sigma>2 where e: "extend_lists (extendType n) (Some p1) (Some p2) \<sigma>1 = Ret (rc, \<sigma>2)"
          "rc \<in> {0, 1}" "sound r \<sigma>2" "evolves r \<sigma>1 \<sigma>2"
          using extend_lists_total [OF Suc.IH k(1) l1(2,3) l2(3-5)] fl by blast
        have "tys \<sigma>2 s1 \<noteq> None" using evolves_ty [OF e(4) k(3)] by simp
        then show ?thesis
          using ob Some q k l1(1) l2(2) e True evolves_trans [OF k(2) e(4)] by auto
      qed
    qed
  qed
qed

section \<open>Scalar types\<close>

definition scalar :: "ty_t \<Rightarrow> bool" where
  "scalar k \<longleftrightarrow> k \<noteq> Ty_record"

text \<open>Which scalar types can be extended to which.\<close>

definition extends_to :: "ty_t \<Rightarrow> ty_t \<Rightarrow> bool" where
  "extends_to k k' \<longleftrightarrow> k = k' \<or> k = Ty_int \<and> k' = Ty_real \<or> k' = Ty_ref \<and> k \<in> {Ty_nil, Ty_int}"

lemma Ty_Real_kind:
  assumes "store_ok \<sigma>" and "Ty_Real \<sigma> = (a, \<sigma>')"
  shows "\<exists>obj. tys \<sigma>' a = Some obj \<and> ty_kind obj = Ty_real"
  using Ty_single_store_ok [OF assms(1), of Ty_real a \<sigma>'] assms(2) by (simp add: Ty_Real_def)

lemma extendType_scalar_core:
  assumes ok: "store_ok \<sigma>" and ob: "tys \<sigma> s = Some so" "tys \<sigma> t = Some to" and sc: "scalar (ty_kind so)"
  shows "extendType (Suc n) \<sigma> s t =
     (if extends_to (ty_kind so) (ty_kind to)
      then if ty_kind so = Ty_int \<and> ty_kind to = Ty_real
           then Ret (1, fst (Ty_Real \<sigma>), snd (Ty_Real \<sigma>)) else Ret (1, s, \<sigma>)
      else Ret (0, s, \<sigma>))"
proof -
  obtain a \<sigma>' where ra: "Ty_Real \<sigma> = (a, \<sigma>')" by fastforce
  obtain ro where ro: "tys \<sigma>' a = Some ro" "ty_kind ro = Ty_real"
    using Ty_Real_kind [OF ok ra] by blast
  consider (real) "ty_kind so = Ty_int" "ty_kind to = Ty_real" | (same) "ty_kind so = ty_kind to"
    | (ref) "ty_kind so \<noteq> ty_kind to" "ty_kind to = Ty_ref" "ty_kind so \<in> {Ty_nil, Ty_int}"
    | (none) "\<not> extends_to (ty_kind so) (ty_kind to)"
    unfolding extends_to_def by blast
  then show ?thesis
  proof cases
    case real
    then show ?thesis using ob ra ro by (simp add: extend_kind_def extends_to_def)
  next
    case same
    then show ?thesis using ob sc by (auto simp: extend_kind_def extends_to_def scalar_def)
  next
    case ref
    then show ?thesis using ob sc by (auto simp: extend_kind_def extends_to_def scalar_def)
  next
    case none
    then have "extend_kind \<sigma> s so to = None"
      using sc by (auto simp: extend_kind_def extends_to_def scalar_def)
    then show ?thesis using none ob by simp
  qed
qed

section \<open>Properties\<close>

text \<open>
  C13: \<open>extendType\<close> is total and leaves every type object alone. On a store with complete record
  and reference types and no cycles, given more fuel than the rank of the target, it returns 0 or
  1, the store stays well formed, every type object keeps its kind and members, and the field lists
  do not change: only fields of the source get another type and size.
\<close>

theorem extendType_total:
  assumes "store_ok \<sigma>" and "ranked r \<sigma>" and "tys \<sigma> s \<noteq> None" and "tys \<sigma> t \<noteq> None" and "r t < n"
  shows "\<exists>rc s' \<sigma>'. extendType n \<sigma> s t = Ret (rc, s', \<sigma>') \<and> rc \<in> {0, 1} \<and>
     store_ok \<sigma>' \<and> ranked r \<sigma>' \<and> tys \<sigma> \<subseteq>\<^sub>m tys \<sigma>' \<and> lsts \<sigma>' = lsts \<sigma> \<and>
     dom (flds \<sigma>') = dom (flds \<sigma>) \<and> tys \<sigma>' s' \<noteq> None"
proof -
  have "sound r \<sigma>" using assms by (simp add: sound_def)
  then obtain rc s' \<sigma>' where "extendType n \<sigma> s t = Ret (rc, s', \<sigma>')" "rc \<in> {0, 1}" "sound r \<sigma>'"
    "evolves r \<sigma> \<sigma>'" "tys \<sigma>' s' \<noteq> None"
    using extendType_spec [of r n] assms(3-5) unfolding extend_spec_def by blast
  then show ?thesis by (auto simp: sound_def evolves_def)
qed

text \<open>Two record types with one field each, an \<open>int\<close> and a \<open>real\<close>.\<close>

definition one_list :: "addr \<Rightarrow> addr A_list" where
  "one_list f =
     \<lparr> al_pos = 0, al_type = 0, al_elements = [Some (Some f)], al_size = 1, al_length = 1,
       al_collect_type = 0 \<rparr>"

definition demo_field :: "addr \<Rightarrow> int \<Rightarrow> ty_field" where
  "demo_field ty sz =
     \<lparr> f_name = None, f_ty = ty, f_ref = None, f_implicit = 0, f_iskey = 0, f_isTimekey = 0, f_size = sz \<rparr>"

definition demo_types :: tstore where
  "demo_types =
     \<lparr> tys = [5 \<mapsto> \<lparr> ty_kind = Ty_int, ty_u = U_unset \<rparr>, 6 \<mapsto> \<lparr> ty_kind = Ty_real, ty_u = U_unset \<rparr>,
              3 \<mapsto> \<lparr> ty_kind = Ty_record, ty_u = U_record (Some 10) \<rparr>,
              4 \<mapsto> \<lparr> ty_kind = Ty_record, ty_u = U_record (Some 11) \<rparr>],
       flds = [20 \<mapsto> demo_field 5 4, 21 \<mapsto> demo_field 6 8],
       lsts = [10 \<mapsto> one_list 20, 11 \<mapsto> one_list 21],
       singles = [Ty_int \<mapsto> 5, Ty_real \<mapsto> 6], brk = 100 \<rparr>"

definition demo_rank :: "addr \<Rightarrow> nat" where
  "demo_rank a = (if a = 3 \<or> a = 4 then 1 else 0)"

lemma one_list_ok [simp]: "al_ok (one_list f)" "contents (one_list f) = [Some f]" "al_length (one_list f) = 1"
  by (simp_all add: one_list_def al_ok_def contents_def)

lemma demo_types_tys [simp]:
  "tys demo_types 5 = Some \<lparr> ty_kind = Ty_int, ty_u = U_unset \<rparr>"
  "tys demo_types 6 = Some \<lparr> ty_kind = Ty_real, ty_u = U_unset \<rparr>"
  "tys demo_types 3 = Some \<lparr> ty_kind = Ty_record, ty_u = U_record (Some 10) \<rparr>"
  "tys demo_types 4 = Some \<lparr> ty_kind = Ty_record, ty_u = U_record (Some 11) \<rparr>"
  by (simp_all add: demo_types_def)

lemma demo_types_dom:
  "tys demo_types a = Some obj \<Longrightarrow> a = 5 \<or> a = 6 \<or> a = 3 \<or> a = 4"
  "flds demo_types b = Some f \<Longrightarrow> b = 20 \<and> f = demo_field 5 4 \<or> b = 21 \<and> f = demo_field 6 8"
  "singles demo_types k = Some c \<Longrightarrow> k = Ty_int \<and> c = 5 \<or> k = Ty_real \<and> c = 6"
  by (auto simp: demo_types_def split: if_splits)

lemma demo_record_ok: "record_ok demo_types \<lparr> ty_kind = k, ty_u = U_record (Some 10) \<rparr>"
  "record_ok demo_types \<lparr> ty_kind = k, ty_u = U_record (Some 11) \<rparr>"
  by (simp_all add: record_ok_def fields_ok_def demo_types_def)

lemma demo_types_ok: "store_ok demo_types" "ranked demo_rank demo_types"
proof -
  show "store_ok demo_types"
    unfolding store_ok_def
  proof (intro conjI allI impI)
    fix a obj assume "tys demo_types a = Some obj" "ty_kind obj \<in> {Ty_record, Ty_ref}"
    then show "record_ok demo_types obj" using demo_types_dom(1) demo_record_ok by fastforce
  next
    fix a f assume "flds demo_types a = Some f"
    then show "tys demo_types (f_ty f) \<noteq> None" using demo_types_dom(2) by (fastforce simp: demo_field_def)
  next
    fix a assume "brk demo_types \<le> a"
    then show "tys demo_types a = None" by (simp add: demo_types_def)
  next
    fix k a assume "singles demo_types k = Some a"
    then show "\<exists>obj. tys demo_types a = Some obj \<and> ty_kind obj = k" using demo_types_dom(3) by fastforce
  qed
  show "ranked demo_rank demo_types"
    unfolding ranked_def
  proof (intro conjI allI impI)
    fix a obj la l b f
    assume h: "tys demo_types a = Some obj" "ty_u obj = U_record (Some la)" "flds demo_types b = Some f"
    have "a = 3 \<or> a = 4" using demo_types_dom(1) [OF h(1)] h(1,2) by auto
    moreover have "f_ty f = 5 \<or> f_ty f = 6" using demo_types_dom(2) [OF h(3)] by (auto simp: demo_field_def)
    ultimately show "demo_rank (f_ty f) < demo_rank a" by (auto simp: demo_rank_def)
  next
    fix a assume "brk demo_types \<le> a"
    then show "demo_rank a = 0" by (simp add: demo_types_def demo_rank_def)
  next
    fix a assume "singles demo_types Ty_real = Some a"
    then show "demo_rank a = 0" using demo_types_dom(3) by (fastforce simp: demo_rank_def)
  qed
qed

theorem extendType_total_witness:
  "\<exists>rc s' \<sigma>'. extendType 2 demo_types 3 4 = Ret (rc, s', \<sigma>') \<and> rc \<in> {0, 1} \<and> store_ok \<sigma>'"
  using extendType_total [OF demo_types_ok, of 3 4 2] by (auto simp: demo_rank_def)

text \<open>
  C17: \<open>makeCompatibleType\<close> changes the type \<open>int\<close> itself. The object it is given is usually the one
  that every call of \<open>Ty_Int\<close> returns; comparing an \<open>int\<close> with a \<open>real\<close> makes that object real, so
  from then on \<open>Ty_Int\<close> returns a real type and the store is no longer well formed. Extending the
  same pair gives the same answer and keeps the object.
\<close>

theorem makeCompatible_turns_int_real:
  assumes "store_ok \<sigma>" and "Ty_Int \<sigma> = (i, \<sigma>1)" and "Ty_Real \<sigma>1 = (d, \<sigma>2)"
  shows "\<exists>\<sigma>3 obj. makeCompatibleType (Suc n) \<sigma>2 i d = Ret (1, \<sigma>3) \<and> Ty_Int \<sigma>3 = (i, \<sigma>3) \<and>
     tys \<sigma>3 i = Some obj \<and> ty_kind obj = Ty_real \<and> \<not> store_ok \<sigma>3 \<and>
     extendType (Suc n) \<sigma>2 i d = Ret (1, d, \<sigma>2)"
proof -
  have i: "store_ok \<sigma>1" "\<exists>obj. tys \<sigma>1 i = Some obj \<and> ty_kind obj = Ty_int"
    using Ty_single_store_ok [OF assms(1), of Ty_int i \<sigma>1] assms(2) by (auto simp: Ty_Int_def)
  have d: "store_ok \<sigma>2" "\<exists>obj. tys \<sigma>2 d = Some obj \<and> ty_kind obj = Ty_real" "Ty_Real \<sigma>2 = (d, \<sigma>2)"
    "tys \<sigma>1 \<subseteq>\<^sub>m tys \<sigma>2"
    using Ty_single_store_ok [OF i(1), of Ty_real d \<sigma>2] assms(3) by (auto simp: Ty_Real_def)
  obtain io ro where ob: "tys \<sigma>2 i = Some io" "ty_kind io = Ty_int" "tys \<sigma>2 d = Some ro" "ty_kind ro = Ty_real"
    using i(2) d map_le_keeps [OF d(4)] by blast
  have single: "singles \<sigma>2 Ty_int = Some i"
    using Ty_single_cases [of Ty_int \<sigma> i \<sigma>1] Ty_single_cases [of Ty_real \<sigma>1 d \<sigma>2] assms(2,3)
    by (auto simp: Ty_Int_def Ty_Real_def)
  let ?s = "set_kind i Ty_real \<sigma>2"
  have kind: "tys ?s i = Some (io\<lparr> ty_kind := Ty_real \<rparr>)" "singles ?s Ty_int = Some i"
    using ob single by (simp_all add: set_kind_def)
  have "makeCompatibleType (Suc n) \<sigma>2 i d = Ret (1, ?s)"
    using ob by simp
  moreover have "\<not> store_ok ?s"
    using store_okD(4) [of ?s Ty_int i] kind by auto
  moreover have "extendType (Suc n) \<sigma>2 i d = Ret (1, d, \<sigma>2)"
    using extendType_scalar_core [OF d(1) ob(1,3)] ob d(3) by (simp add: scalar_def extends_to_def)
  ultimately show ?thesis
    using kind by (auto simp: Ty_Int_def Ty_single_def)
qed

theorem makeCompatible_turns_int_real_witness:
  "\<exists>\<sigma>3 obj. makeCompatibleType 1 demo_types 5 6 = Ret (1, \<sigma>3) \<and> tys \<sigma>3 5 = Some obj \<and> ty_kind obj = Ty_real"
proof -
  have "Ty_Int demo_types = (5, demo_types)" "Ty_Real demo_types = (6, demo_types)"
    by (simp_all add: Ty_Int_def Ty_Real_def Ty_single_def demo_types_def)
  from makeCompatible_turns_int_real [OF demo_types_ok(1) this, of 0] show ?thesis by auto
qed

text \<open>
  C34: What extends to what. For a source that is not a record \<open>extendType\<close> accepts exactly equal
  kinds, \<open>int\<close> to \<open>real\<close>, and \<open>nil\<close> or \<open>int\<close> to a reference; only for \<open>int\<close> to \<open>real\<close> does the
  caller's variable change, to the real type. Every refusal leaves variable and store unchanged.
\<close>

theorem extendType_scalar:
  assumes "store_ok \<sigma>" and "tys \<sigma> s = Some so" and "tys \<sigma> t = Some to" and "ty_kind so \<noteq> Ty_record"
  shows "extendType (Suc n) \<sigma> s t =
     (if extends_to (ty_kind so) (ty_kind to)
      then if ty_kind so = Ty_int \<and> ty_kind to = Ty_real
           then Ret (1, fst (Ty_Real \<sigma>), snd (Ty_Real \<sigma>)) else Ret (1, s, \<sigma>)
      else Ret (0, s, \<sigma>))"
  using assms extendType_scalar_core by (simp add: scalar_def del: extendType.simps)

theorem extendType_scalar_witness:
  "extendType (Suc 0) demo_types 6 5 = Ret (0, 6, demo_types)"
  using extendType_scalar [OF demo_types_ok(1) demo_types_tys(2,1), of 0]
  by (simp add: extends_to_def del: extendType.simps)

text \<open>
  C40: \<open>Ty_compatible\<close> compares kinds only, and overwrites one. Its second condition assigns
  \<open>Ty_record\<close>, whose number is zero, so the comparison of fields is never made: it returns 1 exactly
  for equal kinds and for \<open>int\<close> with \<open>real\<close>, and then the first type is a record type. Two record
  types with different numbers of fields pass, which \<open>makeCompatibleType\<close> refuses. Of two other
  types the first no longer has its kind: a second call with the same two types returns 0, and if it
  was the type a call of \<open>Ty_Int\<close> and the like returns, the store is no longer well formed.
\<close>

theorem Ty_compatible_compares_kinds:
  assumes "tys \<sigma> a = Some ao" and "tys \<sigma> b = Some bo"
  defines "\<sigma>' \<equiv> set_kind a Ty_record \<sigma>"
    and "ok \<equiv> ty_kind ao = ty_kind bo \<or> {ty_kind ao, ty_kind bo} = {Ty_int, Ty_real}"
  shows "Ty_compatible (Suc n) \<sigma> a b = (if ok then Ret (1, \<sigma>') else Ret (0, \<sigma>)) \<and>
     (ty_kind ao = Ty_record \<longrightarrow> \<sigma>' = \<sigma> \<and>
        (\<forall>l1 l2. ok \<and> u_record ao \<bind> list_at \<sigma> = Some l1 \<and> u_record bo \<bind> list_at \<sigma> = Some l2 \<and>
           al_length l1 \<noteq> al_length l2 \<longrightarrow> makeCompatibleType (Suc n) \<sigma> a b = Ret (0, \<sigma>))) \<and>
     (ok \<and> ty_kind ao \<noteq> Ty_record \<and> a \<noteq> b \<longrightarrow> Ty_compatible (Suc n) \<sigma>' a b = Ret (0, \<sigma>')) \<and>
     (singles \<sigma> (ty_kind ao) = Some a \<and> ty_kind ao \<noteq> Ty_record \<longrightarrow>
        Ty_single (ty_kind ao) \<sigma>' = (a, \<sigma>') \<and> \<not> store_ok \<sigma>')"
proof (intro conjI impI allI)
  have ok_iff: "ok \<longleftrightarrow> ty_kind ao = ty_kind bo \<or> ty_kind ao = Ty_int \<and> ty_kind bo = Ty_real \<or>
      ty_kind ao = Ty_real \<and> ty_kind bo = Ty_int"
    by (auto simp: ok_def doubleton_eq_iff)
  show "Ty_compatible (Suc n) \<sigma> a b = (if ok then Ret (1, \<sigma>') else Ret (0, \<sigma>))"
    using assms(1,2) by (auto simp: ok_iff \<sigma>'_def)
  show "makeCompatibleType (Suc n) \<sigma> a b = Ret (0, \<sigma>)"
    if "ty_kind ao = Ty_record" and "ok \<and> u_record ao \<bind> list_at \<sigma> = Some l1 \<and>
      u_record bo \<bind> list_at \<sigma> = Some l2 \<and> al_length l1 \<noteq> al_length l2" for l1 l2
    using that assms(1,2) by (auto simp: ok_iff)
  show "\<sigma>' = \<sigma>" if "ty_kind ao = Ty_record"
    using that assms(1) by (cases \<sigma>; cases ao) (simp add: \<sigma>'_def set_kind_def fun_upd_idem)
  have new: "tys \<sigma>' a = Some (ao\<lparr> ty_kind := Ty_record \<rparr>)" "singles \<sigma>' = singles \<sigma>"
    using assms(1) by (simp_all add: \<sigma>'_def set_kind_def)
  show "Ty_compatible (Suc n) \<sigma>' a b = Ret (0, \<sigma>')" if "ok \<and> ty_kind ao \<noteq> Ty_record \<and> a \<noteq> b"
  proof -
    have "tys \<sigma>' b = Some bo" using that assms(2) by (simp add: \<sigma>'_def set_kind_def)
    then show ?thesis using that new(1) by (auto simp: ok_iff)
  qed
  assume s: "singles \<sigma> (ty_kind ao) = Some a \<and> ty_kind ao \<noteq> Ty_record"
  then show "Ty_single (ty_kind ao) \<sigma>' = (a, \<sigma>')" using new(2) by (simp add: Ty_single_def)
  show "\<not> store_ok \<sigma>'" using s new store_okD(4) [of \<sigma>' "ty_kind ao" a] by auto
qed

theorem Ty_compatible_compares_kinds_witness:
  "\<exists>\<sigma>. Ty_compatible 1 demo_types 5 6 = Ret (1, \<sigma>) \<and> Ty_compatible 1 \<sigma> 5 6 = Ret (0, \<sigma>) \<and> \<not> store_ok \<sigma>"
proof -
  have "singles demo_types Ty_int = Some 5" by (simp add: demo_types_def)
  then show ?thesis
    using Ty_compatible_compares_kinds [OF demo_types_tys(1,2), of 0] by auto
qed

end
