(* ===== verification/ImRel.thy ===== *)
theory ImRel
  imports Buffer
begin

text \<open>
  The in-memory relations that hold the tuples of windows (\<open>im_db\<close>): a circular doubly linked
  list of tuples with cursors, for relations that are value-referenced and have no index, which is
  how windows open them.

  \<^item> The links and the data of the tuples are functions from addresses. The slots come from a pool
    whose pages stay allocated as long as the relation, and which keeps freed slots on a stack
    (\<open>im_db/buffer.c\<close>): a freed slot keeps its contents until it is handed out again, which a
    cursor that has just deleted its tuple relies on. The pool is taken not to run out.
    \<open>r_item\<close> is the size of the data area of a slot, which the first tuple fixes.
  \<^item> A read copies the tuple and four bytes of its address into an area of 1024 bytes of the
    relation; \<open>None\<close> is a tuple that does not fit.

  \<open>ring\<close> relates a relation to the sequence of its tuples.
\<close>

section \<open>The pool\<close>

record imrel =
  r_next :: "addr \<Rightarrow> addr"
  r_prev :: "addr \<Rightarrow> addr"
  r_data :: "addr \<Rightarrow> string"
  r_head :: "addr option"
  r_free :: "addr list"
  r_fresh :: addr
  r_item :: "nat option"

definition im_rel_create :: imrel where
  "im_rel_create =
     \<lparr> r_next = (\<lambda>a. 0), r_prev = (\<lambda>a. 0), r_data = (\<lambda>a. []), r_head = None, r_free = [], r_fresh = 1,
       r_item = None \<rparr>"

definition allocateBuffer :: "imrel \<Rightarrow> addr \<times> imrel" where
  "allocateBuffer r =
     (case r_free r of
        a # as \<Rightarrow> (a, r\<lparr> r_free := as \<rparr>)
      | [] \<Rightarrow> (r_fresh r, r\<lparr> r_fresh := r_fresh r + 1 \<rparr>))"

definition freeBuffer :: "addr \<Rightarrow> imrel \<Rightarrow> imrel" where
  "freeBuffer a r = r\<lparr> r_free := a # r_free r \<rparr>"

section \<open>Operations\<close>

text \<open>
  \<open>im_rel_put\<close> with \<open>DB_APPEND\<close>. The first tuple fixes the size of the slots; a longer tuple
  would be written past the end of its slot.
\<close>

definition im_rel_link :: "string \<Rightarrow> imrel \<Rightarrow> imrel" where
  "im_rel_link d r =
     (case allocateBuffer r of
        (cur, r1) \<Rightarrow>
          (let r2 = r1\<lparr> r_data := (r_data r1)(cur := d) \<rparr> in
           case r_head r of
             None \<Rightarrow> r2\<lparr> r_prev := (r_prev r2)(cur := cur), r_next := (r_next r2)(cur := cur),
                         r_head := Some cur \<rparr>
           | Some hd0 \<Rightarrow>
               (let hprev = r_prev r2 hd0 in
                if hprev = hd0
                then r2\<lparr> r_prev := (r_prev r2)(cur := hd0, hd0 := cur),
                         r_next := (r_next r2)(cur := hd0, hd0 := cur) \<rparr>
                else r2\<lparr> r_prev := (r_prev r2)(cur := hprev, hd0 := cur),
                         r_next := (r_next r2)(hprev := cur, cur := hd0) \<rparr>)))"

definition im_rel_put :: "string \<Rightarrow> imrel \<Rightarrow> imrel option" where
  "im_rel_put d r =
     (case r_item r of
        None \<Rightarrow> Some (im_rel_link d (r\<lparr> r_item := Some (length d) \<rparr>))
      | Some m \<Rightarrow> if length d \<le> m then Some (im_rel_link d r) else None)"

datatype c_flag = C_FIRST | C_NEXT

definition cursor_move :: "c_flag \<Rightarrow> imrel \<Rightarrow> addr option \<Rightarrow> addr option" where
  "cursor_move flag r cur =
     (case flag of
        C_FIRST \<Rightarrow> r_head r
      | C_NEXT \<Rightarrow>
          (case cur of
             None \<Rightarrow> r_head r
           | Some c \<Rightarrow> if Some (r_next r c) = r_head r then None else Some (r_next r c)))"

text \<open>The return code, the data read, and the new position of the cursor.\<close>

definition im_rel_cursor_get ::
    "c_flag \<Rightarrow> imrel \<Rightarrow> addr option \<Rightarrow> (int \<times> string option \<times> addr option) option" where
  "im_rel_cursor_get flag r cur =
     (if r_head r = None then Some (DB_NOTFOUND, None, cur)
      else (case cursor_move flag r cur of
              None \<Rightarrow> Some (DB_NOTFOUND, None, None)
            | Some c \<Rightarrow>
                if length (r_data r c) + 4 \<le> 1024 then Some (0, Some (r_data r c), Some c) else None))"

definition im_rel_cursor_del :: "imrel \<Rightarrow> addr option \<Rightarrow> int \<times> imrel \<times> addr option" where
  "im_rel_cursor_del r cur =
     (case cur of
        None \<Rightarrow> (DB_NOTFOUND, r, cur)
      | Some c \<Rightarrow>
          (let nx = r_next r c; pv = r_prev r c;
               unlinked = r\<lparr> r_next := (r_next r)(pv := nx), r_prev := (r_prev r)(nx := pv) \<rparr>
           in if Some c = r_head r
              then if Some nx = r_head r then (0, r\<lparr> r_head := None \<rparr>, cur)
                   else (0, freeBuffer c (unlinked\<lparr> r_head := Some nx \<rparr>), None)
              else (0, freeBuffer c unlinked, cur)))"

section \<open>Rings\<close>

text \<open>Every address of a list is linked to the one behind it, the last one to \<open>y\<close>.\<close>

fun links :: "(addr \<Rightarrow> addr) \<Rightarrow> addr list \<Rightarrow> addr \<Rightarrow> bool" where
  "links f [] y \<longleftrightarrow> True"
| "links f (x # xs) y \<longleftrightarrow> f x = hd (xs @ [y]) \<and> links f xs y"

lemma links_append: "links f (xs @ ys) y \<longleftrightarrow> links f xs (hd (ys @ [y])) \<and> links f ys y"
  by (induction xs) (auto simp: hd_append)

lemma links_upd [simp]: "a \<notin> set xs \<Longrightarrow> links (f(a := z)) xs y = links f xs y"
  by (induction xs) auto

text \<open>The relation \<open>r\<close> holds the tuples at the addresses \<open>xs\<close>, in this order.\<close>

definition ring :: "imrel \<Rightarrow> addr list \<Rightarrow> bool" where
  "ring r xs \<longleftrightarrow>
     distinct xs \<and> r_head r = (if xs = [] then None else Some (hd xs)) \<and>
     (xs \<noteq> [] \<longrightarrow> links (r_next r) xs (hd xs) \<and> links (r_prev r) (rev xs) (last xs)) \<and>
     distinct (r_free r) \<and> set xs \<inter> set (r_free r) = {} \<and>
     (\<forall>a\<in>set xs \<union> set (r_free r). a < r_fresh r)"

lemma ring_head: "ring r xs \<Longrightarrow> r_head r = (if xs = [] then None else Some (hd xs))"
  by (simp add: ring_def)

lemma ring_create: "ring im_rel_create []"
  by (simp add: ring_def im_rel_create_def)

lemma allocate_ring:
  assumes "ring r xs" and "allocateBuffer r = (a, r')"
  shows "ring r' xs" and "a \<notin> set xs" and "a \<notin> set (r_free r')" and "a < r_fresh r'"
    and "r_next r' = r_next r" "r_prev r' = r_prev r" "r_data r' = r_data r" "r_head r' = r_head r"
  using assms by (auto simp: allocateBuffer_def ring_def split: list.splits)

text \<open>The three cases of \<open>im_rel_link\<close> for a relation that is not empty are one.\<close>

lemma link_cons:
  assumes "ring r xs" and "xs \<noteq> []" and "allocateBuffer r = (a, r1)"
  shows "im_rel_link d r =
     r1\<lparr> r_data := (r_data r)(a := d), r_prev := (r_prev r)(a := last xs, hd xs := a),
         r_next := (r_next r)(last xs := a, a := hd xs) \<rparr>"
proof -
  note al = allocate_ring [OF assms(1,3)]
  obtain h zs where xs: "xs = h # zs" using assms(2) by (cases xs) auto
  have "links (r_prev r) (rev zs @ [h]) (last xs)" using assms(1) xs by (simp add: ring_def)
  then have pv: "r_prev r h = last xs" by (simp add: links_append)
  have ne: "a \<noteq> h" "a \<noteq> last xs" using al(2) xs by auto
  have hd: "r_head r = Some h" using assms(1) xs by (simp add: ring_def)
  show ?thesis
    using hd pv ne al(5-8) assms(3) xs
    by (auto simp: im_rel_link_def Let_def fun_upd_twist)
qed

lemma link_ring:
  assumes "ring r xs"
  shows "\<exists>a. a \<notin> set xs \<and> ring (im_rel_link d r) (xs @ [a]) \<and>
     r_data (im_rel_link d r) = (r_data r)(a := d)"
proof -
  obtain a r1 where al: "allocateBuffer r = (a, r1)" by fastforce
  note al' = allocate_ring [OF assms al]
  have r1: "distinct xs" "distinct (r_free r1)" "set xs \<inter> set (r_free r1) = {}"
    "\<forall>a\<in>set xs \<union> set (r_free r1). a < r_fresh r1"
    using al'(1) by (simp_all add: ring_def)
  show ?thesis
  proof (cases "xs = []")
    case True
    then have "r_head r = None" using assms by (simp add: ring_def)
    then show ?thesis
      using True al al'(2-8) r1 by (auto simp: im_rel_link_def ring_def Let_def)
  next
    case False
    let ?s = "im_rel_link d r"
    have s: "?s = r1\<lparr> r_data := (r_data r)(a := d), r_prev := (r_prev r)(a := last xs, hd xs := a),
         r_next := (r_next r)(last xs := a, a := hd xs) \<rparr>"
      by (rule link_cons [OF assms False al])
    obtain h zs where xs: "xs = h # zs" using False by (cases xs) auto
    obtain ys l where xs': "xs = ys @ [l]" using False by (cases xs rule: rev_cases) auto
    have d: "distinct (ys @ [l])" "distinct (h # zs)" using r1(1) xs xs' by simp_all
    have "a \<notin> set ys" "a \<noteq> l" using al'(2) xs' by auto
    moreover have "a \<notin> set zs" "a \<noteq> h" using al'(2) xs by auto
    ultimately have a: "a \<notin> set ys" "a \<noteq> l" "a \<notin> set zs" "a \<noteq> h" by blast+
    have "last xs = l" using xs' by simp
    moreover have "hd xs = h" using xs by simp
    ultimately have lh: "last xs = l" "hd xs = h" by blast+
    have hr: "hd (rev zs @ h # ws) = l" for ws
      using hd_rev [of xs] lh(1) xs by (cases zs rule: rev_cases) auto
    have "links (r_next r) (ys @ [l]) h" using assms xs xs' by (simp add: ring_def)
    then have "links (r_next ?s) (ys @ [l] @ [a]) h"
      using d a unfolding s lh by (simp add: links_append)
    then have n: "links (r_next ?s) (xs @ [a]) (hd (xs @ [a]))"
      using xs' lh(2) by (cases ys) auto
    have "links (r_prev r) (rev zs @ [h]) l"
      using assms xs lh by (simp add: ring_def)
    then have "links (r_prev ?s) (a # rev zs @ [h]) a"
      using d a hr unfolding s lh by (simp add: links_append)
    then have p: "links (r_prev ?s) (rev (xs @ [a])) (last (xs @ [a]))"
      using xs by simp
    have "r_head ?s = Some (hd (xs @ [a]))" "r_free ?s = r_free r1" "r_fresh ?s = r_fresh r1"
      using al'(8) ring_head [OF assms] False by (simp_all add: s)
    then have "ring ?s (xs @ [a])"
      using n p r1 al'(2-4) by (auto simp: ring_def)
    then show ?thesis using al'(2) by (auto simp: s)
  qed
qed

lemma ring_item [simp]: "ring (r\<lparr> r_item := m \<rparr>) xs = ring r xs"
  by (simp add: ring_def)

lemma link_item [simp]: "r_item (im_rel_link d r) = r_item r"
  by (auto simp: im_rel_link_def allocateBuffer_def Let_def split: list.splits option.splits)

lemma put_ring:
  assumes "ring r xs" and "r_item r = None \<or> r_item r = Some m" and "length d \<le> m"
    and "r_item r = None \<Longrightarrow> length d = m"
  shows "\<exists>a r'. im_rel_put d r = Some r' \<and> a \<notin> set xs \<and> ring r' (xs @ [a]) \<and>
     r_data r' = (r_data r)(a := d) \<and> r_item r' = Some m"
proof (cases "r_item r")
  case None
  then show ?thesis
    using link_ring [of "r\<lparr> r_item := Some m \<rparr>" xs d] assms by (auto simp: im_rel_put_def)
next
  case (Some k)
  then show ?thesis using link_ring [of r xs d] assms by (auto simp: im_rel_put_def)
qed

text \<open>Taking a tuple out of the ring: the links around it.\<close>

definition unlink :: "addr \<Rightarrow> imrel \<Rightarrow> imrel" where
  "unlink c r =
     r\<lparr> r_next := (r_next r)(r_prev r c := r_next r c), r_prev := (r_prev r)(r_next r c := r_prev r c) \<rparr>"

lemma hd_rev_snoc: "hd (rev ys @ zs) = (if ys = [] then hd zs else last ys)"
  by (cases ys rule: rev_cases) auto

lemma links_out:
  assumes "links f (as @ c # bs) (hd (as @ c # bs))" and "distinct (as @ c # bs)" and "as @ bs \<noteq> []"
    and "p = last (bs @ as)"
  shows "links (f(p := f c)) (as @ bs) (hd (as @ bs))"
proof (cases "as = []")
  case True
  then obtain bs' where bs: "bs = bs' @ [p]" using assms(3,4) by (cases bs rule: rev_cases) auto
  have "links f bs' p" "f c = hd bs" "p \<notin> set bs'"
    using assms(1,2) True bs by (auto simp: links_append hd_append)
  then show ?thesis using True bs by (simp add: links_append)
next
  case False
  then obtain as' where as: "as = as' @ [p]" using assms(4) by (cases as rule: rev_cases) auto
  have "hd (as @ c # bs) = hd as" "hd (as @ bs) = hd as" using False by simp_all
  then have "links f as' p" "f c = hd (bs @ [hd as])" "links f bs (hd as)" "p \<notin> set as'" "p \<notin> set bs"
    using assms(1,2) as by (auto simp: links_append)
  then show ?thesis
    using as \<open>hd (as @ bs) = hd as\<close> by (simp add: links_append)
qed

lemma ring_neighbours:
  assumes "ring r (as @ c # bs)"
  shows "r_next r c = hd (bs @ as @ [c])" and "r_prev r c = last (c # bs @ as)"
proof -
  have l: "links (r_next r) (as @ c # bs) (hd (as @ c # bs))"
    "links (r_prev r) (rev (as @ c # bs)) (last (as @ c # bs))"
    using assms by (simp_all add: ring_def)
  show "r_next r c = hd (bs @ as @ [c])"
    using l(1) by (cases bs; cases as) (auto simp: links_append)
  show "r_prev r c = last (c # bs @ as)"
    using l(2) by (cases as rule: rev_cases; cases bs rule: rev_cases) (auto simp: links_append)
qed

lemma unlink_ring:
  assumes "ring r (as @ c # bs)" and "as @ bs \<noteq> []"
  shows "ring (freeBuffer c ((unlink c r)\<lparr> r_head := Some (hd (as @ bs)) \<rparr>)) (as @ bs)"
proof -
  have l: "links (r_next r) (as @ c # bs) (hd (as @ c # bs))"
    "links (r_prev r) (rev (as @ c # bs)) (last (as @ c # bs))"
    and d: "distinct (as @ c # bs)"
    using assms(1) by (simp_all add: ring_def)
  note nb = ring_neighbours [OF assms(1)]
  have p: "r_prev r c = last (bs @ as)" and n: "r_next r c = hd (bs @ as)"
    using nb assms(2) by (auto simp: hd_append)
  have "links ((r_next r)(r_prev r c := r_next r c)) (as @ bs) (hd (as @ bs))"
    by (rule links_out [OF l(1) d assms(2) p])
  moreover have "links ((r_prev r)(r_next r c := r_prev r c)) (rev bs @ rev as) (hd (rev bs @ rev as))"
  proof (rule links_out)
    show "links (r_prev r) (rev bs @ c # rev as) (hd (rev bs @ c # rev as))"
      using l(2) hd_rev [of "as @ c # bs"] by simp
    show "r_next r c = last (rev as @ rev bs)"
      using n last_rev [of "bs @ as"] assms(2) by (auto simp: hd_append)
  qed (use d assms(2) in auto)
  moreover have "hd (rev bs @ rev as) = last (as @ bs)"
    using hd_rev [of "as @ bs"] by simp
  ultimately show ?thesis
    using assms d by (auto simp: ring_def freeBuffer_def unlink_def)
qed

text \<open>What a cursor deletion does, by the position of the tuple.\<close>

lemma cursor_del_ring:
  assumes "ring r (as @ c # bs)"
  obtains r' where
    "im_rel_cursor_del r (Some c) = (0, r', if as = [] \<and> bs \<noteq> [] then None else Some c)"
    and "ring r' (as @ bs)" and "r_data r' = r_data r"
    and "as \<noteq> [] \<Longrightarrow> r_next r' c = hd (bs @ as)"
proof -
  have h: "r_head r = Some (hd (as @ c # bs))" using assms by (simp add: ring_def)
  have d: "distinct (as @ c # bs)" using assms by (simp add: ring_def)
  have head_c: "Some c = r_head r \<longleftrightarrow> as = []" using h d by (cases as) auto
  note nb = ring_neighbours [OF assms]
  show ?thesis
  proof (cases "as @ bs = []")
    case True
    then have "im_rel_cursor_del r (Some c) = (0, r\<lparr> r_head := None \<rparr>, Some c)"
      using head_c nb h by (simp add: im_rel_cursor_del_def Let_def)
    moreover have "ring (r\<lparr> r_head := None \<rparr>) []" using assms by (auto simp: ring_def)
    ultimately show ?thesis using that [of "r\<lparr> r_head := None \<rparr>"] True by auto
  next
    case False
    let ?s = "freeBuffer c ((unlink c r)\<lparr> r_head := Some (hd (as @ bs)) \<rparr>)"
    have rs: "ring ?s (as @ bs)" by (rule unlink_ring [OF assms False])
    have nx: "r_next r c = hd (bs @ as)" using nb False by (auto simp: hd_append)
    have "im_rel_cursor_del r (Some c) = (0, ?s, if as = [] \<and> bs \<noteq> [] then None else Some c)"
    proof (cases "as = []")
      case True
      then have "r_head r = Some c" "r_next r c \<noteq> c" using nx h d False by (cases bs; auto)+
      then show ?thesis
        using True False nx by (simp add: im_rel_cursor_del_def Let_def unlink_def)
    next
      case as: False
      then have "r_head (unlink c r) = Some (hd (as @ bs))" using h by (simp add: unlink_def)
      then have "(unlink c r)\<lparr> r_head := Some (hd (as @ bs)) \<rparr> = unlink c r" by simp
      then show ?thesis
        using as head_c by (simp add: im_rel_cursor_del_def Let_def unlink_def)
    qed
    moreover have "r_next ?s c = hd (bs @ as)"
      using nx nb(2) d False by (auto simp: unlink_def freeBuffer_def)
    moreover have "r_data ?s = r_data r" by (simp add: unlink_def freeBuffer_def)
    ultimately show ?thesis using that [of ?s] rs by blast
  qed
qed

section \<open>Scanning with deletions\<close>

text \<open>
  A loop over the relation that deletes the tuples with a property. After a deletion the cursor
  is null, when the head was deleted, or stands on the freed slot; both lead to the tuple behind.
\<close>

fun delete_scan ::
    "nat \<Rightarrow> (string \<Rightarrow> bool) \<Rightarrow> bool \<Rightarrow> imrel \<Rightarrow> addr option \<Rightarrow> (imrel \<times> addr option) outcome" where
  "delete_scan 0 bad first r cur = NoFuel"
| "delete_scan (Suc n) bad first r cur =
     (case im_rel_cursor_get (if first then C_FIRST else C_NEXT) r cur of
        None \<Rightarrow> Crash
      | Some (rc, d, cur1) \<Rightarrow>
          if rc \<noteq> 0 then Ret (r, cur1)
          else (case d of
                  None \<Rightarrow> Crash
                | Some d \<Rightarrow>
                    if bad d
                    then (case im_rel_cursor_del r cur1 of (rc', r', cur2) \<Rightarrow> delete_scan n bad False r' cur2)
                    else delete_scan n bad False r cur1))"

text \<open>A loop that reads all tuples.\<close>

fun print_scan :: "nat \<Rightarrow> bool \<Rightarrow> imrel \<Rightarrow> addr option \<Rightarrow> string list outcome" where
  "print_scan 0 first r cur = NoFuel"
| "print_scan (Suc n) first r cur =
     (case im_rel_cursor_get (if first then C_FIRST else C_NEXT) r cur of
        None \<Rightarrow> Crash
      | Some (rc, d, cur1) \<Rightarrow>
          if rc \<noteq> 0 then Ret []
          else (case d of
                  None \<Rightarrow> Crash
                | Some d \<Rightarrow>
                    (case print_scan n False r cur1 of
                       Ret ds \<Rightarrow> Ret (d # ds)
                     | Crash \<Rightarrow> Crash
                     | NoFuel \<Rightarrow> NoFuel)))"

lemma cursor_del_item: "im_rel_cursor_del r cur = (rc, r', cur') \<Longrightarrow> r_item r' = r_item r"
  by (auto simp: im_rel_cursor_del_def freeBuffer_def Let_def split: option.splits if_splits)

text \<open>The cursor is such that \<open>DB_NEXT\<close> goes from the tuples \<open>ks\<close> on to the tuples \<open>rs\<close>.\<close>

definition ready :: "imrel \<Rightarrow> addr option \<Rightarrow> addr list \<Rightarrow> addr list \<Rightarrow> bool" where
  "ready r cur ks rs \<longleftrightarrow> ring r (ks @ rs) \<and>
     (case cur of
        None \<Rightarrow> ks = []
      | Some x \<Rightarrow> ks @ rs = [] \<or> ks \<noteq> [] \<and> r_next r x = hd (rs @ ks))"

definition fits :: "imrel \<Rightarrow> addr list \<Rightarrow> bool" where
  "fits r xs \<longleftrightarrow> (\<forall>x\<in>set xs. length (r_data r x) + 4 \<le> 1024)"

lemma get_first:
  assumes "ring r xs" and "fits r xs"
  shows "im_rel_cursor_get C_FIRST r cur =
     Some (case xs of [] \<Rightarrow> (DB_NOTFOUND, None, cur) | x # _ \<Rightarrow> (0, Some (r_data r x), Some x))"
  using assms by (cases xs) (auto simp: im_rel_cursor_get_def cursor_move_def ring_def fits_def)

lemma get_next:
  assumes "ready r cur ks rs" and "fits r rs"
  obtains cur' where "im_rel_cursor_get C_NEXT r cur =
     Some (case rs of [] \<Rightarrow> (DB_NOTFOUND, None, cur') | x # _ \<Rightarrow> (0, Some (r_data r x), Some x))"
proof -
  have rg: "ring r (ks @ rs)" and h: "r_head r = (if ks @ rs = [] then None else Some (hd (ks @ rs)))"
    using assms(1) ring_head by (auto simp: ready_def)
  have d: "distinct (ks @ rs)" using rg by (simp add: ring_def)
  have mv: "cursor_move C_NEXT r cur = (case rs of [] \<Rightarrow> None | x # _ \<Rightarrow> Some x)" if "ks @ rs \<noteq> []"
  proof (cases cur)
    case None
    then show ?thesis
      using assms(1) h that by (auto simp: ready_def cursor_move_def split: list.splits)
  next
    case (Some y)
    then have k: "ks \<noteq> []" "r_next r y = hd (rs @ ks)" using assms(1) that by (auto simp: ready_def)
    then have hk: "r_head r = Some (hd ks)" using h by simp
    have "hd rs \<noteq> hd ks" if "rs \<noteq> []" using d that k(1) by (cases rs; cases ks) auto
    then show ?thesis
      using Some k hk by (cases rs) (auto simp: cursor_move_def)
  qed
  show ?thesis
  proof (cases "ks @ rs = []")
    case True
    then show ?thesis using h that [of cur] by (simp add: im_rel_cursor_get_def)
  next
    case False
    have "im_rel_cursor_get C_NEXT r cur =
        Some (case rs of [] \<Rightarrow> (DB_NOTFOUND, None, None) | x # _ \<Rightarrow> (0, Some (r_data r x), Some x))"
      using mv [OF False] h False assms(2)
      by (cases rs) (auto simp: im_rel_cursor_get_def fits_def)
    then show ?thesis by (rule that)
  qed
qed

lemma not_found_code: "DB_NOTFOUND \<noteq> 0"
  by (simp add: DB_NOTFOUND_def)

lemma ready_keep:
  assumes "ring r (ks @ x # rs)"
  shows "ready r (Some x) (ks @ [x]) rs"
  using assms ring_neighbours(1) [OF assms] by (simp add: ready_def)

lemma ready_drop:
  assumes "ring r (ks @ x # rs)"
  obtains r' cur' where "im_rel_cursor_del r (Some x) = (0, r', cur')" and "ready r' cur' ks rs"
    and "r_data r' = r_data r"
proof -
  obtain r' where r': "im_rel_cursor_del r (Some x) = (0, r', if ks = [] \<and> rs \<noteq> [] then None else Some x)"
    "ring r' (ks @ rs)" "r_data r' = r_data r" "ks \<noteq> [] \<Longrightarrow> r_next r' x = hd (rs @ ks)"
    using cursor_del_ring [OF assms] by blast
  have "ready r' (if ks = [] \<and> rs \<noteq> [] then None else Some x) ks rs"
    using r'(2,4) by (auto simp: ready_def)
  then show ?thesis using that r'(1,3) by blast
qed

lemma scan_next:
  assumes "ready r cur ks rs" and "fits r rs" and "length rs < n"
  shows "\<exists>r' cur'. delete_scan n bad False r cur = Ret (r', cur') \<and>
     ring r' (ks @ filter (\<lambda>a. \<not> bad (r_data r a)) rs) \<and> r_data r' = r_data r"
  using assms
proof (induction rs arbitrary: r cur ks n)
  case Nil
  obtain m where n: "n = Suc m" using Nil.prems(3) by (cases n) auto
  obtain cur' where "im_rel_cursor_get C_NEXT r cur = Some (DB_NOTFOUND, None, cur')"
    using get_next [OF Nil.prems(1,2)] by auto
  then show ?case using Nil.prems(1) n not_found_code by (simp add: ready_def)
next
  case (Cons x rs)
  obtain m where n: "n = Suc m" "length rs < m" using Cons.prems(3) by (cases n) auto
  have rg: "ring r (ks @ x # rs)" using Cons.prems(1) by (simp add: ready_def)
  have g: "im_rel_cursor_get C_NEXT r cur = Some (0, Some (r_data r x), Some x)"
    using get_next [OF Cons.prems(1,2)] by auto
  have fit: "fits r rs" using Cons.prems(2) by (simp add: fits_def)
  show ?case
  proof (cases "bad (r_data r x)")
    case True
    obtain r' cur' where del: "im_rel_cursor_del r (Some x) = (0, r', cur')" "ready r' cur' ks rs"
      "r_data r' = r_data r"
      by (rule ready_drop [OF rg])
    have "fits r' rs" using fit del(3) by (simp add: fits_def)
    from Cons.IH [OF del(2) this n(2)] show ?thesis
      using True n(1) g del by simp
  next
    case False
    from Cons.IH [OF ready_keep [OF rg] fit n(2)] show ?thesis
      using False n(1) g by simp
  qed
qed

lemma delete_scan_filter:
  assumes "ring r xs" and "fits r xs" and "length xs < n"
  shows "\<exists>r' cur'. delete_scan n bad True r cur = Ret (r', cur') \<and>
     ring r' (filter (\<lambda>a. \<not> bad (r_data r a)) xs) \<and> r_data r' = r_data r"
proof -
  obtain m where n: "n = Suc m" "length xs \<le> m" using assms(3) by (cases n) auto
  show ?thesis
  proof (cases xs)
    case Nil
    then show ?thesis using get_first [OF assms(1,2)] assms(1) n not_found_code by simp
  next
    case (Cons x rs)
    have rg: "ring r ([] @ x # rs)" using assms(1) Cons by simp
    have fit: "fits r rs" and m: "length rs < m" using assms(2) n(2) Cons by (auto simp: fits_def)
    have g: "im_rel_cursor_get C_FIRST r cur = Some (0, Some (r_data r x), Some x)"
      using get_first [OF assms(1,2)] Cons by simp
    show ?thesis
    proof (cases "bad (r_data r x)")
      case True
      obtain r' cur' where del: "im_rel_cursor_del r (Some x) = (0, r', cur')" "ready r' cur' [] rs"
        "r_data r' = r_data r"
        by (rule ready_drop [OF rg])
      have "fits r' rs" using fit del(3) by (simp add: fits_def)
      from scan_next [OF del(2) this m, of bad] show ?thesis
        using True n(1) g del Cons by simp
    next
      case False
      from scan_next [OF ready_keep [OF rg] fit m, of bad] show ?thesis
        using False n(1) g Cons by simp
    qed
  qed
qed

lemma print_next:
  assumes "ready r cur ks rs" and "fits r rs" and "length rs < n"
  shows "print_scan n False r cur = Ret (map (r_data r) rs)"
  using assms
proof (induction rs arbitrary: cur ks n)
  case Nil
  obtain m where n: "n = Suc m" using Nil.prems(3) by (cases n) auto
  obtain cur' where "im_rel_cursor_get C_NEXT r cur = Some (DB_NOTFOUND, None, cur')"
    using get_next [OF Nil.prems(1,2)] by auto
  then show ?case using n not_found_code by simp
next
  case (Cons x rs)
  obtain m where n: "n = Suc m" "length rs < m" using Cons.prems(3) by (cases n) auto
  have rg: "ring r (ks @ x # rs)" using Cons.prems(1) by (simp add: ready_def)
  have g: "im_rel_cursor_get C_NEXT r cur = Some (0, Some (r_data r x), Some x)"
    using get_next [OF Cons.prems(1,2)] by auto
  have "fits r rs" using Cons.prems(2) by (simp add: fits_def)
  from Cons.IH [OF ready_keep [OF rg] this n(2)] show ?case using n(1) g by simp
qed

lemma print_scan_all:
  assumes "ring r xs" and "fits r xs" and "length xs < n"
  shows "print_scan n True r cur = Ret (map (r_data r) xs)"
proof -
  obtain m where n: "n = Suc m" "length xs \<le> m" using assms(3) by (cases n) auto
  show ?thesis
  proof (cases xs)
    case Nil
    then show ?thesis using get_first [OF assms(1,2)] n not_found_code by simp
  next
    case (Cons x rs)
    have rg: "ring r ([] @ x # rs)" using assms(1) Cons by simp
    have "fits r rs" "length rs < m" using assms(2) n(2) Cons by (auto simp: fits_def)
    from print_next [OF ready_keep [OF rg] this] show ?thesis
      using get_first [OF assms(1,2)] Cons n(1) by simp
  qed
qed

text \<open>A relation that was filled by appending.\<close>

lemma filled_ring:
  assumes "\<forall>d\<in>set ds. length d \<le> length (hd ds)"
  shows "\<exists>r xs. foldM im_rel_put ds im_rel_create = Some r \<and> ring r xs \<and> map (r_data r) xs = ds \<and>
     r_item r = (if ds = [] then None else Some (length (hd ds)))"
  using assms
proof (induction ds rule: rev_induct)
  case Nil
  show ?case using ring_create by (auto simp: im_rel_create_def)
next
  case (snoc d ds)
  have "\<forall>e\<in>set ds. length e \<le> length (hd ds)"
    using snoc.prems by (cases ds) auto
  from snoc.IH [OF this] obtain r xs where r: "foldM im_rel_put ds im_rel_create = Some r" "ring r xs"
    "map (r_data r) xs = ds" "r_item r = (if ds = [] then None else Some (length (hd ds)))" by blast
  let ?m = "length (hd (ds @ [d]))"
  have "r_item r = None \<or> r_item r = Some ?m" "length d \<le> ?m" "r_item r = None \<Longrightarrow> length d = ?m"
    using r(4) snoc.prems by (auto split: if_splits)
  from put_ring [OF r(2) this] obtain a r' where a: "im_rel_put d r = Some r'" "a \<notin> set xs"
    "ring r' (xs @ [a])" "r_data r' = (r_data r)(a := d)" "r_item r' = Some ?m" by blast
  have "map (r_data r') (xs @ [a]) = ds @ [d]"
    using a(2) r(3) by (simp add: a(4))
  then show ?case using r(1) a(1,3,5) by auto
qed

lemma delete_scan_item:
  "delete_scan n bad first r cur = Ret (r', cur') \<Longrightarrow> r_item r' = r_item r"
  by (induction n bad first r cur rule: delete_scan.induct)
    (auto simp: cursor_del_item split: option.splits if_splits prod.splits)

section \<open>Properties\<close>

text \<open>
  C11: Deleting under a cursor is safe. After appending the tuples \<open>ds\<close>, none longer than the
  first, which fixes the size of the slots, nor than the read area allows, a scan that deletes the
  tuples with a property ends, though the cursor is left on a freed slot or null after each
  deletion, and a second scan reads exactly the other tuples, in their order.
\<close>

theorem scan_deletes_exactly:
  assumes "\<forall>d\<in>set ds. length d \<le> length (hd ds)" and "\<forall>d\<in>set ds. length d + 4 \<le> 1024"
  shows "\<exists>r0 r cur. foldM im_rel_put ds im_rel_create = Some r0 \<and>
     delete_scan (Suc (length ds)) bad True r0 None = Ret (r, cur) \<and>
     print_scan (Suc (length ds)) True r cur = Ret (filter (\<lambda>d. \<not> bad d) ds)"
proof -
  obtain r0 xs where xs: "ring r0 xs" "map (r_data r0) xs = ds" "foldM im_rel_put ds im_rel_create = Some r0"
    using filled_ring [OF assms(1)] by blast
  have "r_data r0 ` set xs = set ds" using arg_cong [OF xs(2), of set] by simp
  then have fit: "fits r0 xs" using assms(2) unfolding fits_def by blast
  have len: "length xs < Suc (length ds)" using arg_cong [OF xs(2), of length] by simp
  obtain r cur where r: "delete_scan (Suc (length ds)) bad True r0 None = Ret (r, cur)"
    "ring r (filter (\<lambda>a. \<not> bad (r_data r0 a)) xs)" "r_data r = r_data r0"
    using delete_scan_filter [OF xs(1) fit len] by blast
  let ?ys = "filter (\<lambda>a. \<not> bad (r_data r0 a)) xs"
  have "fits r ?ys" using fit r(3) by (simp add: fits_def)
  moreover have "length ?ys < Suc (length ds)"
    by (rule le_less_trans [OF length_filter_le len])
  ultimately have "print_scan (Suc (length ds)) True r cur = Ret (map (r_data r) ?ys)"
    using print_scan_all [OF r(2)] by blast
  moreover have "map (r_data r) ?ys = filter (\<lambda>d. \<not> bad d) ds"
    using arg_cong [OF xs(2), of "filter (\<lambda>d. \<not> bad d)"] r(3) by (simp add: filter_map comp_def)
  ultimately show ?thesis using r(1) xs(3) by auto
qed

theorem scan_deletes_exactly_witness:
  "\<exists>r0 r cur. foldM im_rel_put [''a'', ''b'', ''c''] im_rel_create = Some r0 \<and>
     delete_scan 4 (\<lambda>d. d = ''b'') True r0 None = Ret (r, cur) \<and>
     print_scan 4 True r cur = Ret [''a'', ''c'']"
  using scan_deletes_exactly [of "[''a'', ''b'', ''c'']" "\<lambda>d. d = ''b''"] by (simp add: eval_nat_numeral)

end
