(* ===== verification/WinAggr.thy ===== *)
theory WinAggr
  imports WindowBuf ImRel
begin

text \<open>
  Windows of aggregates (\<open>sql/winbuf.cc\<close>) and the code the compiler emits to maintain a built-in
  aggregate over one (\<open>transCallBuiltInAggr\<close> in \<open>sql/semant_aggr.cc\<close>).

  \<^item> A \<open>winbuf\<close> keeps tuples in an in-memory relation (\<open>ImRel\<close>), each followed by the four bytes of
    the value the tuple counter had when it arrived, and one cursor \<open>temp\<close> for all its operations.
  \<^item> The emitted code is a string in the source; the model is what that code does, for count
    windows and the aggregates over an \<open>int\<close> argument: it advances the counter, stores the tuple,
    takes out what has expired, and updates the value. \<open>SUM\<close> wraps at 32 bits.
  \<^item> The loops take fuel; one more than the number of tuples in the window is enough.
  \<^item> The variants for \<open>double\<close> values are not modelled; they differ in the type only.
\<close>

section \<open>The window\<close>

datatype win_mode = Win_memory | Win_disk

record winbuf =
  wb_rel :: imrel
  wb_temp :: "addr option"
  wb_mode :: win_mode
  wb_wtype :: win_type
  wb_first_ts :: "timestamp option"
  wb_tuple_id :: "32 word"
  wb_size :: "32 word"
  wb_n :: int
  wb_first :: bool
  wb_datasize :: nat
  wb_keysize :: nat
  wb_keybegin :: nat
  wb_plidbegin :: nat

definition winbuf_init :: "32 word \<Rightarrow> nat \<Rightarrow> nat \<Rightarrow> win_type \<Rightarrow> winbuf" where
  "winbuf_init size_in datasize_in keysize_in wtype_in =
     \<lparr> wb_rel = im_rel_create, wb_temp = None, wb_mode = Win_memory, wb_wtype = wtype_in, wb_first_ts = None,
       wb_tuple_id = 0, wb_size = size_in, wb_n = 0, wb_first = True, wb_datasize = datasize_in,
       wb_keysize = keysize_in, wb_keybegin = datasize_in + 4, wb_plidbegin = datasize_in + 4 + keysize_in \<rparr>"

text \<open>\<open>put(key, data)\<close>, and the two wrappers that build the stored tuple.\<close>

definition winbuf_put_raw :: "string \<Rightarrow> winbuf \<Rightarrow> winbuf option" where
  "winbuf_put_raw d w = map_option (\<lambda>r. w\<lparr> wb_rel := r \<rparr>) (im_rel_put d (wb_rel w))"

definition winbuf_put :: "string \<Rightarrow> winbuf \<Rightarrow> winbuf option" where
  "winbuf_put d w =
     (if wb_datasize w \<le> length d
      then winbuf_put_raw (take (wb_datasize w) d @ enc32 (wb_tuple_id w)) w else None)"

definition winbuf_put_key :: "string \<Rightarrow> string \<Rightarrow> 32 word \<Rightarrow> winbuf \<Rightarrow> winbuf option" where
  "winbuf_put_key d gbkey i w =
     (if wb_datasize w \<le> length d \<and> wb_keysize w \<le> length gbkey
      then winbuf_put_raw (take (wb_datasize w) d @ enc32 (wb_tuple_id w) @
             take (wb_keysize w) gbkey @ enc32 i) w
      else None)"

definition winbuf_get_first :: "winbuf \<Rightarrow> (int \<times> string option \<times> winbuf) option" where
  "winbuf_get_first w =
     (case im_rel_cursor_get C_FIRST (wb_rel w) (wb_temp w) of
        None \<Rightarrow> None
      | Some (rc, d, cur) \<Rightarrow> Some (rc, d, w\<lparr> wb_temp := cur \<rparr>))"

definition winbuf_pop :: "winbuf \<Rightarrow> (int \<times> winbuf) option" where
  "winbuf_pop w =
     (case winbuf_get_first w of
        None \<Rightarrow> None
      | Some (rc, d, w1) \<Rightarrow>
          if rc = 0
          then (case im_rel_cursor_del (wb_rel w1) (wb_temp w1) of
                  (rc', r', cur) \<Rightarrow> Some (rc', w1\<lparr> wb_rel := r', wb_temp := cur, wb_n := wb_n w1 - 1 \<rparr>))
          else Some (rc, w1))"

definition winbuf_empty :: "winbuf \<Rightarrow> (int \<times> winbuf) option" where
  "winbuf_empty w =
     (case winbuf_get_first w of
        None \<Rightarrow> None
      | Some (rc, d, w1) \<Rightarrow> Some (if rc = DB_NOTFOUND then 1 else 0, w1))"

text \<open>The counter value stored behind the data of a tuple.\<close>

definition stored_id :: "winbuf \<Rightarrow> string \<Rightarrow> 32 word" where
  "stored_id w d = dec32 (take 4 (drop (wb_datasize w) d))"

definition winbuf_getExpired :: "winbuf \<Rightarrow> (int \<times> string option \<times> winbuf) option" where
  "winbuf_getExpired w =
     (case winbuf_get_first w of
        None \<Rightarrow> None
      | Some (rc, None, w1) \<Rightarrow> Some (rc, None, w1)
      | Some (rc, Some d, w1) \<Rightarrow>
          (let t = stored_id w d; id = wb_tuple_id w in
           if id < wb_size w
           then Some (if t \<le> UINT_MAX - wb_size w + id \<and> t > id then 0 else DB_NOTFOUND, Some d, w1)
           else Some (if t \<le> id - wb_size w \<or> t > id then 0 else DB_NOTFOUND, Some d, w1)))"

definition winbuf_hasExpired :: "winbuf \<Rightarrow> (bool \<times> winbuf) option" where
  "winbuf_hasExpired w = map_option (\<lambda>(rc, d, w1). (rc = 0, w1)) (winbuf_getExpired w)"

text \<open>\<open>memcpy(&val, data, sizeof(int))\<close>\<close>

definition head_int :: "string \<Rightarrow> int" where
  "head_int d = sint (dec32 (take 4 d))"

definition winbuf_getHeadInt :: "winbuf \<Rightarrow> (int \<times> winbuf) option" where
  "winbuf_getHeadInt w =
     (case winbuf_get_first w of
        None \<Rightarrow> None
      | Some (rc, d, w1) \<Rightarrow>
          if rc \<noteq> 0 then Some (rc, w1) else Some (case d of None \<Rightarrow> 0 | Some d \<Rightarrow> head_int d, w1))"

definition winbuf_delete :: "nat \<Rightarrow> (int \<Rightarrow> bool) \<Rightarrow> winbuf \<Rightarrow> winbuf outcome" where
  "winbuf_delete fuel bad w =
     (case delete_scan fuel (\<lambda>d. bad (head_int d)) True (wb_rel w) (wb_temp w) of
        Ret (r', cur) \<Rightarrow> Ret (w\<lparr> wb_rel := r', wb_temp := cur \<rparr>)
      | Crash \<Rightarrow> Crash
      | NoFuel \<Rightarrow> NoFuel)"

definition winbuf_deleteGreaterInt :: "nat \<Rightarrow> int \<Rightarrow> winbuf \<Rightarrow> winbuf outcome" where
  "winbuf_deleteGreaterInt fuel testVal = winbuf_delete fuel (\<lambda>val. val > testVal)"

definition winbuf_deleteLesserInt :: "nat \<Rightarrow> int \<Rightarrow> winbuf \<Rightarrow> winbuf outcome" where
  "winbuf_deleteLesserInt fuel testVal = winbuf_delete fuel (\<lambda>val. val < testVal)"

text \<open>What \<open>print\<close> shows: the counter values of the tuples, in their order.\<close>

definition winbuf_print :: "nat \<Rightarrow> winbuf \<Rightarrow> 32 word list outcome" where
  "winbuf_print fuel w =
     (case print_scan fuel True (wb_rel w) (wb_temp w) of
        Ret ds \<Rightarrow> Ret (map (stored_id w) ds)
      | Crash \<Rightarrow> Crash
      | NoFuel \<Rightarrow> NoFuel)"

definition winbuf_resetTS :: "timestamp \<Rightarrow> winbuf \<Rightarrow> winbuf" where
  "winbuf_resetTS ts w = w\<lparr> wb_first_ts := Some ts \<rparr>"

definition winbuf_getTimestamp :: "winbuf \<Rightarrow> timestamp option" where
  "winbuf_getTimestamp w =
     (case wb_first_ts w of
        None \<Rightarrow> None
      | Some f \<Rightarrow>
          (let microsecsInTho = uint (wb_tuple_id w) mod 1000;
               microsecs = tv_usec f + 1000 * microsecsInTho;
               secs = (uint (wb_tuple_id w) - microsecsInTho) div 1000
           in if microsecs \<ge> 1000000
              then Some (Timestamp (tv_sec f + secs + 1) (microsecs - 1000000))
              else Some (Timestamp (tv_sec f + secs) microsecs)))"

text \<open>
  \<open>updateTupleID\<close>: \<open>now\<close> is what \<open>gettimeofday\<close> returns, \<open>to_ms\<close> the difference of two times
  in milliseconds, computed with \<open>double\<close> values.
\<close>

definition winbuf_updateTupleID ::
    "timestamp \<Rightarrow> (timestamp \<Rightarrow> timestamp \<Rightarrow> 32 word) \<Rightarrow> timestamp option \<Rightarrow> winbuf \<Rightarrow> winbuf option" where
  "winbuf_updateTupleID now to_ms ts w =
     (case ts of
        Some ts0 \<Rightarrow>
          (let ts = (if tv_sec ts0 = 0 then now else ts0);
               w1 = (if wb_first w then winbuf_resetTS ts (w\<lparr> wb_first := False \<rparr>) else w)
           in do { f \<leftarrow> wb_first_ts w1; Some (w1\<lparr> wb_tuple_id := to_ms ts f \<rparr>) })
      | None \<Rightarrow> Some (w\<lparr> wb_tuple_id := wb_tuple_id w + 1 \<rparr>))"

section \<open>The emitted code\<close>

datatype builtin = AGGR_BUILTIN_SUM | AGGR_BUILTIN_COUNT | AGGR_BUILTIN_MIN | AGGR_BUILTIN_MAX

text \<open>The part common to both routines: the counter and the tuple. \<open>windata\<close> is the argument.\<close>

definition aggr_arrive :: "32 word \<Rightarrow> winbuf \<Rightarrow> winbuf option" where
  "aggr_arrive v w = do {
     w1 \<leftarrow> winbuf_updateTupleID (Timestamp 0 0) (\<lambda>_ _. 0) None w;
     winbuf_put (enc32 v) w1
   }"

definition aggr_init :: "builtin \<Rightarrow> 32 word \<Rightarrow> winbuf \<Rightarrow> (32 word \<times> winbuf) option" where
  "aggr_init b v w = do {
     w1 \<leftarrow> aggr_arrive v w;
     Some (if b = AGGR_BUILTIN_COUNT then 1 else v, w1)
   }"

text \<open>The value when a tuple expires: \<open>SUM\<close> and \<open>COUNT\<close> subtract, the others just pop.\<close>

fun aggr_subtract :: "builtin \<Rightarrow> 32 word \<Rightarrow> 32 word \<Rightarrow> 32 word" where
  "aggr_subtract AGGR_BUILTIN_SUM x e = x - e"
| "aggr_subtract AGGR_BUILTIN_COUNT x e = x - 1"
| "aggr_subtract AGGR_BUILTIN_MIN x e = x"
| "aggr_subtract AGGR_BUILTIN_MAX x e = x"

text \<open>\<open>while (win->hasExpired()) { win->getExpired(&windata); ...; win->pop(); }\<close>\<close>

fun aggr_expire :: "nat \<Rightarrow> builtin \<Rightarrow> 32 word \<Rightarrow> winbuf \<Rightarrow> (32 word \<times> winbuf) outcome" where
  "aggr_expire 0 b x w = NoFuel"
| "aggr_expire (Suc n) b x w =
     (case winbuf_hasExpired w of
        None \<Rightarrow> Crash
      | Some (expired, w1) \<Rightarrow>
          if \<not> expired then Ret (x, w1)
          else (case winbuf_getExpired w1 of
                  Some (rc, Some d, w2) \<Rightarrow>
                    (case winbuf_pop w2 of
                       None \<Rightarrow> Crash
                     | Some (rc', w3) \<Rightarrow> aggr_expire n b (aggr_subtract b x (dec32 (take 4 d))) w3)
                | _ \<Rightarrow> Crash))"

fun aggr_update :: "nat \<Rightarrow> builtin \<Rightarrow> 32 word \<Rightarrow> 32 word \<Rightarrow> winbuf \<Rightarrow> (32 word \<times> winbuf) outcome" where
  "aggr_update n AGGR_BUILTIN_SUM v x w = Ret (x + v, w)"
| "aggr_update n AGGR_BUILTIN_COUNT v x w = Ret (x + 1, w)"
| "aggr_update n AGGR_BUILTIN_MIN v x w =
     (case winbuf_deleteGreaterInt n (sint v) w of
        Ret w1 \<Rightarrow> (case winbuf_getHeadInt w1 of
                     None \<Rightarrow> Crash
                   | Some (y, w2) \<Rightarrow> Ret (word_of_int y, w2))
      | Crash \<Rightarrow> Crash
      | NoFuel \<Rightarrow> NoFuel)"
| "aggr_update n AGGR_BUILTIN_MAX v x w =
     (case winbuf_deleteLesserInt n (sint v) w of
        Ret w1 \<Rightarrow> (case winbuf_getHeadInt w1 of
                     None \<Rightarrow> Crash
                   | Some (y, w2) \<Rightarrow> Ret (word_of_int y, w2))
      | Crash \<Rightarrow> Crash
      | NoFuel \<Rightarrow> NoFuel)"

definition aggr_iterate :: "nat \<Rightarrow> builtin \<Rightarrow> 32 word \<Rightarrow> 32 word \<times> winbuf \<Rightarrow> (32 word \<times> winbuf) outcome" where
  "aggr_iterate n b v xw =
     (case aggr_arrive v (snd xw) of
        None \<Rightarrow> Crash
      | Some w1 \<Rightarrow>
          (case aggr_expire n b (fst xw) w1 of
             Ret (x, w2) \<Rightarrow> aggr_update n b v x w2
           | Crash \<Rightarrow> Crash
           | NoFuel \<Rightarrow> NoFuel))"

text \<open>A whole stream of one group: the first tuple goes to INIT, the others to ITERATE.\<close>

fun aggr_steps :: "nat \<Rightarrow> builtin \<Rightarrow> 32 word list \<Rightarrow> 32 word \<times> winbuf \<Rightarrow> (32 word \<times> winbuf) outcome" where
  "aggr_steps n b [] xw = Ret xw"
| "aggr_steps n b (v # vs) xw =
     (case aggr_iterate n b v xw of
        Ret xw' \<Rightarrow> aggr_steps n b vs xw'
      | Crash \<Rightarrow> Crash
      | NoFuel \<Rightarrow> NoFuel)"

definition aggr_run :: "nat \<Rightarrow> builtin \<Rightarrow> 32 word \<Rightarrow> 32 word \<Rightarrow> 32 word list \<Rightarrow> (32 word \<times> winbuf) outcome" where
  "aggr_run n b winsize v vs =
     (case aggr_init b v (winbuf_init winsize 4 0 ADL_WIN_ROW) of
        None \<Rightarrow> Crash
      | Some xw \<Rightarrow> aggr_steps n b vs xw)"

section \<open>The tuples of a window\<close>

text \<open>A stored tuple: the argument of the aggregate and the counter value.\<close>

definition enc_tuple :: "nat \<times> 32 word \<Rightarrow> string" where
  "enc_tuple p = enc32 (snd p) @ enc32 (of_nat (fst p))"

definition held :: "winbuf \<Rightarrow> (nat \<times> 32 word) list \<Rightarrow> bool" where
  "held w ts \<longleftrightarrow> wb_datasize w = 4 \<and> r_item (wb_rel w) \<in> {None, Some 8} \<and>
     (\<exists>xs. ring (wb_rel w) xs \<and> map (r_data (wb_rel w)) xs = map enc_tuple ts)"

lemma enc_tuple_simps [simp]:
  "length (enc_tuple p) = 8"
  "dec32 (take 4 (enc_tuple p)) = snd p"
  "head_int (enc_tuple p) = sint (snd p)"
  "wb_datasize w = 4 \<Longrightarrow> stored_id w (enc_tuple p) = of_nat (fst p)"
  by (simp_all add: enc_tuple_def head_int_def stored_id_def)

lemma held_temp [simp]: "held (w\<lparr> wb_temp := c \<rparr>) ts = held w ts"
  "held (w\<lparr> wb_tuple_id := i \<rparr>) ts = held w ts" "held (w\<lparr> wb_n := j \<rparr>) ts = held w ts"
  by (simp_all add: held_def)

lemma held_fits:
  assumes "map (r_data r) xs = map enc_tuple ts"
  shows "fits r xs"
  unfolding fits_def
proof
  fix x assume "x \<in> set xs"
  then have "r_data r x \<in> set (map enc_tuple ts)" using assms by (metis image_eqI list.set_map)
  then show "length (r_data r x) + 4 \<le> 1024" by auto
qed

lemma held_init: "held (winbuf_init s 4 k ty) []"
  using ring_create by (auto simp: held_def winbuf_init_def im_rel_create_def)

lemma held_first_Nil:
  assumes "held w []"
  shows "winbuf_get_first w = Some (DB_NOTFOUND, None, w)"
proof -
  have "ring (wb_rel w) []" using assms by (auto simp: held_def)
  from get_first [OF this, of "wb_temp w"] show ?thesis
    by (simp add: winbuf_get_first_def fits_def)
qed

lemma held_first_Cons:
  assumes "held w (p # ts)"
  obtains x xs where "winbuf_get_first w = Some (0, Some (enc_tuple p), w\<lparr> wb_temp := Some x \<rparr>)"
    and "ring (wb_rel w) (x # xs)" and "map (r_data (wb_rel w)) xs = map enc_tuple ts"
proof -
  obtain ys where ys: "ring (wb_rel w) ys" "map (r_data (wb_rel w)) ys = map enc_tuple (p # ts)"
    using assms by (auto simp: held_def)
  then obtain x xs where x: "ys = x # xs" "r_data (wb_rel w) x = enc_tuple p"
    "map (r_data (wb_rel w)) xs = map enc_tuple ts" by auto
  have "winbuf_get_first w = Some (0, Some (enc_tuple p), w\<lparr> wb_temp := Some x \<rparr>)"
    using get_first [OF ys(1) held_fits [OF ys(2)], of "wb_temp w"] x
    by (simp add: winbuf_get_first_def)
  then show ?thesis using that ys(1) x by blast
qed

lemma held_put:
  assumes "held w ts" and "wb_tuple_id w = of_nat k"
  shows "\<exists>r. winbuf_put (enc32 v) w = Some (w\<lparr> wb_rel := r \<rparr>) \<and> held (w\<lparr> wb_rel := r \<rparr>) (ts @ [(k, v)])"
proof -
  obtain xs where xs: "ring (wb_rel w) xs" "map (r_data (wb_rel w)) xs = map enc_tuple ts"
    and sz: "wb_datasize w = 4" and item: "r_item (wb_rel w) = None \<or> r_item (wb_rel w) = Some 8"
    using assms(1) by (auto simp: held_def)
  let ?d = "enc32 v @ enc32 (of_nat k)"
  obtain a r where a: "im_rel_put ?d (wb_rel w) = Some r" "a \<notin> set xs" "ring r (xs @ [a])"
    "r_data r = (r_data (wb_rel w))(a := ?d)" "r_item r = Some 8"
    using put_ring [OF xs(1) item, of ?d] by auto
  have "map (r_data r) (xs @ [a]) = map enc_tuple (ts @ [(k, v)])"
    using a(2) xs(2) by (simp add: a(4) enc_tuple_def)
  then have "held (w\<lparr> wb_rel := r \<rparr>) (ts @ [(k, v)])"
    using a(3,5) sz by (auto simp: held_def)
  then show ?thesis
    using sz assms(2) a(1) by (auto simp: winbuf_put_def winbuf_put_raw_def)
qed

lemma held_pop:
  assumes "held w (p # ts)"
  shows "\<exists>w'. winbuf_pop w = Some (0, w') \<and> held w' ts \<and> wb_tuple_id w' = wb_tuple_id w \<and> wb_size w' = wb_size w"
proof -
  obtain x xs where c: "winbuf_get_first w = Some (0, Some (enc_tuple p), w\<lparr> wb_temp := Some x \<rparr>)"
    and x: "ring (wb_rel w) (x # xs)" "map (r_data (wb_rel w)) xs = map enc_tuple ts"
    by (rule held_first_Cons [OF assms])
  have rg: "ring (wb_rel w) ([] @ x # xs)" using x(1) by simp
  obtain r' cur where r': "im_rel_cursor_del (wb_rel w) (Some x) = (0, r', cur)"
    "ring r' ([] @ xs)" "r_data r' = r_data (wb_rel w)"
    using cursor_del_ring [OF rg] by metis
  have "wb_datasize w = 4" "r_item r' \<in> {None, Some 8}"
    using assms cursor_del_item [OF r'(1)] by (simp_all add: held_def)
  then have "held (w\<lparr> wb_rel := r' \<rparr>) ts" using r'(2,3) x(2) by (auto simp: held_def)
  then show ?thesis
    using c r'(1) by (auto simp: winbuf_pop_def held_def)
qed

lemma held_delete:
  assumes "held w ts" and "length ts < n"
  shows "\<exists>w'. winbuf_delete n bad w = Ret w' \<and> held w' (filter (\<lambda>p. \<not> bad (sint (snd p))) ts) \<and>
     wb_tuple_id w' = wb_tuple_id w \<and> wb_size w' = wb_size w"
proof -
  obtain xs where xs: "ring (wb_rel w) xs" "map (r_data (wb_rel w)) xs = map enc_tuple ts"
    and sz: "wb_datasize w = 4" and item: "r_item (wb_rel w) \<in> {None, Some 8}"
    using assms(1) by (auto simp: held_def)
  have len: "length xs < n" using assms(2) arg_cong [OF xs(2), of length] by simp
  obtain r' cur' where r': "delete_scan n (\<lambda>d. bad (head_int d)) True (wb_rel w) (wb_temp w) = Ret (r', cur')"
    "ring r' (filter (\<lambda>a. \<not> bad (head_int (r_data (wb_rel w) a))) xs)" "r_data r' = r_data (wb_rel w)"
    using delete_scan_filter [OF xs(1) held_fits [OF xs(2)] len] by blast
  have "map (r_data (wb_rel w)) (filter (\<lambda>a. \<not> bad (head_int (r_data (wb_rel w) a))) xs) =
      filter (\<lambda>d. \<not> bad (head_int d)) (map (r_data (wb_rel w)) xs)"
    by (simp add: filter_map comp_def)
  also have "\<dots> = map enc_tuple (filter (\<lambda>p. \<not> bad (sint (snd p))) ts)"
    by (simp add: xs(2) filter_map comp_def)
  finally show ?thesis
    using r' sz item delete_scan_item [OF r'(1)] by (auto simp: winbuf_delete_def held_def)
qed

lemma held_head_int:
  assumes "held w (p # ts)"
  shows "\<exists>c. winbuf_getHeadInt w = Some (sint (snd p), w\<lparr> wb_temp := c \<rparr>)"
proof -
  obtain c where "winbuf_get_first w = Some (0, Some (enc_tuple p), w\<lparr> wb_temp := c \<rparr>)"
    using held_first_Cons [OF assms] by blast
  then show ?thesis by (auto simp: winbuf_getHeadInt_def)
qed

section \<open>Expiry\<close>

definition expired :: "32 word \<Rightarrow> nat \<Rightarrow> nat \<times> 32 word \<Rightarrow> bool" where
  "expired s k p \<longleftrightarrow> fst p + unat s \<le> k"

text \<open>As long as the counter has not wrapped, the test of \<open>getExpired\<close> is on the age.\<close>

lemma expiry_test:
  fixes s :: "32 word"
  assumes "t \<le> k" and "k < 2 ^ 32" and "0 < s"
  shows "(if of_nat k < s then of_nat t \<le> UINT_MAX - s + of_nat k \<and> (of_nat t :: 32 word) > of_nat k
          else of_nat t \<le> of_nat k - s \<or> (of_nat t :: 32 word) > of_nat k) \<longleftrightarrow> t + unat s \<le> k"
proof -
  have u: "unat (of_nat k :: 32 word) = k" "unat (of_nat t :: 32 word) = t"
    using assms by (simp_all add: unsigned_of_nat take_bit_nat_eq_self)
  have tk: "(of_nat t :: 32 word) \<le> of_nat k" using assms(1) u by (simp add: word_le_nat_alt)
  have age: "unat (of_nat k - of_nat t :: 32 word) = k - t"
    using tk u by (simp add: unat_sub)
  show ?thesis
  proof (cases "of_nat k < s")
    case True
    then have "k < unat s" using u by (simp add: word_less_nat_alt)
    then show ?thesis
      using True tk by (auto simp: not_less [symmetric])
  next
    case False
    then have "s \<le> of_nat k" by simp
    from expired_reached [OF this, of "of_nat t"] show ?thesis
      using False age assms(1) by (auto simp: word_le_nat_alt)
  qed
qed

lemma held_expired:
  assumes "held w (p # ts)" and "wb_tuple_id w = of_nat k" and "fst p \<le> k" and "k < 2 ^ 32" and "0 < wb_size w"
  shows "\<exists>c. winbuf_getExpired w =
     Some (if expired (wb_size w) k p then 0 else DB_NOTFOUND, Some (enc_tuple p), w\<lparr> wb_temp := c \<rparr>)"
proof -
  obtain c where c: "winbuf_get_first w = Some (0, Some (enc_tuple p), w\<lparr> wb_temp := c \<rparr>)"
    using held_first_Cons [OF assms(1)] by blast
  have "wb_datasize w = 4" using assms(1) by (simp add: held_def)
  then show ?thesis
    using c expiry_test [OF assms(3-5)] assms(2)
    by (cases "of_nat k < wb_size w") (auto simp: winbuf_getExpired_def expired_def Let_def)
qed

lemma expire_loop:
  assumes "held w ts" and "wb_tuple_id w = of_nat k" and "\<forall>p\<in>set ts. fst p \<le> k" and "k < 2 ^ 32"
    and "0 < wb_size w" and "length ts < n"
  shows "\<exists>w'. aggr_expire n b x w =
       Ret (foldl (\<lambda>x p. aggr_subtract b x (snd p)) x (takeWhile (expired (wb_size w) k) ts), w') \<and>
     held w' (dropWhile (expired (wb_size w) k) ts) \<and> wb_tuple_id w' = wb_tuple_id w \<and>
     wb_size w' = wb_size w"
  using assms
proof (induction ts arbitrary: n x w)
  case Nil
  obtain m where n: "n = Suc m" using Nil.prems(6) by (cases n) auto
  show ?case
    using held_first_Nil [OF Nil.prems(1)] n Nil.prems(1) not_found_code by (simp add: winbuf_hasExpired_def winbuf_getExpired_def)
next
  case (Cons p ts)
  obtain m where n: "n = Suc m" "length ts < m" using Cons.prems(6) by (cases n) auto
  have le: "fst p \<le> k" "\<forall>q\<in>set ts. fst q \<le> k" using Cons.prems(3) by auto
  obtain c where c: "winbuf_getExpired w =
      Some (if expired (wb_size w) k p then 0 else DB_NOTFOUND, Some (enc_tuple p), w\<lparr> wb_temp := c \<rparr>)"
    using held_expired [OF Cons.prems(1,2) le(1) Cons.prems(4,5)] by blast
  let ?w = "w\<lparr> wb_temp := c \<rparr>"
  show ?case
  proof (cases "expired (wb_size w) k p")
    case False
    then show ?thesis
      using c n Cons.prems(1) not_found_code by (simp add: winbuf_hasExpired_def)
  next
    case True
    have hw: "held ?w (p # ts)" using Cons.prems(1) by simp
    obtain c' where c': "winbuf_getExpired ?w = Some (0, Some (enc_tuple p), ?w\<lparr> wb_temp := c' \<rparr>)"
      using held_expired [OF hw, of k] Cons.prems(2,4,5) le(1) True by auto
    have "held (?w\<lparr> wb_temp := c' \<rparr>) (p # ts)" using hw by simp
    from held_pop [OF this] obtain w' where w': "winbuf_pop (?w\<lparr> wb_temp := c' \<rparr>) = Some (0, w')"
      "held w' ts" "wb_tuple_id w' = wb_tuple_id w" "wb_size w' = wb_size w" by auto
    from Cons.IH [OF w'(2) _ le(2) Cons.prems(4) _ n(2), of "aggr_subtract b x (snd p)"]
    show ?thesis
      using True c c' w' n(1) Cons.prems(2,5) by (simp add: winbuf_hasExpired_def)
  qed
qed

section \<open>Streams\<close>

text \<open>The tuples that have arrived, with their counter values, and those in the window.\<close>

definition arrivals :: "32 word list \<Rightarrow> (nat \<times> 32 word) list" where
  "arrivals vs = zip [1..<Suc (length vs)] vs"

definition in_window :: "32 word \<Rightarrow> 32 word list \<Rightarrow> (nat \<times> 32 word) list" where
  "in_window s vs = drop (length vs - unat s) (arrivals vs)"

lemma arrivals_nth: "i < length vs \<Longrightarrow> arrivals vs ! i = (Suc i, vs ! i)"
  by (simp add: arrivals_def del: upt_Suc)

lemma length_arrivals [simp]: "length (arrivals vs) = length vs"
  by (simp add: arrivals_def del: upt_Suc)

lemma arrivals_snoc: "arrivals (vs @ [v]) = arrivals vs @ [(Suc (length vs), v)]"
  by (rule nth_equalityI) (auto simp: arrivals_nth nth_append less_Suc_eq)

lemma in_window_values: "map snd (in_window s vs) = drop (length vs - unat s) vs"
  by (simp add: in_window_def arrivals_def drop_map [symmetric] del: upt_Suc)

lemma in_window_ids:
  assumes "p \<in> set (in_window s vs)"
  shows "fst p \<le> length vs"
proof -
  have "p \<in> set (arrivals vs)" using assms by (auto simp: in_window_def dest: in_set_dropD)
  then show ?thesis by (auto simp: in_set_conv_nth arrivals_nth)
qed

text \<open>In a list with growing counter values the expired tuples come first.\<close>

lemma dropWhile_expired:
  "sorted_wrt (\<lambda>p q. fst p < fst q) ts \<Longrightarrow>
   dropWhile (expired s k) ts = filter (\<lambda>p. \<not> expired s k p) ts"
proof (induction ts)
  case Nil
  show ?case by simp
next
  case (Cons p ts)
  show ?case
  proof (cases "expired s k p")
    case True
    then show ?thesis using Cons by simp
  next
    case False
    then have "\<forall>q\<in>set ts. \<not> expired s k q" using Cons.prems by (auto simp: expired_def)
    then show ?thesis using False by (simp add: filter_id_conv)
  qed
qed

lemma arrivals_sorted: "sorted_wrt (\<lambda>p q. fst p < fst q) (arrivals vs)"
  by (simp add: sorted_wrt_iff_nth_less arrivals_nth)

lemma in_window_sorted: "sorted_wrt (\<lambda>p q. fst p < fst q) (in_window s vs)"
  unfolding in_window_def by (rule sorted_wrt_drop [OF arrivals_sorted])

lemma in_window_step:
  "in_window s (vs @ [v]) =
     dropWhile (expired s (Suc (length vs))) (in_window s vs @ [(Suc (length vs), v)])"
proof -
  let ?k = "length vs" and ?a = "arrivals (vs @ [v])"
  have split: "in_window s vs @ [(Suc ?k, v)] = drop (?k - unat s) ?a"
    by (simp add: in_window_def arrivals_snoc)
  have "dropWhile (expired s (Suc ?k)) (drop (?k - unat s) ?a) = drop (Suc ?k - unat s) ?a"
  proof (cases "unat s \<le> ?k")
    case False
    then show ?thesis
      by (cases "Suc ?k - unat s") (auto simp: arrivals_snoc dropWhile_eq_self_iff expired_def arrivals_def hd_append hd_zip
          split: if_splits simp del: upt_Suc)
  next
    case True
    let ?i = "?k - unat s"
    have i: "?i < length ?a" "Suc ?k - unat s = Suc ?i" using True by auto
    have "drop ?i ?a = ?a ! ?i # drop (Suc ?i) ?a" by (rule Cons_nth_drop_Suc [symmetric, OF i(1)])
    moreover have "expired s (Suc ?k) (?a ! ?i)"
      using i True by (simp add: arrivals_nth expired_def)
    moreover have "dropWhile (expired s (Suc ?k)) (drop (Suc ?i) ?a) = drop (Suc ?i) ?a"
    proof (cases "Suc ?i < length ?a")
      case False
      then show ?thesis by simp
    next
      case True
      then have "hd (drop (Suc ?i) ?a) = ?a ! Suc ?i" by (simp add: hd_drop_conv_nth)
      then have "\<not> expired s (Suc ?k) (hd (drop (Suc ?i) ?a))"
        using True by (simp add: arrivals_nth expired_def)
      then show ?thesis by (simp add: dropWhile_eq_self_iff)
    qed
    ultimately show ?thesis using i(2) by simp
  qed
  then show ?thesis unfolding split by (simp add: in_window_def)
qed

section \<open>Sums and counts\<close>

fun additive :: "builtin \<Rightarrow> 32 word list \<Rightarrow> 32 word" where
  "additive AGGR_BUILTIN_COUNT ws = of_nat (length ws)"
| "additive b ws = sum_list ws"

lemma additive_append:
  "additive b (us @ ws) = additive b us + additive b ws"
  by (cases b) simp_all

lemma subtract_all:
  assumes "b \<in> {AGGR_BUILTIN_SUM, AGGR_BUILTIN_COUNT}"
  shows "foldl (\<lambda>x p. aggr_subtract b x (snd p)) x ts = x - additive b (map snd ts)"
  using assms by (induction ts arbitrary: x) auto

lemma add_one:
  assumes "b \<in> {AGGR_BUILTIN_SUM, AGGR_BUILTIN_COUNT}"
  shows "aggr_update n b v x w = Ret (x + additive b [v], w)"
  using assms by auto

section \<open>Extremes\<close>

text \<open>\<open>MIN\<close> and \<open>MAX\<close> are one, up to the sign of the values compared.\<close>

fun sgn_of :: "builtin \<Rightarrow> int \<Rightarrow> int" where
  "sgn_of AGGR_BUILTIN_MAX z = - z"
| "sgn_of b z = z"

lemma update_extreme:
  assumes "b \<in> {AGGR_BUILTIN_MIN, AGGR_BUILTIN_MAX}"
  shows "aggr_update n b v x w =
     (case winbuf_delete n (\<lambda>val. sgn_of b val > sgn_of b (sint v)) w of
        Ret w1 \<Rightarrow> (case winbuf_getHeadInt w1 of
                     None \<Rightarrow> Crash
                   | Some (y, w2) \<Rightarrow> Ret (word_of_int y, w2))
      | Crash \<Rightarrow> Crash
      | NoFuel \<Rightarrow> NoFuel)"
  using assms by (auto simp: winbuf_deleteGreaterInt_def winbuf_deleteLesserInt_def)

definition rank_of :: "builtin \<Rightarrow> nat \<times> 32 word \<Rightarrow> int" where
  "rank_of b p = sgn_of b (sint (snd p))"

text \<open>
  What is left of the tuples \<open>W\<close> of a window: a part of them, both counters and ranks ascending,
  such that every tuple of the window has a later one, or itself, that is at least as good.
\<close>

definition candidates :: "builtin \<Rightarrow> (nat \<times> 32 word) list \<Rightarrow> (nat \<times> 32 word) list \<Rightarrow> bool" where
  "candidates b ts W \<longleftrightarrow>
     sorted_wrt (\<lambda>p q. fst p < fst q \<and> rank_of b p \<le> rank_of b q) ts \<and> set ts \<subseteq> set W \<and>
     (\<forall>p\<in>set W. \<exists>q\<in>set ts. fst p \<le> fst q \<and> rank_of b q \<le> rank_of b p)"

lemma candidates_head:
  assumes "candidates b ts W" and "W \<noteq> []"
  shows "ts \<noteq> []" and "hd ts \<in> set W" and "\<forall>p\<in>set W. rank_of b (hd ts) \<le> rank_of b p"
proof -
  obtain w0 where "w0 \<in> set W" using assms(2) by (cases W) auto
  then have "\<exists>q. q \<in> set ts" using assms(1) unfolding candidates_def by blast
  then show ne: "ts \<noteq> []" by auto
  then show "hd ts \<in> set W" using assms(1) by (auto simp: candidates_def)
  have "rank_of b (hd ts) \<le> rank_of b q" if "q \<in> set ts" for q
    using assms(1) that ne by (cases ts) (auto simp: candidates_def)
  then show "\<forall>p\<in>set W. rank_of b (hd ts) \<le> rank_of b p"
    using assms(1) by (fastforce simp: candidates_def)
qed

lemma candidates_sorted: "candidates b ts W \<Longrightarrow> sorted_wrt (\<lambda>p q. fst p < fst q) ts"
  unfolding candidates_def by (auto elim: sorted_wrt_mono_rel [rotated])

lemma candidates_step:
  assumes c: "candidates b ts W" and old: "\<forall>p\<in>set W. fst p < k" and srt: "sorted_wrt (\<lambda>p q. fst p < fst q) W"
    and live: "\<not> expired s k (k, v)"
  shows "candidates b
     (filter (\<lambda>p. \<not> rank_of b p > rank_of b (k, v)) (dropWhile (expired s k) (ts @ [(k, v)])))
     (dropWhile (expired s k) (W @ [(k, v)]))"
proof -
  let ?p = "(k, v)"
  let ?E = "\<lambda>p. \<not> expired s k p"
  let ?F = "\<lambda>p. \<not> rank_of b p > rank_of b ?p"
  have tsW: "set ts \<subseteq> set W" using c by (simp add: candidates_def)
  have oldt: "\<forall>p\<in>set ts. fst p < k" using old tsW by blast
  have sts: "sorted_wrt (\<lambda>p q. fst p < fst q) (ts @ [?p])"
    using candidates_sorted [OF c] oldt by (auto simp: sorted_wrt_append)
  have sW: "sorted_wrt (\<lambda>p q. fst p < fst q) (W @ [?p])"
    using srt old by (auto simp: sorted_wrt_append)
  have new_ts: "filter ?F (dropWhile (expired s k) (ts @ [?p])) = filter ?F (filter ?E ts) @ [?p]"
    using live by (simp add: dropWhile_expired [OF sts])
  have new_W: "dropWhile (expired s k) (W @ [?p]) = filter ?E W @ [?p]"
    using live by (simp add: dropWhile_expired [OF sW])
  have "sorted_wrt (\<lambda>p q. fst p < fst q \<and> rank_of b p \<le> rank_of b q) (filter ?F (filter ?E ts) @ [?p])"
    using c oldt by (fastforce simp: candidates_def sorted_wrt_append intro: sorted_wrt_filter)
  moreover have "\<exists>q\<in>set (filter ?F (filter ?E ts) @ [?p]). fst p \<le> fst q \<and> rank_of b q \<le> rank_of b p"
    if p: "p \<in> set (filter ?E W @ [?p])" for p
  proof (cases "p = ?p")
    case True
    then show ?thesis by auto
  next
    case False
    then have pW: "p \<in> set W" "?E p" using p by auto
    then obtain q where q: "q \<in> set ts" "fst p \<le> fst q" "rank_of b q \<le> rank_of b p"
      using c by (auto simp: candidates_def)
    have "?E q" using pW(2) q(2) by (simp add: expired_def)
    show ?thesis
    proof (cases "?F q")
      case True
      then show ?thesis using q \<open>?E q\<close> by (intro bexI [of _ q]) auto
    next
      case False
      then show ?thesis using q(3) pW(1) old by force
    qed
  qed
  ultimately show ?thesis
    unfolding new_ts new_W candidates_def using tsW by auto
qed

section \<open>One step of the emitted code\<close>

text \<open>The invariant after the tuples \<open>vs\<close>.\<close>

definition tracks :: "builtin \<Rightarrow> 32 word \<Rightarrow> 32 word list \<Rightarrow> 32 word \<times> winbuf \<Rightarrow> bool" where
  "tracks b s vs xw \<longleftrightarrow>
     wb_tuple_id (snd xw) = of_nat (length vs) \<and> wb_size (snd xw) = s \<and>
     (if b \<in> {AGGR_BUILTIN_SUM, AGGR_BUILTIN_COUNT}
      then held (snd xw) (in_window s vs) \<and> fst xw = additive b (map snd (in_window s vs))
      else (\<exists>ts. held (snd xw) ts \<and> candidates b ts (in_window s vs) \<and> fst xw = snd (hd ts)))"

lemma arrive_held:
  assumes "held w ts" and "wb_tuple_id w = of_nat k"
  shows "\<exists>w'. aggr_arrive v w = Some w' \<and> held w' (ts @ [(Suc k, v)]) \<and>
     wb_tuple_id w' = of_nat (Suc k) \<and> wb_size w' = wb_size w"
proof -
  let ?w = "w\<lparr> wb_tuple_id := wb_tuple_id w + 1 \<rparr>"
  have "held ?w ts" "wb_tuple_id ?w = of_nat (Suc k)" using assms by simp_all
  from held_put [OF this] obtain r where "winbuf_put (enc32 v) ?w = Some (?w\<lparr> wb_rel := r \<rparr>)"
    "held (?w\<lparr> wb_rel := r \<rparr>) (ts @ [(Suc k, v)])" by blast
  then show ?thesis
    using assms(2) by (auto simp: aggr_arrive_def winbuf_updateTupleID_def)
qed

lemma in_window_length: "length (in_window s vs) \<le> unat s"
  by (simp add: in_window_def)

lemma candidates_length:
  assumes "candidates b ts W" and "distinct W"
  shows "length ts \<le> length W"
proof -
  have "distinct ts"
    using candidates_sorted [OF assms(1)] by (induction ts) auto
  then have "length ts = card (set ts)" by (simp add: distinct_card)
  also have "\<dots> \<le> card (set W)" using assms(1) by (intro card_mono) (auto simp: candidates_def)
  also have "\<dots> = length W" using assms(2) by (simp add: distinct_card)
  finally show ?thesis .
qed

lemma in_window_distinct: "distinct (in_window s vs)"
proof -
  have "sorted_wrt (\<lambda>p q. fst p < fst q) ws \<Longrightarrow> distinct ws" for ws :: "(nat \<times> 32 word) list"
    by (induction ws) auto
  then show ?thesis using in_window_sorted by blast
qed

lemma arrive_expire:
  assumes "held w ts" and "wb_tuple_id w = of_nat (length vs)" and "wb_size w = s" and "0 < s"
    and "\<forall>p\<in>set ts. fst p \<le> length vs" and "Suc (length vs) < 2 ^ 32" and "length ts + 1 < n"
  shows "\<exists>w1 w2. aggr_arrive v w = Some w1 \<and>
     aggr_expire n b x w1 =
       Ret (foldl (\<lambda>x p. aggr_subtract b x (snd p)) x
              (takeWhile (expired s (Suc (length vs))) (ts @ [(Suc (length vs), v)])), w2) \<and>
     held w2 (dropWhile (expired s (Suc (length vs))) (ts @ [(Suc (length vs), v)])) \<and>
     wb_tuple_id w2 = of_nat (Suc (length vs)) \<and> wb_size w2 = s"
proof -
  obtain w1 where w1: "aggr_arrive v w = Some w1" "held w1 (ts @ [(Suc (length vs), v)])"
    "wb_tuple_id w1 = of_nat (Suc (length vs))" "wb_size w1 = s"
    using arrive_held [OF assms(1,2)] assms(3) by blast
  have le: "\<forall>p\<in>set (ts @ [(Suc (length vs), v)]). fst p \<le> Suc (length vs)"
    using assms(5) by auto
  have "\<exists>w2. aggr_expire n b x w1 =
       Ret (foldl (\<lambda>x p. aggr_subtract b x (snd p)) x
              (takeWhile (expired (wb_size w1) (Suc (length vs))) (ts @ [(Suc (length vs), v)])), w2) \<and>
     held w2 (dropWhile (expired (wb_size w1) (Suc (length vs))) (ts @ [(Suc (length vs), v)])) \<and>
     wb_tuple_id w2 = wb_tuple_id w1 \<and> wb_size w2 = wb_size w1"
    by (rule expire_loop [OF w1(2,3) le assms(6)]) (use assms(4,7) w1(4) in auto)
  then show ?thesis using w1 by auto
qed

lemma not_expired_now: "0 < s \<Longrightarrow> \<not> expired s k (k, v)"
  by (simp add: expired_def word_less_nat_alt)

lemma iterate_additive:
  assumes b: "b \<in> {AGGR_BUILTIN_SUM, AGGR_BUILTIN_COUNT}" and t: "tracks b s vs xw" and s: "0 < s"
    and k: "Suc (length vs) < 2 ^ 32" and n: "unat s + 1 < n"
  shows "\<exists>xw'. aggr_iterate n b v xw = Ret xw' \<and> tracks b s (vs @ [v]) xw'"
proof -
  let ?k = "Suc (length vs)" and ?W = "in_window s vs"
  let ?ts = "?W @ [(?k, v)]"
  have h: "held (snd xw) ?W" "wb_tuple_id (snd xw) = of_nat (length vs)" "wb_size (snd xw) = s"
    "fst xw = additive b (map snd ?W)"
    using t b by (auto simp: tracks_def)
  have len: "length ?W + 1 < n" using in_window_length [of s vs] n by simp
  obtain w1 w2 where w: "aggr_arrive v (snd xw) = Some w1"
    "aggr_expire n b (fst xw) w1 =
       Ret (foldl (\<lambda>x p. aggr_subtract b x (snd p)) (fst xw) (takeWhile (expired s ?k) ?ts), w2)"
    "held w2 (dropWhile (expired s ?k) ?ts)" "wb_tuple_id w2 = of_nat ?k" "wb_size w2 = s"
    using arrive_expire [OF h(1-3) s _ k len, of v b "fst xw"] in_window_ids by blast
  let ?x = "fst xw - additive b (map snd (takeWhile (expired s ?k) ?ts)) + additive b [v]"
  have "additive b (map snd ?ts) =
      additive b (map snd (takeWhile (expired s ?k) ?ts)) + additive b (map snd (dropWhile (expired s ?k) ?ts))"
    by (metis additive_append map_append takeWhile_dropWhile_id)
  then have x: "?x = additive b (map snd (in_window s (vs @ [v])))"
    using h(4) by (simp add: in_window_step additive_append algebra_simps)
  have "aggr_iterate n b v xw = Ret (?x, w2)"
    using w(1,2) by (simp add: aggr_iterate_def subtract_all [OF b] add_one [OF b])
  then show ?thesis
    using w(3-5) b x by (auto simp: tracks_def in_window_step [of s vs v])
qed

lemma iterate_extreme:
  assumes b: "b \<in> {AGGR_BUILTIN_MIN, AGGR_BUILTIN_MAX}" and t: "tracks b s vs xw" and s: "0 < s"
    and k: "Suc (length vs) < 2 ^ 32" and n: "unat s + 1 < n"
  shows "\<exists>xw'. aggr_iterate n b v xw = Ret xw' \<and> tracks b s (vs @ [v]) xw'"
proof -
  let ?k = "Suc (length vs)" and ?W = "in_window s vs"
  obtain ts where h: "held (snd xw) ts" "wb_tuple_id (snd xw) = of_nat (length vs)" "wb_size (snd xw) = s"
    "candidates b ts ?W"
    using t b by (auto simp: tracks_def)
  have sub: "set ts \<subseteq> set ?W" using h(4) by (simp add: candidates_def)
  have ids: "\<forall>p\<in>set ts. fst p \<le> length vs" using sub in_window_ids by blast
  have tl: "length ts \<le> unat s"
    using candidates_length [OF h(4) in_window_distinct] in_window_length [of s vs] by simp
  let ?u = "dropWhile (expired s ?k) (ts @ [(?k, v)])"
  obtain w1 w2 where w: "aggr_arrive v (snd xw) = Some w1"
    "\<exists>x. aggr_expire n b (fst xw) w1 = Ret (x, w2)" "held w2 ?u" "wb_tuple_id w2 = of_nat ?k" "wb_size w2 = s"
    using arrive_expire [OF h(1-3) s ids k, of n v b "fst xw"] tl n by auto
  let ?bad = "\<lambda>val. sgn_of b val > sgn_of b (sint v)"
  let ?r = "filter (\<lambda>p. \<not> ?bad (sint (snd p))) ?u"
  have "length ?u < n"
    using tl n length_dropWhile_le [of "expired s ?k" "ts @ [(?k, v)]"] by simp
  from held_delete [OF w(3) this, of ?bad] obtain w3 where w3: "winbuf_delete n ?bad w2 = Ret w3"
    "held w3 ?r" "wb_tuple_id w3 = of_nat ?k" "wb_size w3 = s"
    using w(4,5) by auto
  have cand: "candidates b ?r (in_window s (vs @ [v]))"
    using candidates_step [OF h(4) _ in_window_sorted not_expired_now [OF s], of ?k v] in_window_ids
    by (fastforce simp: in_window_step rank_of_def)
  have "in_window s (vs @ [v]) \<noteq> []"
    using not_expired_now [OF s, of ?k v] by (simp add: in_window_step dropWhile_eq_Nil_conv)
  then obtain p ps where r: "?r = p # ps" using candidates_head(1) [OF cand] by (cases ?r) auto
  obtain c where c: "winbuf_getHeadInt w3 = Some (sint (snd p), w3\<lparr> wb_temp := c \<rparr>)"
    using held_head_int [of w3 p ps] w3(2) r by auto
  have "aggr_iterate n b v xw = Ret (snd p, w3\<lparr> wb_temp := c \<rparr>)"
    using w(1,2) w3(1) c by (auto simp: aggr_iterate_def update_extreme [OF b])
  moreover have "tracks b s (vs @ [v]) (snd p, w3\<lparr> wb_temp := c \<rparr>)"
    using w3 b cand r unfolding tracks_def by (auto intro!: exI [of _ ?r])
  ultimately show ?thesis by blast
qed

lemma iterate_tracks:
  assumes "tracks b s vs xw" and "0 < s" and "Suc (length vs) < 2 ^ 32" and "unat s + 1 < n"
  shows "\<exists>xw'. aggr_iterate n b v xw = Ret xw' \<and> tracks b s (vs @ [v]) xw'"
  using iterate_additive [OF _ assms] iterate_extreme [OF _ assms] by (cases b) auto

lemma steps_track:
  assumes "tracks b s us xw" and "0 < s" and "length us + length vs < 2 ^ 32" and "unat s + 1 < n"
  shows "\<exists>xw'. aggr_steps n b vs xw = Ret xw' \<and> tracks b s (us @ vs) xw'"
  using assms(1,3)
proof (induction vs arbitrary: us xw)
  case Nil
  then show ?case by simp
next
  case (Cons v vs)
  obtain xw1 where "aggr_iterate n b v xw = Ret xw1" "tracks b s (us @ [v]) xw1"
    using iterate_tracks [OF Cons.prems(1) assms(2) _ assms(4), of v] Cons.prems(2) by auto
  then show ?case using Cons.IH [of "us @ [v]" xw1] Cons.prems(2) by simp
qed

lemma init_tracks:
  assumes "0 < s"
  shows "\<exists>xw. aggr_init b v (winbuf_init s 4 0 ADL_WIN_ROW) = Some xw \<and> tracks b s [v] xw"
proof -
  let ?w = "winbuf_init s 4 0 ADL_WIN_ROW"
  have w0: "held ?w []" "wb_tuple_id ?w = of_nat 0" "wb_size ?w = s"
    by (rule held_init) (simp_all add: winbuf_init_def)
  obtain w where w: "aggr_arrive v ?w = Some w" "held w [(1, v)]" "wb_tuple_id w = of_nat 1" "wb_size w = s"
    using arrive_held [OF w0(1,2), of v] w0(3) by auto
  have "0 < unat s" using assms by (simp add: word_less_nat_alt)
  then have "in_window s [v] = [(1, v)]"
    by (simp add: in_window_def arrivals_def)
  moreover have "candidates b [(1, v)] [(1, v)]" by (simp add: candidates_def)
  ultimately have "tracks b s [v] (if b = AGGR_BUILTIN_COUNT then 1 else v, w)"
    using w(2-4) by (cases b) (auto simp: tracks_def)
  then show ?thesis using w(1) by (simp add: aggr_init_def)
qed

section \<open>Properties\<close>

text \<open>What an aggregate is of the values in a window, computed from scratch.\<close>

fun aggr_value :: "builtin \<Rightarrow> 32 word list \<Rightarrow> 32 word" where
  "aggr_value AGGR_BUILTIN_SUM ws = sum_list ws"
| "aggr_value AGGR_BUILTIN_COUNT ws = of_nat (length ws)"
| "aggr_value AGGR_BUILTIN_MIN ws = word_of_int (Min (sint ` set ws))"
| "aggr_value AGGR_BUILTIN_MAX ws = word_of_int (Max (sint ` set ws))"

lemma extreme_value:
  assumes b: "b \<in> {AGGR_BUILTIN_MIN, AGGR_BUILTIN_MAX}" and c: "candidates b ts W" and ne: "W \<noteq> []"
  shows "snd (hd ts) = aggr_value b (map snd W)"
proof -
  note h = candidates_head [OF c ne]
  let ?V = "sint ` set (map snd W)"
  have mem: "sint (snd (hd ts)) \<in> ?V" and fin: "finite ?V" using h(2) by auto
  have best: "\<forall>z\<in>?V. sgn_of b (sint (snd (hd ts))) \<le> sgn_of b z"
    using h(3) by (auto simp: rank_of_def)
  show ?thesis
  proof (cases "b = AGGR_BUILTIN_MIN")
    case True
    then have "Min ?V = sint (snd (hd ts))" using mem fin best by (intro Min_eqI) auto
    then show ?thesis using True by simp
  next
    case False
    then have bM: "b = AGGR_BUILTIN_MAX" using b by simp
    then have "Max ?V = sint (snd (hd ts))" using mem fin best by (intro Max_eqI) auto
    then show ?thesis using bM by simp
  qed
qed

lemma tracks_value:
  assumes "tracks b s vs xw" and "0 < s" and "vs \<noteq> []"
  shows "fst xw = aggr_value b (drop (length vs - unat s) vs)"
proof (cases "b \<in> {AGGR_BUILTIN_SUM, AGGR_BUILTIN_COUNT}")
  case True
  then show ?thesis
    using assms(1) by (cases b) (auto simp: tracks_def in_window_values)
next
  case False
  then have b: "b \<in> {AGGR_BUILTIN_MIN, AGGR_BUILTIN_MAX}" by (cases b) auto
  have "0 < unat s" using assms(2) by (simp add: word_less_nat_alt)
  then have "length (in_window s vs) \<noteq> 0" using assms(3) by (cases vs) (simp_all add: in_window_def)
  then have ne: "in_window s vs \<noteq> []" by auto
  obtain ts where "candidates b ts (in_window s vs)" "fst xw = snd (hd ts)"
    using assms(1) False by (auto simp: tracks_def)
  then show ?thesis using extreme_value [OF b _ ne] by (simp add: in_window_values)
qed

text \<open>
  C10: Windowed aggregates are right. For a count window of \<open>s\<close> tuples, as long as the tuple
  counter does not wrap, the code emitted for \<open>SUM\<close>, \<open>COUNT\<close>, \<open>MIN\<close> and \<open>MAX\<close> ends for every stream,
  and the value it maintains is the aggregate of the last \<open>s\<close> values computed from scratch:
  \<open>SUM\<close> and \<open>COUNT\<close> although they only add and subtract, \<open>MIN\<close> and \<open>MAX\<close> although they delete
  from the window every tuple that a later one makes irrelevant.
\<close>

theorem windowed_aggregates:
  assumes "0 < s" and "length (v # vs) < 2 ^ 32" and "unat s + 1 < n"
  shows "\<exists>w. aggr_run n b s v vs = Ret (aggr_value b (drop (length (v # vs) - unat s) (v # vs)), w)"
proof -
  obtain xw where i: "aggr_init b v (winbuf_init s 4 0 ADL_WIN_ROW) = Some xw" "tracks b s [v] xw"
    using init_tracks [OF assms(1)] by blast
  have "length [v] + length vs < 2 ^ 32" using assms(2) by simp
  then obtain xw' where e: "aggr_steps n b vs xw = Ret xw'" "tracks b s ([v] @ vs) xw'"
    using steps_track [OF i(2) assms(1) _ assms(3)] by blast
  have "fst xw' = aggr_value b (drop (length (v # vs) - unat s) (v # vs))"
    using tracks_value [OF e(2) assms(1)] by simp
  then show ?thesis
    using i(1) e(1) by (cases xw') (auto simp: aggr_run_def)
qed

theorem windowed_aggregates_witness:
  "\<exists>w. aggr_run 4 AGGR_BUILTIN_MIN 2 7 [3, 9, 5] = Ret (5, w)"
  using windowed_aggregates [of 2 7 "[3, 9, 5]" 4 AGGR_BUILTIN_MIN] by simp

end
