(* ===== verification/RTree.thy ===== *)
theory RTree
  imports Buffer "HOL-Library.Multiset"
begin

text \<open>
  The R-tree index (\<open>src/adl/rtree\<close>: \<open>rectangle.cc\<close>, \<open>block.cc\<close>, \<open>rtree.cc\<close>).

  \<^item> The index file is a map from block numbers to blocks. A block is a node with its fields decoded
    (\<open>GET_COUNTER\<close> and so on) or a free block, of which only the first bytes, the link, have been
    overwritten. A node always has \<open>MAX_ENTRIES\<close> slots; those behind the counter hold old bytes.
    Block numbers and the pointers made from them are natural numbers; the code keeps them in 32
    bits, so the model is that of index files below 2 GB.
  \<^item> The state is the struct \<open>rtree\<close> together with the static variables of \<open>rtree.cc\<close>: buffers
    that keep what the last operation left in them.
  \<^item> A double is the integer it holds. All doubles of this code are results of subtractions and
    one multiplication on integers; the parameter \<open>fl\<close> is the rounding of such a result.
  \<^item> \<open>None\<close> and \<open>Crash\<close> are \<open>exit\<close>, a block that is not there, or a free block read as a node.
    Loops down the tree take fuel; the number of blocks bounds the height.
\<close>

section \<open>Rectangles\<close>

record Rect =
  x_ul :: int
  y_ul :: int
  x_lr :: int
  y_lr :: int

definition overlap :: "Rect \<Rightarrow> Rect \<Rightarrow> int" where
  "overlap r1 r2 =
     (if x_lr r1 < x_ul r2 \<or> x_lr r2 < x_ul r1 \<or> y_ul r1 < y_lr r2 \<or> y_ul r2 < y_lr r1 then 0 else 1)"

text \<open>\<open>None\<close> is the null pointer.\<close>

definition containedIn :: "Rect option \<Rightarrow> Rect \<Rightarrow> int" where
  "containedIn p r2 =
     (case p of
        None \<Rightarrow> 1
      | Some r1 \<Rightarrow>
          if x_ul r1 = x_ul r2 \<and> y_ul r1 = y_ul r2 \<and> x_lr r1 = x_lr r2 \<and> y_lr r1 = y_lr r2 then 0
          else if x_ul r1 \<ge> x_ul r2 \<and> y_ul r1 \<le> y_ul r2 \<and> x_lr r1 \<le> x_lr r2 \<and> y_lr r1 \<ge> y_lr r2 then 1
          else -1)"

definition area :: "(int \<Rightarrow> int) \<Rightarrow> Rect \<Rightarrow> int" where
  "area fl r = fl (int32 (y_ul r - y_lr r) * int32 (x_lr r - x_ul r))"

definition compose :: "Rect \<Rightarrow> Rect \<Rightarrow> Rect" where
  "compose r1 r2 =
     \<lparr> x_ul = min (x_ul r1) (x_ul r2), y_ul = max (y_ul r1) (y_ul r2),
       x_lr = max (x_lr r1) (x_lr r2), y_lr = min (y_lr r1) (y_lr r2) \<rparr>"

text \<open>The 16 bytes of a rectangle.\<close>

definition rect2mem :: "Rect \<Rightarrow> string" where
  "rect2mem r = enc32 (word_of_int (x_ul r)) @ enc32 (word_of_int (y_ul r)) @
     enc32 (word_of_int (x_lr r)) @ enc32 (word_of_int (y_lr r))"

definition mem2rect :: "string \<Rightarrow> Rect" where
  "mem2rect src =
     \<lparr> x_ul = sint (dec32 (take 4 src)), y_ul = sint (dec32 (take 4 (drop 4 src))),
       x_lr = sint (dec32 (take 4 (drop 8 src))), y_lr = sint (dec32 (take 4 (drop 12 src))) \<rparr>"

section \<open>Nodes and blocks\<close>

definition BLOCKSZ :: nat where
  "BLOCKSZ = 2048"

definition ENTRYSZ :: nat where
  "ENTRYSZ = 21"

definition OVERHEAD :: nat where
  "OVERHEAD = 13"

definition MAX_ENTRIES :: nat where
  "MAX_ENTRIES = (BLOCKSZ - OVERHEAD) div ENTRYSZ"

definition DBL_MAX :: int where
  "DBL_MAX = 10 ^ 37"

definition uint_max :: nat where
  "uint_max = 2 ^ 32 - 1"

record rt_item =
  it_rect :: Rect
  it_ptr :: nat
  it_del :: bool

record rt_node =
  nodetype :: char
  counter :: nat
  nextlptr :: nat
  prevlptr :: nat
  slots :: "rt_item list"

text \<open>A free block: the link and what is behind it.\<close>

datatype rt_block = Node rt_node | Free nat rt_node

record rtree =
  fb_ind :: nat
  tb_ind :: nat
  rt_lptr :: nat
  rt_m :: nat
  rt_M :: nat
  tplsz :: nat
  index :: "nat \<Rightarrow> rt_block option"
  gbuf :: rt_node
  itembuf :: "rt_item list"
  split0 :: rt_node
  split1 :: rt_node
  blkno0 :: nat
  blkno1 :: nat
  coverr0 :: Rect
  coverr1 :: Rect

definition init_rtree :: "rtree \<Rightarrow> rtree" where
  "init_rtree st = st\<lparr> fb_ind := 1, tb_ind := 1, rt_lptr := BLOCKSZ, rt_m := 2, rt_M := MAX_ENTRIES, tplsz := 0 \<rparr>"

definition read_blk :: "nat \<Rightarrow> rtree \<Rightarrow> rt_node option" where
  "read_blk blkno st = (case index st blkno of Some (Node n) \<Rightarrow> Some n | _ \<Rightarrow> None)"

definition write_blk :: "nat \<Rightarrow> rt_node \<Rightarrow> rtree \<Rightarrow> rtree" where
  "write_blk blkno n st = st\<lparr> index := (index st)(blkno \<mapsto> Node n) \<rparr>"

definition read_blk_by_ptr :: "nat \<Rightarrow> rtree \<Rightarrow> rt_node option" where
  "read_blk_by_ptr ptr st = (if ptr mod BLOCKSZ = 0 then read_blk (ptr div BLOCKSZ) st else None)"

definition write_blk_by_ptr :: "nat \<Rightarrow> rt_node \<Rightarrow> rtree \<Rightarrow> rtree option" where
  "write_blk_by_ptr ptr n st =
     (if ptr mod BLOCKSZ = 0 then Some (write_blk (ptr div BLOCKSZ) n st) else None)"

text \<open>The rectangle and the pointer of a slot are written separately from its deletion mark.\<close>

definition set_entry :: "Rect \<Rightarrow> nat \<Rightarrow> rt_item \<Rightarrow> rt_item" where
  "set_entry r p it = it\<lparr> it_rect := r, it_ptr := p \<rparr>"

definition set_slot :: "nat \<Rightarrow> rt_item \<Rightarrow> rt_node \<Rightarrow> rt_node" where
  "set_slot i it n = n\<lparr> slots := (slots n)[i := it] \<rparr>"

definition update_block_entry :: "nat \<Rightarrow> nat \<Rightarrow> Rect \<Rightarrow> nat \<Rightarrow> rtree \<Rightarrow> rtree option" where
  "update_block_entry blkno i mbr ptr st = do {
     n \<leftarrow> read_blk blkno st;
     Some (write_blk blkno (set_slot i (set_entry mbr ptr (slots n ! i)) n) st)
   }"

text \<open>
  Freeing a block. With flag 1 a leaf is taken out of the chain of leaves first; the block then
  keeps its bytes except for the link, which overwrites the first ones.
\<close>

definition unlink_leaf :: "nat \<Rightarrow> rtree \<Rightarrow> rtree option" where
  "unlink_leaf blkno st = do {
     n \<leftarrow> read_blk blkno st;
     if nodetype n \<noteq> CHR ''l'' then Some st
     else do {
       st1 \<leftarrow> (if prevlptr n \<noteq> 0
              then do {
                p \<leftarrow> read_blk_by_ptr (prevlptr n) st;
                write_blk_by_ptr (prevlptr n) (p\<lparr> nextlptr := nextlptr n \<rparr>) st
              }
              else Some (st\<lparr> rt_lptr := if nextlptr n = 0 then BLOCKSZ else nextlptr n \<rparr>));
       if nextlptr n \<noteq> 0
       then do {
         q \<leftarrow> read_blk_by_ptr (nextlptr n) st1;
         write_blk_by_ptr (nextlptr n) (q\<lparr> prevlptr := prevlptr n \<rparr>) st1
       }
       else Some st1
     }
   }"

definition free_block :: "int \<Rightarrow> nat \<Rightarrow> rtree \<Rightarrow> rtree option" where
  "free_block flag blkno st =
     (if blkno = 1 then Some (init_rtree st)
      else do {
        st1 \<leftarrow> (if flag = 1 then unlink_leaf blkno st else Some st);
        (case index st1 blkno of
           Some (Node n) \<Rightarrow> Some (st1\<lparr> index := (index st1)(blkno \<mapsto> Free (fb_ind st1) n), fb_ind := blkno \<rparr>)
         | _ \<Rightarrow> None)
      })"

text \<open>
  A free block is read into the buffer. Its link covers the node type and part of the counter; \<open>gbuf\<close>
  shows them as they were before, and the callers write both before they use them.
\<close>

definition get_newblock :: "rtree \<Rightarrow> (nat \<times> rtree) option" where
  "get_newblock st =
     (if fb_ind st = tb_ind st
      then Some (fb_ind st, st\<lparr> fb_ind := fb_ind st + 1, tb_ind := fb_ind st + 1 \<rparr>)
      else (case index st (fb_ind st) of
              Some (Free link n) \<Rightarrow> Some (fb_ind st, st\<lparr> fb_ind := link, gbuf := n \<rparr>)
            | _ \<Rightarrow> None))"

section \<open>Choosing a leaf\<close>

text \<open>The scan for the least enlargement: the least one so far, and its position.\<close>

fun least_enlarge :: "(int \<Rightarrow> int) \<Rightarrow> Rect \<Rightarrow> rt_item list \<Rightarrow> nat \<Rightarrow> int \<Rightarrow> nat option \<Rightarrow> nat option" where
  "least_enlarge fl mbr [] i least ind = ind"
| "least_enlarge fl mbr (it # its) i least ind =
     (let enlarge = fl (area fl (compose mbr (it_rect it)) - area fl (it_rect it)) in
      if enlarge < least then least_enlarge fl mbr its (Suc i) enlarge (Some i)
      else least_enlarge fl mbr its (Suc i) least ind)"

fun choose_loop :: "(int \<Rightarrow> int) \<Rightarrow> nat \<Rightarrow> Rect \<Rightarrow> nat \<Rightarrow> nat list \<Rightarrow> rtree \<Rightarrow> (nat \<times> nat list \<times> rtree) outcome" where
  "choose_loop fl fuel mbr res anc st =
     (let n = gbuf st in
      if nodetype n = CHR ''l'' then Ret (res, anc, st)
      else (case fuel of
              0 \<Rightarrow> NoFuel
            | Suc fuel' \<Rightarrow>
                (case least_enlarge fl mbr (take (counter n) (slots n)) 0 DBL_MAX None of
                   None \<Rightarrow> Crash
                 | Some ind \<Rightarrow>
                     (let ptr = it_ptr (slots n ! ind) in
                      case read_blk_by_ptr ptr st of
                        None \<Rightarrow> Crash
                      | Some n' \<Rightarrow> choose_loop fl fuel' mbr (ptr div BLOCKSZ) (res # anc) (st\<lparr> gbuf := n' \<rparr>)))))"

declare choose_loop.simps [simp del]

definition choose_leaf :: "(int \<Rightarrow> int) \<Rightarrow> Rect \<Rightarrow> rtree \<Rightarrow> (nat \<times> nat list \<times> rtree) outcome" where
  "choose_leaf fl mbr st =
     (case read_blk_by_ptr BLOCKSZ st of
        None \<Rightarrow> Crash
      | Some n \<Rightarrow> choose_loop fl (tb_ind st) mbr 1 [] (st\<lparr> gbuf := n \<rparr>))"

section \<open>Splitting a node\<close>

text \<open>The pair of entries that would waste most area: all pairs in order, the first of the best.\<close>

definition pick_seeds :: "(int \<Rightarrow> int) \<Rightarrow> rt_item list \<Rightarrow> (nat \<times> nat) option" where
  "pick_seeds fl items =
     snd (fold (\<lambda>(i, j) (maxd, res).
            let r1 = it_rect (items ! i); r2 = it_rect (items ! j);
                d = fl (fl (area fl (compose r1 r2) - area fl r1) - area fl r2)
            in if d > maxd then (d, Some (i, j)) else (maxd, res))
          (concat (map (\<lambda>i. map (Pair i) [Suc i..<length items]) [0..<length items]))
          (- DBL_MAX, None))"

text \<open>\<open>maxdiff\<close> is never updated.\<close>

definition pick_next :: "(int \<Rightarrow> int) \<Rightarrow> Rect \<Rightarrow> Rect \<Rightarrow> bool list \<Rightarrow> rt_item list \<Rightarrow> nat option" where
  "pick_next fl c0 c1 todo items =
     fold (\<lambda>i res.
            if todo ! i
            then let r = it_rect (items ! i);
                     d0 = fl (area fl (compose c0 r) - area fl c0);
                     d1 = fl (area fl (compose c1 r) - area fl c1);
                     diff = abs (fl (d0 - d1))
                 in if diff > - DBL_MAX then Some i else res
            else res)
       [0..<length items] None"

text \<open>The variables of \<open>split_node\<close>.\<close>

record split_vars =
  sp_a :: rt_node
  sp_b :: rt_node
  sp_items :: "rt_item list"
  sp_todo :: "bool list"
  sp_n0 :: nat
  sp_n1 :: nat
  sp_c0 :: Rect
  sp_c1 :: Rect

text \<open>The group for an entry, with \<open>k\<close> entries left: true is group 0.\<close>

definition pick_group :: "(int \<Rightarrow> int) \<Rightarrow> nat \<Rightarrow> nat \<Rightarrow> Rect \<Rightarrow> split_vars \<Rightarrow> bool" where
  "pick_group fl m k r s =
     (let cr0 = compose (sp_c0 s) r; cr1 = compose (sp_c1 s) r;
          e0 = fl (area fl cr0 - area fl (sp_c0 s)); e1 = fl (area fl cr1 - area fl (sp_c1 s));
          flag0 = (e0 < e1 \<or> e0 = e1 \<and> area fl cr0 < area fl cr1 \<or>
                   e0 = e1 \<and> area fl cr0 = area fl cr1 \<and> sp_n0 s < sp_n1 s);
          flag1 = (if of_nat m - of_nat (sp_n0 s) = (of_nat k :: 32 word) \<and> \<not> flag0 then True else flag0)
      in if of_nat m - of_nat (sp_n1 s) = (of_nat k :: 32 word) \<and> flag1 then False else flag1)"

definition split_step :: "(int \<Rightarrow> int) \<Rightarrow> nat \<Rightarrow> nat \<Rightarrow> split_vars \<Rightarrow> split_vars option" where
  "split_step fl m k s = do {
     nx \<leftarrow> pick_next fl (sp_c0 s) (sp_c1 s) (sp_todo s) (sp_items s);
     let it = (sp_items s ! nx)\<lparr> it_del := False \<rparr>;
     let s1 = s\<lparr> sp_todo := (sp_todo s)[nx := False], sp_items := (sp_items s)[nx := it] \<rparr>;
     Some (if pick_group fl m k (it_rect it) s
           then s1\<lparr> sp_a := set_slot (sp_n0 s) it (sp_a s), sp_n0 := Suc (sp_n0 s),
                    sp_c0 := compose (sp_c0 s) (it_rect it) \<rparr>
           else s1\<lparr> sp_b := set_slot (sp_n1 s) it (sp_b s), sp_n1 := Suc (sp_n1 s),
                    sp_c1 := compose (sp_c1 s) (it_rect it) \<rparr>)
   }"

fun split_loop :: "(int \<Rightarrow> int) \<Rightarrow> nat \<Rightarrow> nat \<Rightarrow> split_vars \<Rightarrow> split_vars option" where
  "split_loop fl m 0 s = Some s"
| "split_loop fl m (Suc k) s = split_step fl m (Suc k) s \<bind> split_loop fl m k"

text \<open>The two seeds; the mark of seed 0 is cleared before the entry is copied, that of seed 1 after.\<close>

definition split_init :: "rt_item list \<Rightarrow> nat \<Rightarrow> nat \<Rightarrow> rtree \<Rightarrow> split_vars" where
  "split_init items e0 e1 st =
     \<lparr> sp_a = set_slot 0 (items ! e0) (split0 st),
       sp_b = set_slot 0 ((items ! e1)\<lparr> it_del := False \<rparr>) (split1 st),
       sp_items = items, sp_todo = (replicate (length items) True)[e0 := False, e1 := False],
       sp_n0 = 1, sp_n1 = 1, sp_c0 = it_rect (items ! e0), sp_c1 = it_rect (items ! e1) \<rparr>"

definition split_node :: "(int \<Rightarrow> int) \<Rightarrow> nat \<Rightarrow> Rect \<Rightarrow> nat \<Rightarrow> char \<Rightarrow> nat \<Rightarrow> nat \<Rightarrow> rtree \<Rightarrow> rtree option" where
  "split_node fl curblk mbr tupleptr ty ptr0 ptr1 st = do {
     n \<leftarrow> read_blk curblk st;
     let items = set_entry mbr tupleptr (itembuf st ! 0) # slots n;
     (e0, e1) \<leftarrow> pick_seeds fl items;
     s \<leftarrow> split_loop fl (rt_m st) (MAX_ENTRIES - 1) (split_init items e0 e1 st);
     (b0, st0) \<leftarrow> get_newblock (st\<lparr> gbuf := n \<rparr>);
     (b1, st1) \<leftarrow> get_newblock st0;
     let a = (sp_a s)\<lparr> nodetype := ty, counter := sp_n0 s \<rparr>;
     let a = (if ty = CHR ''l'' then a\<lparr> nextlptr := b1 * BLOCKSZ, prevlptr := ptr0 \<rparr> else a);
     let b = (sp_b s)\<lparr> nodetype := ty, counter := sp_n1 s \<rparr>;
     let b = (if ty = CHR ''l'' then b\<lparr> nextlptr := ptr1, prevlptr := b0 * BLOCKSZ \<rparr> else b);
     Some (write_blk b1 b (write_blk b0 a (st1\<lparr> itembuf := sp_items s, split0 := a, split1 := b,
       blkno0 := b0, blkno1 := b1, coverr0 := sp_c0 s, coverr1 := sp_c1 s \<rparr>)))
   }"

section \<open>Adjusting the tree\<close>

text \<open>The position of the entry that points to a block.\<close>

fun find_ptr :: "nat \<Rightarrow> rt_item list \<Rightarrow> nat option" where
  "find_ptr p [] = None"
| "find_ptr p (it # its) = (if it_ptr it = p then Some 0 else map_option Suc (find_ptr p its))"

fun adjust_tree_without_split :: "nat \<Rightarrow> Rect \<Rightarrow> nat list \<Rightarrow> rtree \<Rightarrow> rtree option" where
  "adjust_tree_without_split curblk mbr [] st = (if curblk = 1 then Some st else None)"
| "adjust_tree_without_split curblk mbr (pblk # anc) st =
     (if curblk = 1 then Some st
      else do {
        n \<leftarrow> read_blk pblk st;
        i \<leftarrow> find_ptr (curblk * BLOCKSZ) (take (counter n) (slots n));
        let r = it_rect (slots n ! i);
        let coverr = compose r mbr;
        if containedIn (Some coverr) r = 0 then Some (st\<lparr> gbuf := n \<rparr>)
        else do {
          let n' = set_slot i ((slots n ! i)\<lparr> it_rect := coverr \<rparr>) n;
          adjust_tree_without_split pblk coverr anc (write_blk pblk n' (st\<lparr> gbuf := n' \<rparr>))
        }
      })"

text \<open>Opening a slot behind position \<open>i\<close>: the entries behind move up, the marks of the two slots stay.\<close>

definition insert_pair :: "nat \<Rightarrow> Rect \<Rightarrow> nat \<Rightarrow> Rect \<Rightarrow> nat \<Rightarrow> rt_node \<Rightarrow> rt_node" where
  "insert_pair i r0 p0 r1 p1 n =
     (let s = slots n; c = counter n in
      n\<lparr> slots := take i s @ [set_entry r0 p0 (s ! i), set_entry r1 p1 (s ! Suc i)] @
           take (c - Suc i) (drop (Suc i) s) @ drop (Suc c) s,
         counter := Suc c \<rparr>)"

definition new_root :: "rtree \<Rightarrow> rtree" where
  "new_root st =
     (let n = (gbuf st)\<lparr> nodetype := CHR ''n'', counter := 2 \<rparr>;
          n = set_slot 0 \<lparr> it_rect = coverr0 st, it_ptr = blkno0 st * BLOCKSZ, it_del = False \<rparr> n;
          n = set_slot 1 \<lparr> it_rect = coverr1 st, it_ptr = blkno1 st * BLOCKSZ, it_del = False \<rparr> n
      in write_blk 1 n (st\<lparr> gbuf := n \<rparr>))"

fun adjust_tree_with_split :: "(int \<Rightarrow> int) \<Rightarrow> nat \<Rightarrow> nat list \<Rightarrow> rtree \<Rightarrow> rtree option" where
  "adjust_tree_with_split fl curblk [] st = (if curblk = 1 then Some (new_root st) else None)"
| "adjust_tree_with_split fl curblk (pblk # anc) st =
     (if curblk = 1 then Some (new_root st)
      else do {
        n \<leftarrow> read_blk pblk st;
        i \<leftarrow> find_ptr (curblk * BLOCKSZ) (take (counter n) (slots n));
        st' \<leftarrow>
          (if counter n = MAX_ENTRIES
           then do {
             let ptr0 = blkno0 st * BLOCKSZ;
             let ptr1 = blkno1 st * BLOCKSZ;
             st1 \<leftarrow> update_block_entry pblk i (coverr0 st) ptr0 (st\<lparr> gbuf := n \<rparr>);
             st2 \<leftarrow> split_node fl pblk (coverr1 st) ptr1 CHR ''n'' ptr0 ptr1 st1;
             adjust_tree_with_split fl pblk anc st2
           }
           else do {
             let n' = insert_pair i (coverr0 st) (blkno0 st * BLOCKSZ) (coverr1 st) (blkno1 st * BLOCKSZ) n;
             adjust_tree_without_split pblk (compose (coverr0 st) (coverr1 st)) anc
               (write_blk pblk n' (st\<lparr> gbuf := n' \<rparr>))
           });
        free_block 0 curblk st'
      })"

section \<open>Insertion\<close>

text \<open>The neighbours of a leaf that was split.\<close>

definition relink_leaves :: "nat \<Rightarrow> nat \<Rightarrow> rtree \<Rightarrow> rtree option" where
  "relink_leaves prev nxt st = do {
     st1 \<leftarrow> (if prev = 0 then Some st
            else do {
              n \<leftarrow> read_blk_by_ptr prev st;
              let n' = n\<lparr> nextlptr := blkno0 st * BLOCKSZ \<rparr>;
              write_blk_by_ptr prev n' (st\<lparr> gbuf := n' \<rparr>)
            });
     (if nxt = 0 then Some st1
      else do {
        n \<leftarrow> read_blk_by_ptr nxt st1;
        let n' = n\<lparr> prevlptr := blkno1 st * BLOCKSZ \<rparr>;
        write_blk_by_ptr nxt n' (st1\<lparr> gbuf := n' \<rparr>)
      })
   }"

text \<open>The leaf is in the buffer.\<close>

definition insert_leaf :: "(int \<Rightarrow> int) \<Rightarrow> Rect \<Rightarrow> nat \<Rightarrow> nat \<Rightarrow> nat list \<Rightarrow> rtree \<Rightarrow> rtree option" where
  "insert_leaf fl mbr tplno dest anc st =
     (let n = gbuf st in
      if counter n = MAX_ENTRIES
      then do {
        let prev = (if dest = 1 then 0 else prevlptr n);
        let nxt = (if dest = 1 then 0 else nextlptr n);
        st1 \<leftarrow> split_node fl dest mbr tplno CHR ''l'' prev nxt st;
        let st2 = (if dest * BLOCKSZ = rt_lptr st1 then st1\<lparr> rt_lptr := blkno0 st1 * BLOCKSZ \<rparr> else st1);
        st3 \<leftarrow> relink_leaves prev nxt st2;
        adjust_tree_with_split fl dest anc st3
      }
      else do {
        let i = counter n;
        let n' = (set_slot i (set_entry mbr tplno (slots n ! i)) n)\<lparr> counter := Suc i \<rparr>;
        adjust_tree_without_split dest mbr anc (write_blk dest n' (st\<lparr> gbuf := n' \<rparr>))
      })"

definition insert_rtree_aux :: "(int \<Rightarrow> int) \<Rightarrow> Rect \<Rightarrow> nat \<Rightarrow> rtree \<Rightarrow> rtree outcome" where
  "insert_rtree_aux fl mbr tplno st =
     (if fb_ind st = 1 \<and> tb_ind st = 1
      then (let n = (gbuf st)\<lparr> nodetype := CHR ''l'', counter := 0, nextlptr := 0, prevlptr := 0 \<rparr>;
                n = set_slot 0 ((slots n ! 0)\<lparr> it_del := False \<rparr>) n
            in case insert_leaf fl mbr tplno 1 [] (st\<lparr> gbuf := n, fb_ind := 2, tb_ind := 2 \<rparr>) of
                 None \<Rightarrow> Crash
               | Some st' \<Rightarrow> Ret st')
      else (case choose_leaf fl mbr st of
              Ret (dest, anc, st1) \<Rightarrow>
                (case read_blk dest st1 of
                   None \<Rightarrow> Crash
                 | Some n \<Rightarrow>
                     (case insert_leaf fl mbr tplno dest anc (st1\<lparr> gbuf := n \<rparr>) of
                        None \<Rightarrow> Crash
                      | Some st' \<Rightarrow> Ret st'))
            | Crash \<Rightarrow> Crash
            | NoFuel \<Rightarrow> NoFuel))"

section \<open>Searching\<close>

text \<open>
  \<open>rtree_get_one\<close> returns the block, the position and the tuple number; the block is 0 if nothing
  was found and \<open>uint_max\<close> for an invalid pointer. \<open>scan_items\<close> is its loop; \<open>sub\<close> the recursive call.
\<close>

fun scan_items ::
    "(nat \<Rightarrow> (nat \<times> nat \<times> nat) outcome) \<Rightarrow> Rect \<Rightarrow> nat \<Rightarrow> bool \<Rightarrow> nat \<Rightarrow> nat \<Rightarrow> rt_item list \<Rightarrow>
      nat \<times> nat \<Rightarrow> (nat \<times> nat \<times> nat) outcome" where
  "scan_items sub mbr tb leaf curblk i [] et = Ret (0, et)"
| "scan_items sub mbr tb leaf curblk i (it # its) et =
     (if leaf
      then if containedIn (Some mbr) (it_rect it) = 0 \<and> \<not> it_del it then Ret (curblk, i, it_ptr it)
           else scan_items sub mbr tb leaf curblk (Suc i) its et
      else if containedIn (Some mbr) (it_rect it) \<ge> 0
           then let b = it_ptr it div BLOCKSZ in
                if b < 1 \<or> b \<ge> tb then Ret (uint_max, et)
                else (case sub b of
                        Ret (b', et') \<Rightarrow>
                          if b' \<noteq> 0 then Ret (b', et') else scan_items sub mbr tb leaf curblk (Suc i) its et'
                      | Crash \<Rightarrow> Crash
                      | NoFuel \<Rightarrow> NoFuel)
           else scan_items sub mbr tb leaf curblk (Suc i) its et)"

fun rtree_get_one :: "nat \<Rightarrow> Rect \<Rightarrow> rtree \<Rightarrow> nat \<Rightarrow> (nat \<times> nat \<times> nat) outcome" where
  "rtree_get_one 0 mbr st curblk = NoFuel"
| "rtree_get_one (Suc fuel) mbr st curblk =
     (if fb_ind st = 1 then Ret (0, uint_max, uint_max)
      else (case read_blk curblk st of
              None \<Rightarrow> Crash
            | Some n \<Rightarrow>
                scan_items (rtree_get_one fuel mbr st) mbr (tb_ind st) (nodetype n = CHR ''l'') curblk 0
                  (take (counter n) (slots n)) (uint_max, uint_max)))"

end
