(* ===== verification/RTreeInv.thy ===== *)
theory RTreeInv
  imports RTree
begin

text \<open>
  The invariant of the R-tree and searching. A \<open>shape\<close> is the tree that the blocks of the file
  stand for: block numbers and covering rectangles; the entries are read from the file. \<open>ok\<close>
  relates file and shape, \<open>covers\<close> says that the rectangle of every entry of an inner node contains
  those of its child. Under both, \<open>rtree_get_one\<close> finds an entry exactly if there is one.
\<close>

section \<open>Rectangles\<close>

definition inside :: "Rect \<Rightarrow> Rect \<Rightarrow> bool" where
  "inside a b \<longleftrightarrow> x_ul a \<ge> x_ul b \<and> y_ul a \<le> y_ul b \<and> x_lr a \<le> x_lr b \<and> y_lr a \<ge> y_lr b"

lemma containedIn_ge [simp]: "0 \<le> containedIn (Some a) b \<longleftrightarrow> inside a b"
  by (auto simp: containedIn_def inside_def)

lemma containedIn_eq [simp]: "containedIn (Some a) b = 0 \<longleftrightarrow> a = b"
  by (auto simp: containedIn_def)

lemma inside_refl [simp]: "inside a a"
  by (simp add: inside_def)

lemma inside_trans: "inside a b \<Longrightarrow> inside b c \<Longrightarrow> inside a c"
  by (auto simp: inside_def)

lemma inside_compose [simp]: "inside a (compose a b)" "inside b (compose a b)"
  by (auto simp: inside_def compose_def)

lemma inside_composeI: "inside a b \<Longrightarrow> inside a (compose b c)" "inside a c \<Longrightarrow> inside a (compose b c)"
  using inside_trans inside_compose by blast+

lemma compose_insideD: "inside (compose a b) r \<Longrightarrow> inside a r" "inside (compose a b) r \<Longrightarrow> inside b r"
  by (auto simp: inside_def compose_def)

lemma compose_eq_inside: "compose r a = r \<Longrightarrow> inside a r"
  using inside_compose(2) [of a r] by metis

lemma MAX_ENTRIES_val: "MAX_ENTRIES = 96"
  by (simp add: MAX_ENTRIES_def BLOCKSZ_def OVERHEAD_def ENTRYSZ_def)

lemma BLOCKSZ_pos [simp]: "0 < BLOCKSZ" "BLOCKSZ \<noteq> 0"
  by (simp_all add: BLOCKSZ_def)

section \<open>Shapes\<close>

abbreviation key :: "rt_item \<Rightarrow> Rect \<times> nat" where
  "key it \<equiv> (it_rect it, it_ptr it)"

definition node_ok :: "rt_node \<Rightarrow> bool" where
  "node_ok n \<longleftrightarrow> length (slots n) = MAX_ENTRIES \<and> counter n \<le> MAX_ENTRIES"

definition used :: "rt_node \<Rightarrow> rt_item list" where
  "used n = take (counter n) (slots n)"

definition clean :: "rt_node \<Rightarrow> bool" where
  "clean n \<longleftrightarrow> (\<forall>it\<in>set (drop (counter n) (slots n)). \<not> it_del it)"

lemma length_used [simp]: "node_ok n \<Longrightarrow> length (used n) = counter n"
  by (simp add: node_ok_def used_def)

lemma used_nth: "i < counter n \<Longrightarrow> node_ok n \<Longrightarrow> used n ! i = slots n ! i"
  by (simp add: used_def node_ok_def)

datatype shape = SLeaf nat | SNode nat "(Rect \<times> shape) list"

type_synonym idxfile = "nat \<Rightarrow> rt_block option"

fun blk :: "shape \<Rightarrow> nat" where
  "blk (SLeaf b) = b"
| "blk (SNode b ks) = b"

fun blocks :: "shape \<Rightarrow> nat list" where
  "blocks (SLeaf b) = [b]"
| "blocks (SNode b ks) = b # concat (map (\<lambda>(r, t). blocks t) ks)"

fun leaves :: "shape \<Rightarrow> nat list" where
  "leaves (SLeaf b) = [b]"
| "leaves (SNode b ks) = concat (map (\<lambda>(r, t). leaves t) ks)"

fun height :: "shape \<Rightarrow> nat" where
  "height (SLeaf b) = 0"
| "height (SNode b ks) = Suc (foldr max (map (\<lambda>(r, t). height t) ks) 0)"

text \<open>Block \<open>b\<close> is an inner node with these entries.\<close>

definition inner :: "idxfile \<Rightarrow> nat \<Rightarrow> (Rect \<times> nat) list \<Rightarrow> bool" where
  "inner F b es \<longleftrightarrow> (\<exists>n. F b = Some (Node n) \<and> nodetype n = CHR ''n'' \<and> node_ok n \<and> map key (used n) = es)"

abbreviation entry :: "Rect \<times> shape \<Rightarrow> Rect \<times> nat" where
  "entry k \<equiv> (fst k, blk (snd k) * BLOCKSZ)"

fun ok :: "idxfile \<Rightarrow> shape \<Rightarrow> bool" where
  "ok F (SLeaf b) \<longleftrightarrow> (\<exists>n. F b = Some (Node n) \<and> nodetype n = CHR ''l'' \<and> node_ok n \<and> clean n)"
| "ok F (SNode b ks) \<longleftrightarrow>
     inner F b (map entry ks) \<and> ks \<noteq> [] \<and> (\<forall>(r, t)\<in>set ks. ok F t)"

fun items :: "idxfile \<Rightarrow> shape \<Rightarrow> rt_item list" where
  "items F (SLeaf b) = (case F b of Some (Node n) \<Rightarrow> used n | _ \<Rightarrow> [])"
| "items F (SNode b ks) = concat (map (\<lambda>(r, t). items F t) ks)"

fun bound :: "idxfile \<Rightarrow> shape \<Rightarrow> Rect \<Rightarrow> bool" where
  "bound F (SLeaf b) r \<longleftrightarrow> (\<forall>it\<in>set (items F (SLeaf b)). inside (it_rect it) r)"
| "bound F (SNode b ks) r \<longleftrightarrow> (\<forall>k\<in>set ks. inside (fst k) r)"

fun covers :: "idxfile \<Rightarrow> shape \<Rightarrow> bool" where
  "covers F (SLeaf b) \<longleftrightarrow> True"
| "covers F (SNode b ks) \<longleftrightarrow> (\<forall>(r, t)\<in>set ks. bound F t r \<and> covers F t)"

lemma shape_induct [case_names leaf node]:
  assumes "\<And>b. P (SLeaf b)" and "\<And>b ks. (\<And>r t. (r, t) \<in> set ks \<Longrightarrow> P t) \<Longrightarrow> P (SNode b ks)"
  shows "P t"
  using assms by (induction t rule: shape.induct) auto

lemma blk_in_blocks [simp]: "blk t \<in> set (blocks t)"
  by (cases t) auto

lemma leaves_blocks: "set (leaves t) \<subseteq> set (blocks t)"
  by (induction t rule: shape_induct) fastforce+

text \<open>Everything depends on the blocks of the shape only, and not on the links of leaves.\<close>

definition content :: "idxfile \<Rightarrow> nat \<Rightarrow> (char \<times> nat \<times> rt_item list) option" where
  "content F b = (case F b of Some (Node n) \<Rightarrow> Some (nodetype n, counter n, slots n) | _ \<Rightarrow> None)"

lemma content_cong: "F' b = F b \<Longrightarrow> content F' b = content F b"
  by (simp add: content_def)

lemma content_Node:
  "content F b = Some (y, c, s) \<longleftrightarrow> (\<exists>n. F b = Some (Node n) \<and> nodetype n = y \<and> counter n = c \<and> slots n = s)"
  by (auto simp: content_def split: option.splits rt_block.splits)

lemma content_transfer:
  assumes "content F' b = content F b" and "F b = Some (Node n)"
  shows "\<exists>m. F' b = Some (Node m) \<and> nodetype m = nodetype n \<and> node_ok m = node_ok n \<and> used m = used n \<and>
     clean m = clean n"
proof -
  have "content F' b = Some (nodetype n, counter n, slots n)" using assms by (simp add: content_def)
  then show ?thesis by (auto simp: content_Node node_ok_def used_def clean_def)
qed

lemma inner_cong:
  assumes "content F' b = content F b"
  shows "inner F' b es = inner F b es"
proof -
  have "inner F b es \<longleftrightarrow> (\<exists>c s. content F b = Some (CHR ''n'', c, s) \<and> length s = MAX_ENTRIES \<and> c \<le> MAX_ENTRIES \<and>
      map key (take c s) = es)" for F
    by (auto simp: inner_def content_Node node_ok_def used_def)
  then show ?thesis using assms by simp
qed

lemma frame_ok:
  assumes "\<forall>b\<in>set (blocks t). content F' b = content F b"
  shows "ok F' t = ok F t" and "items F' t = items F t" and "bound F' t r = bound F t r"
    and "covers F' t = covers F t"
proof -
  have "ok F' t = ok F t \<and> items F' t = items F t \<and> (\<forall>r. bound F' t r = bound F t r) \<and> covers F' t = covers F t"
    using assms
  proof (induction t rule: shape_induct)
    case (leaf b)
    then have c: "content F' b = content F b" by simp
    have "ok F' (SLeaf b) = ok F (SLeaf b)"
      using content_transfer [OF c] content_transfer [OF c [symmetric]] by fastforce
    moreover have "items F' (SLeaf b) = items F (SLeaf b)"
      using c by (auto simp: content_def used_def split: option.splits rt_block.splits)
    ultimately show ?case by simp
  next
    case (node b ks)
    then have c: "content F' b = content F b" by simp
    have ih: "ok F' t = ok F t \<and> items F' t = items F t \<and> (\<forall>r. bound F' t r = bound F t r) \<and> covers F' t = covers F t"
      if "(r, t) \<in> set ks" for r t
      by (rule node.IH [OF that]) (use node.prems that in force)
    have "items F' (SNode b ks) = items F (SNode b ks)"
      using ih by (auto intro!: arg_cong [where f = concat] map_cong)
    moreover have "ok F' (SNode b ks) = ok F (SNode b ks)"
      using inner_cong [OF c] ih by auto
    moreover have "covers F' (SNode b ks) = covers F (SNode b ks)" using ih by auto
    ultimately show ?case by simp
  qed
  then show "ok F' t = ok F t" "items F' t = items F t" "bound F' t r = bound F t r"
    "covers F' t = covers F t" by blast+
qed

lemma bound_items:
  assumes "covers F t" and "bound F t r" and "it \<in> set (items F t)"
  shows "inside (it_rect it) r"
  using assms
proof (induction t arbitrary: r rule: shape_induct)
  case (leaf b)
  then show ?case by simp
next
  case (node b ks)
  then obtain r' t where k: "(r', t) \<in> set ks" "it \<in> set (items F t)" by auto
  then have "inside (it_rect it) r'" using node.IH [OF k(1)] node.prems(1) by auto
  moreover have "inside r' r" using node.prems(2) k(1) by auto
  ultimately show ?case by (rule inside_trans)
qed

lemma foldr_max_ge: "x \<in> set xs \<Longrightarrow> x \<le> foldr max xs (0::nat)"
  by (induction xs) auto

lemma foldr_max_le: "\<forall>x\<in>set xs. x \<le> m \<Longrightarrow> foldr max xs (0::nat) \<le> m"
  by (induction xs) auto

lemma height_kid:
  assumes "(r, t) \<in> set ks"
  shows "height t < height (SNode b ks)"
proof -
  have "height t \<in> set (map (\<lambda>(r, t). height t) ks)" using assms by force
  from foldr_max_ge [OF this] show ?thesis by simp
qed

lemma height_blocks: "height t \<le> length (blocks t)"
proof (induction t rule: shape_induct)
  case (leaf b)
  then show ?case by simp
next
  case (node b ks)
  have "height t \<le> length (concat (map (\<lambda>(r, t). blocks t) ks))" if k: "(r, t) \<in> set ks" for r t
  proof -
    obtain l l' where "ks = l @ (r, t) # l'" using k by (meson split_list)
    then show ?thesis using node.IH [OF k] by simp
  qed
  then have "\<forall>x\<in>set (map (\<lambda>(r, t). height t) ks). x \<le> length (concat (map (\<lambda>(r, t). blocks t) ks))"
    by auto
  from foldr_max_le [OF this] show ?case by simp
qed

section \<open>Searching\<close>

definition matches :: "Rect \<Rightarrow> rt_item \<Rightarrow> bool" where
  "matches mbr it \<longleftrightarrow> it_rect it = mbr \<and> \<not> it_del it"

text \<open>The place of an entry: a block and a position in it.\<close>

definition located :: "idxfile \<Rightarrow> Rect \<Rightarrow> nat \<times> nat \<times> nat \<Rightarrow> bool" where
  "located F mbr res \<longleftrightarrow> (case res of (b, e, p) \<Rightarrow> b \<noteq> 0 \<and>
     (\<exists>n. F b = Some (Node n) \<and> e < counter n \<and> matches mbr (slots n ! e) \<and> it_ptr (slots n ! e) = p))"

text \<open>What \<open>rtree_get_one\<close> may return for a list of entries.\<close>

definition found :: "idxfile \<Rightarrow> Rect \<Rightarrow> rt_item list \<Rightarrow> nat \<times> nat \<times> nat \<Rightarrow> bool" where
  "found F mbr its res \<longleftrightarrow>
     (if \<exists>it\<in>set its. matches mbr it
      then located F mbr res \<and> (\<exists>it\<in>set its. matches mbr it \<and> snd (snd res) = it_ptr it)
      else res = (0, uint_max, uint_max))"

lemma found_append:
  "\<exists>it\<in>set xs. matches mbr it \<Longrightarrow> found F mbr xs res \<Longrightarrow> found F mbr (xs @ ys) res"
  "\<not> (\<exists>it\<in>set xs. matches mbr it) \<Longrightarrow> found F mbr (xs @ ys) res = found F mbr ys res"
  by (auto simp: found_def)

lemma scan_leaf:
  assumes "curblk \<noteq> 0" and "F curblk = Some (Node n)" and "node_ok n" and "its = drop i (used n)"
  shows "\<exists>res. scan_items sub mbr tb True curblk i its (uint_max, uint_max) = Ret res \<and> found F mbr its res"
  using assms(4)
proof (induction its arbitrary: i)
  case Nil
  show ?case by (simp add: found_def)
next
  case (Cons it its)
  have i: "i < counter n" using Cons.prems assms(3) by (metis drop_all length_used list.discI not_le)
  have it: "used n ! i = it" "its = drop (Suc i) (used n)"
    using Cons.prems by (metis nth_via_drop, metis drop_Suc list.sel(3) tl_drop)
  show ?case
  proof (cases "matches mbr it")
    case True
    have "slots n ! i = it" using it(1) used_nth [OF i assms(3)] by simp
    then have "located F mbr (curblk, i, it_ptr it)" using True i assms(1,2) by (simp add: located_def)
    then show ?thesis using True by (auto simp: matches_def found_def)
  next
    case False
    obtain res where res: "scan_items sub mbr tb True curblk (Suc i) its (uint_max, uint_max) = Ret res"
      "found F mbr its res" using Cons.IH [OF it(2)] by blast
    have "found F mbr ([it] @ its) res" using res(2) False by (subst found_append(2)) simp_all
    then have "found F mbr (it # its) res" by simp
    moreover have "scan_items sub mbr tb True curblk i (it # its) (uint_max, uint_max) = Ret res"
      using res(1) False by (auto simp: matches_def)
    ultimately show ?thesis by blast
  qed
qed

lemma scan_node:
  assumes "\<forall>(r, t)\<in>set ks. 1 \<le> blk t \<and> blk t < tb \<and> covers F t \<and> bound F t r \<and>
      (\<exists>res. sub (blk t) = Ret res \<and> found F mbr (items F t) res)"
    and "map key its = map entry ks"
  shows "\<exists>res. scan_items sub mbr tb False curblk i its (uint_max, uint_max) = Ret res \<and>
     found F mbr (concat (map (\<lambda>(r, t). items F t) ks)) res"
  using assms
proof (induction ks arbitrary: its i)
  case Nil
  then show ?case by (simp add: found_def)
next
  case (Cons k ks)
  obtain r t where k: "k = (r, t)" by (cases k)
  obtain it its' where its: "its = it # its'" "it_rect it = r" "it_ptr it = blk t * BLOCKSZ"
    "map key its' = map entry ks"
    using Cons.prems(2) k by auto
  have t: "1 \<le> blk t" "blk t < tb" "covers F t" "bound F t r" using Cons.prems(1) k by auto
  obtain res where res: "sub (blk t) = Ret res" "found F mbr (items F t) res" using Cons.prems(1) k by auto
  obtain res' where res': "scan_items sub mbr tb False curblk (Suc i) its' (uint_max, uint_max) = Ret res'"
    "found F mbr (concat (map (\<lambda>(r, t). items F t) ks)) res'"
    using Cons.IH [OF _ its(4), of "Suc i"] Cons.prems(1) by auto
  show ?case
  proof (cases "\<exists>it\<in>set (items F t). matches mbr it")
    case True
    then obtain x where "x \<in> set (items F t)" "it_rect x = mbr" by (auto simp: matches_def)
    then have "inside mbr r" using bound_items [OF t(3,4)] by blast
    moreover have "fst res \<noteq> 0" using res(2) True by (auto simp: found_def located_def)
    ultimately have "scan_items sub mbr tb False curblk i its (uint_max, uint_max) = Ret res"
      using res(1) t its by (cases res) simp
    moreover have "found F mbr (concat (map (\<lambda>(r, t). items F t) (k # ks))) res"
      using found_append(1) [OF True res(2)] k by simp
    ultimately show ?thesis by blast
  next
    case False
    then have "res = (0, uint_max, uint_max)" using res(2) by (simp add: found_def)
    then have "scan_items sub mbr tb False curblk i its (uint_max, uint_max) = Ret res'"
      using res(1) t its res'(1) by simp
    moreover have "found F mbr (concat (map (\<lambda>(r, t). items F t) (k # ks))) res'"
      using res'(2) found_append(2) [OF False] k by simp
    ultimately show ?thesis by blast
  qed
qed

lemma get_one_found:
  assumes "ok (index st) t" and "covers (index st) t" and "\<forall>b\<in>set (blocks t). 1 \<le> b \<and> b < tb_ind st"
    and "height t < fuel" and "fb_ind st \<noteq> 1"
  shows "\<exists>res. rtree_get_one fuel mbr st (blk t) = Ret res \<and> found (index st) mbr (items (index st) t) res"
  using assms
proof (induction t arbitrary: fuel rule: shape_induct)
  case (leaf b)
  obtain n where n: "index st b = Some (Node n)" "nodetype n = CHR ''l''" "node_ok n" using leaf.prems(1) by auto
  obtain f where f: "fuel = Suc f" using leaf.prems(4) by (cases fuel) auto
  have "b \<noteq> 0" using leaf.prems(3) by auto
  from scan_leaf [where F = "index st", OF this n(1,3), of "used n" 0] show ?case
    using n f leaf.prems(5) by (simp add: read_blk_def used_def)
next
  case (node b ks)
  obtain n where n: "index st b = Some (Node n)" "nodetype n = CHR ''n''"
    "map key (used n) = map entry ks" using node.prems(1) by (auto simp: inner_def)
  obtain f where f: "fuel = Suc f" using node.prems(4) by (cases fuel) auto
  have "1 \<le> blk t \<and> blk t < tb_ind st \<and> covers (index st) t \<and> bound (index st) t r \<and>
      (\<exists>res. rtree_get_one f mbr st (blk t) = Ret res \<and> found (index st) mbr (items (index st) t) res)"
    if k: "(r, t) \<in> set ks" for r t
  proof -
    have sub: "set (blocks t) \<subseteq> set (blocks (SNode b ks))" using k by force
    have "height t < f" using height_kid [OF k, of b] node.prems(4) f by simp
    moreover have t: "ok (index st) t" "covers (index st) t" "bound (index st) t r"
      using node.prems(1,2) k by auto
    moreover have bs: "\<forall>b\<in>set (blocks t). 1 \<le> b \<and> b < tb_ind st" using node.prems(3) sub by blast
    ultimately have "\<exists>res. rtree_get_one f mbr st (blk t) = Ret res \<and> found (index st) mbr (items (index st) t) res"
      using node.IH [OF k t(1,2) bs _ node.prems(5)] by blast
    then show ?thesis using t bs blk_in_blocks [of t] by blast
  qed
  then have "\<forall>(r, t)\<in>set ks. 1 \<le> blk t \<and> blk t < tb_ind st \<and> covers (index st) t \<and> bound (index st) t r \<and>
      (\<exists>res. rtree_get_one f mbr st (blk t) = Ret res \<and> found (index st) mbr (items (index st) t) res)" by blast
  from scan_node [OF this n(3)] show ?case
    using n f node.prems(5) by (simp add: read_blk_def used_def)
qed

end
