(* ===== verification/RTreeSplit.thy ===== *)
theory RTreeSplit
  imports RTreeInv
begin

text \<open>
  Splitting a full node of the R-tree: the entries are distributed to two nodes, each covered by
  its rectangle, and none is lost. What the heuristics compare does not matter for this, only that
  they choose something, for which rounding must not make an area as large as \<open>DBL_MAX\<close>.
\<close>

section \<open>The heuristics\<close>

text \<open>Rounding at most doubles the magnitude, in any precision and direction.\<close>

definition rounding :: "(int \<Rightarrow> int) \<Rightarrow> bool" where
  "rounding fl \<longleftrightarrow> (\<forall>x. \<bar>fl x\<bar> \<le> 2 * \<bar>x\<bar>)"

lemma int32_abs: "\<bar>int32 z\<bar> \<le> 2 ^ 31"
proof -
  have "- (2 ^ (LENGTH(32) - 1)) \<le> int32 z" "int32 z < 2 ^ (LENGTH(32) - 1)"
    unfolding int32_def by (rule sint_ge, rule sint_lt)
  then show ?thesis by simp
qed

lemma area_abs:
  assumes "rounding fl"
  shows "\<bar>area fl r\<bar> \<le> 2 ^ 63"
proof -
  let ?a = "int32 (y_ul r - y_lr r)" and ?b = "int32 (x_lr r - x_ul r)"
  have "\<bar>area fl r\<bar> \<le> 2 * \<bar>?a * ?b\<bar>" using assms by (simp add: area_def rounding_def)
  also have "\<bar>?a * ?b\<bar> \<le> 2 ^ 31 * 2 ^ 31"
    unfolding abs_mult by (rule mult_mono) (simp_all only: int32_abs abs_ge_zero, simp)
  finally show ?thesis by simp
qed

lemma enlarge_abs:
  assumes "rounding fl"
  shows "\<bar>fl (area fl a - area fl b)\<bar> \<le> 2 ^ 65"
    and "\<bar>fl (fl (area fl a - area fl b) - area fl c)\<bar> \<le> 2 ^ 67"
proof -
  have d: "\<bar>area fl a - area fl b\<bar> \<le> 2 ^ 64"
    using area_abs [OF assms, of a] area_abs [OF assms, of b] by simp
  then show e: "\<bar>fl (area fl a - area fl b)\<bar> \<le> 2 ^ 65"
    using assms [unfolded rounding_def, rule_format, of "area fl a - area fl b"] by simp
  show "\<bar>fl (fl (area fl a - area fl b) - area fl c)\<bar> \<le> 2 ^ 67"
    using assms [unfolded rounding_def, rule_format, of "fl (area fl a - area fl b) - area fl c"]
      e area_abs [OF assms, of c] abs_triangle_ineq4 [of "fl (area fl a - area fl b)" "area fl c"] by simp
qed

lemma least_enlarge_Some:
  assumes "rounding fl" and "its \<noteq> [] \<and> least = DBL_MAX \<or> (\<exists>j<i. ind = Some j)"
  shows "\<exists>j<i + length its. least_enlarge fl mbr its i least ind = Some j"
  using assms(2)
proof (induction its arbitrary: i least ind)
  case Nil
  then show ?case by simp
next
  case (Cons it its)
  let ?e = "fl (area fl (compose mbr (it_rect it)) - area fl (it_rect it))"
  have e: "?e < DBL_MAX" using enlarge_abs(1) [OF assms(1), of "compose mbr (it_rect it)" "it_rect it"]
    by (simp add: DBL_MAX_def)
  show ?case
  proof (cases "?e < least")
    case True
    then show ?thesis using Cons.IH [of ?e "Suc i" "Some i"] by (auto simp: Let_def)
  next
    case False
    then have "\<exists>j<i. ind = Some j" using Cons.prems e by auto
    then show ?thesis using Cons.IH [of least "Suc i" ind] False by (auto simp: Let_def less_Suc_eq)
  qed
qed

lemma fold_max:
  assumes "\<forall>p\<in>set ps. d p > (m::int)" and "ps \<noteq> []"
  shows "\<exists>p\<in>set ps. snd (fold (\<lambda>p (mx, res). if d p > mx then (d p, Some p) else (mx, res)) ps (m, None)) = Some p"
proof -
  have "\<exists>p\<in>A. snd (fold (\<lambda>p (mx, res). if d p > mx then (d p, Some p) else (mx, res)) ps (m', Some q)) = Some p"
    if "set ps \<subseteq> A" and "q \<in> A" for ps A m' q
    using that by (induction ps arbitrary: m' q) auto
  from this [of "tl ps" "set ps" "hd ps" "d (hd ps)"] show ?thesis
    using assms by (cases ps) auto
qed

lemma pick_seeds_Some:
  assumes "rounding fl" and "2 \<le> length its"
  shows "\<exists>i j. i < j \<and> j < length its \<and> pick_seeds fl its = Some (i, j)"
proof -
  let ?ps = "concat (map (\<lambda>i. map (Pair i) [Suc i..<length its]) [0..<length its])"
  let ?d = "\<lambda>(i, j). fl (fl (area fl (compose (it_rect (its ! i)) (it_rect (its ! j))) - area fl (it_rect (its ! i)))
      - area fl (it_rect (its ! j)))"
  have "- DBL_MAX < ?d p" for p
    using enlarge_abs(2) [OF assms(1)] by (cases p) (simp add: DBL_MAX_def abs_le_iff, smt (verit))
  moreover have "(0, 1) \<in> set ?ps" using assms(2) by (force simp: image_iff)
  then have "?ps \<noteq> []" by force
  ultimately obtain p where p: "p \<in> set ?ps"
    "snd (fold (\<lambda>p (mx, res). if ?d p > mx then (?d p, Some p) else (mx, res)) ?ps (- DBL_MAX, None)) = Some p"
    using fold_max [of ?ps "- DBL_MAX" ?d] by blast
  have f: "(\<lambda>(i, j) (maxd, res). let r1 = it_rect (its ! i); r2 = it_rect (its ! j);
      d = fl (fl (area fl (compose r1 r2) - area fl r1) - area fl r2)
      in if d > maxd then (d, Some (i, j)) else (maxd, res)) =
      (\<lambda>p (mx, res). if ?d p > mx then (?d p, Some p) else (mx, res))"
    by (auto simp: Let_def fun_eq_iff)
  have "pick_seeds fl its = Some p" using p(2) unfolding pick_seeds_def f .
  then show ?thesis using p(1) by auto
qed

lemma pick_next_Some:
  assumes "i < length its" and "todo ! i"
  shows "\<exists>j<length its. todo ! j \<and> pick_next fl c0 c1 todo its = Some j"
proof -
  have lt: "- DBL_MAX < \<bar>z\<bar>" for z
    by (rule less_le_trans [of _ 0]) (simp_all add: DBL_MAX_def)
  have f: "pick_next fl c0 c1 todo its = fold (\<lambda>i res. if todo ! i then Some i else res) [0..<length its] None"
    by (simp only: pick_next_def Let_def lt if_True)
  have "\<exists>j\<in>set xs. todo ! j \<and> fold (\<lambda>i res. if todo ! i then Some i else res) xs r = Some j"
    if "\<exists>i\<in>set xs. todo ! i" for xs r
    using that
  proof (induction xs arbitrary: r)
    case Nil
    then show ?case by simp
  next
    case (Cons x xs)
    show ?case
    proof (cases "\<exists>i\<in>set xs. todo ! i")
      case True
      then show ?thesis using Cons.IH by auto
    next
      case False
      then have "fold (\<lambda>i res. if todo ! i then Some i else res) xs r' = r'" for r'
        by (induction xs arbitrary: r') auto
      then show ?thesis using False Cons.prems by auto
    qed
  qed
  note last = this
  have "\<exists>j\<in>set [0..<length its]. todo ! j" using assms by auto
  from last [OF this, of None] show ?thesis using f by auto
qed

section \<open>The loop\<close>

text \<open>The entries not yet in a group, and the keys of those that are not deleted.\<close>

definition rest :: "split_vars \<Rightarrow> rt_item list" where
  "rest s = map fst (filter snd (zip (sp_items s) (sp_todo s)))"

definition live :: "rt_item list \<Rightarrow> (Rect \<times> nat) multiset" where
  "live its = mset (map key (filter (\<lambda>it. \<not> it_del it) its))"

abbreviation keys :: "rt_item list \<Rightarrow> (Rect \<times> nat) multiset" where
  "keys its \<equiv> mset (map key its)"

lemma live_append [simp]: "live (xs @ ys) = live xs + live ys"
  by (simp add: live_def)

lemma live_Nil [simp]: "live [] = {#}"
  by (simp add: live_def)

lemma live_Cons: "live (it # its) = (if it_del it then live its else add_mset (key it) (live its))"
  by (simp add: live_def)

lemma live_perm: "mset xs = mset ys \<Longrightarrow> live xs = live ys"
  by (simp add: live_def)

definition grp0 :: "split_vars \<Rightarrow> rt_item list" where
  "grp0 s = take (sp_n0 s) (slots (sp_a s))"

definition grp1 :: "split_vars \<Rightarrow> rt_item list" where
  "grp1 s = take (sp_n1 s) (slots (sp_b s))"

definition sizes :: "nat \<Rightarrow> split_vars \<Rightarrow> bool" where
  "sizes k s \<longleftrightarrow> length (sp_items s) = Suc MAX_ENTRIES \<and> length (sp_todo s) = Suc MAX_ENTRIES \<and>
     length (slots (sp_a s)) = MAX_ENTRIES \<and> length (slots (sp_b s)) = MAX_ENTRIES \<and>
     1 \<le> sp_n0 s \<and> 1 \<le> sp_n1 s \<and> sp_n0 s + sp_n1 s + k = Suc MAX_ENTRIES \<and> length (rest s) = k"

definition marks :: "split_vars \<Rightarrow> bool" where
  "marks s \<longleftrightarrow> (\<forall>it\<in>set (tl (slots (sp_a s))). \<not> it_del it) \<and> (\<forall>it\<in>set (slots (sp_b s)). \<not> it_del it) \<and>
     \<not> it_del (sp_items s ! 0)"

definition sinv :: "rt_item list \<Rightarrow> nat \<Rightarrow> split_vars \<Rightarrow> bool" where
  "sinv its k s \<longleftrightarrow> sizes k s \<and> marks s \<and>
     keys (grp0 s) + keys (grp1 s) + keys (rest s) = keys its \<and>
     live its \<subseteq># live (grp0 s) + live (grp1 s) + live (rest s) \<and>
     (\<forall>it\<in>set (grp0 s). inside (it_rect it) (sp_c0 s)) \<and>
     (\<forall>it\<in>set (grp1 s). inside (it_rect it) (sp_c1 s))"

lemma filter_zip_update:
  assumes "length xs = length bs" and "i < length bs" and "bs ! i"
  shows "mset (map fst (filter snd (zip xs bs))) =
     add_mset (xs ! i) (mset (map fst (filter snd (zip (xs[i := y]) (bs[i := False])))))"
  using assms
proof (induction xs bs arbitrary: i rule: list_induct2)
  case Nil
  then show ?case by simp
next
  case (Cons x xs b bs)
  then show ?case by (cases i) auto
qed

lemma take_Suc_update: "n < length xs \<Longrightarrow> take (Suc n) (xs[n := x]) = take n xs @ [x]"
  by (simp add: take_Suc_conv_app_nth)

lemma set_tl_update: "n \<noteq> 0 \<Longrightarrow> set (tl (xs[n := x])) \<subseteq> insert x (set (tl xs))"
  by (cases xs; cases n) (auto dest: set_update_subset_insert [THEN subsetD])

lemma split_step_inv:
  assumes "sinv its (Suc k) s"
  shows "\<exists>s'. split_step fl m j s = Some s' \<and> sinv its k s'"
proof -
  have sz: "sizes (Suc k) s" and mk: "marks s" using assms by (simp_all add: sinv_def)
  have "rest s \<noteq> []" using sz by (auto simp: sizes_def)
  then have "filter snd (zip (sp_items s) (sp_todo s)) \<noteq> []" by (simp add: rest_def)
  then have "hd (filter snd (zip (sp_items s) (sp_todo s))) \<in> set (filter snd (zip (sp_items s) (sp_todo s)))"
    by (rule hd_in_set)
  then obtain i where i: "i < length (sp_items s)" "sp_todo s ! i"
    using sz by (auto simp: in_set_zip sizes_def)
  obtain nx where nx: "nx < length (sp_items s)" "sp_todo s ! nx"
    "pick_next fl (sp_c0 s) (sp_c1 s) (sp_todo s) (sp_items s) = Some nx"
    using pick_next_Some [OF i] by blast
  let ?x = "sp_items s ! nx" and ?it = "(sp_items s ! nx)\<lparr> it_del := False \<rparr>"
  let ?s1 = "s\<lparr> sp_todo := (sp_todo s)[nx := False], sp_items := (sp_items s)[nx := ?it] \<rparr>"
  have r: "mset (rest s) = add_mset ?x (mset (rest ?s1))"
    using filter_zip_update [of "sp_items s" "sp_todo s" nx] nx sz by (simp add: rest_def sizes_def)
  have rl: "length (rest ?s1) = k" using arg_cong [OF r, of size] sz by (simp add: sizes_def)
  have rk: "keys (rest s) = add_mset (key ?it) (keys (rest ?s1))"
    using arg_cong [OF r, of "image_mset key"] by simp
  have rv: "live (rest s) \<subseteq># add_mset (key ?it) (live (rest ?s1))"
    using live_perm [of "rest s" "?x # rest ?s1"] r by (auto simp: live_Cons)
  have i0: "\<not> it_del ((sp_items s)[nx := ?it] ! 0)"
    using mk nx(1) by (cases nx) (auto simp: marks_def nth_list_update)
  show ?thesis
  proof (cases "pick_group fl m j (it_rect ?it) s")
    case True
    let ?s = "?s1\<lparr> sp_a := set_slot (sp_n0 s) ?it (sp_a s), sp_n0 := Suc (sp_n0 s),
        sp_c0 := compose (sp_c0 s) (it_rect ?it) \<rparr>"
    have step: "split_step fl m j s = Some ?s" using nx(3) True by (simp add: split_step_def Let_def)
    have n: "sp_n0 s < length (slots (sp_a s))" "sp_n0 s \<noteq> 0" using sz by (auto simp: sizes_def)
    have g: "grp0 ?s = grp0 s @ [?it]" "grp1 ?s = grp1 s" "rest ?s = rest ?s1"
      using n by (simp_all add: grp0_def grp1_def rest_def set_slot_def take_Suc_update)
    have "sizes k ?s" using sz rl g(3) by (auto simp: sizes_def set_slot_def)
    moreover have "marks ?s"
      using mk i0 set_tl_update [OF n(2), of "slots (sp_a s)" ?it] by (auto simp: marks_def set_slot_def)
    moreover have "live its \<subseteq># live (grp0 ?s) + live (grp1 ?s) + live (rest ?s)"
    proof (rule subset_mset.order_trans)
      show "live its \<subseteq># live (grp0 s) + live (grp1 s) + live (rest s)" using assms by (simp add: sinv_def)
      show "live (grp0 s) + live (grp1 s) + live (rest s) \<subseteq># live (grp0 ?s) + live (grp1 ?s) + live (rest ?s)"
        unfolding g using rv by (simp add: live_Cons)
    qed
    moreover have "\<forall>it\<in>set (grp0 ?s). inside (it_rect it) (sp_c0 ?s)"
      using assms unfolding g by (auto simp: sinv_def intro: inside_composeI)
    moreover have "\<forall>it\<in>set (grp1 ?s). inside (it_rect it) (sp_c1 ?s)"
      using assms unfolding g by (simp add: sinv_def)
    moreover have "keys (grp0 ?s) + keys (grp1 ?s) + keys (rest ?s) = keys its"
      using assms rk unfolding g by (simp add: sinv_def)
    ultimately have "sinv its k ?s" unfolding sinv_def by blast
    then show ?thesis using step by blast
  next
    case False
    let ?s = "?s1\<lparr> sp_b := set_slot (sp_n1 s) ?it (sp_b s), sp_n1 := Suc (sp_n1 s),
        sp_c1 := compose (sp_c1 s) (it_rect ?it) \<rparr>"
    have step: "split_step fl m j s = Some ?s" using nx(3) False by (simp add: split_step_def Let_def)
    have n: "sp_n1 s < length (slots (sp_b s))" "sp_n1 s \<noteq> 0" using sz by (auto simp: sizes_def)
    have g: "grp0 ?s = grp0 s" "grp1 ?s = grp1 s @ [?it]" "rest ?s = rest ?s1"
      using n by (simp_all add: grp0_def grp1_def rest_def set_slot_def take_Suc_update)
    have "sizes k ?s" using sz rl g(3) by (auto simp: sizes_def set_slot_def)
    moreover have "marks ?s"
      using mk i0 set_update_subset_insert [of "slots (sp_b s)" "sp_n1 s" ?it]
      by (auto simp: marks_def set_slot_def)
    moreover have "live its \<subseteq># live (grp0 ?s) + live (grp1 ?s) + live (rest ?s)"
    proof (rule subset_mset.order_trans)
      show "live its \<subseteq># live (grp0 s) + live (grp1 s) + live (rest s)" using assms by (simp add: sinv_def)
      show "live (grp0 s) + live (grp1 s) + live (rest s) \<subseteq># live (grp0 ?s) + live (grp1 ?s) + live (rest ?s)"
        unfolding g using rv by (simp add: live_Cons)
    qed
    moreover have "\<forall>it\<in>set (grp1 ?s). inside (it_rect it) (sp_c1 ?s)"
      using assms unfolding g by (auto simp: sinv_def intro: inside_composeI)
    moreover have "\<forall>it\<in>set (grp0 ?s). inside (it_rect it) (sp_c0 ?s)"
      using assms unfolding g by (simp add: sinv_def)
    moreover have "keys (grp0 ?s) + keys (grp1 ?s) + keys (rest ?s) = keys its"
      using assms rk unfolding g by (simp add: sinv_def)
    ultimately have "sinv its k ?s" unfolding sinv_def by blast
    then show ?thesis using step by blast
  qed
qed

lemma split_loop_inv:
  assumes "sinv its k s"
  shows "\<exists>s'. split_loop fl m k s = Some s' \<and> sinv its 0 s'"
  using assms
proof (induction k arbitrary: s)
  case 0
  then show ?case by simp
next
  case (Suc k)
  obtain s1 where "split_step fl m (Suc k) s = Some s1" "sinv its k s1" using split_step_inv [OF Suc.prems] by blast
  then show ?case using Suc.IH by auto
qed

section \<open>The whole split\<close>

definition glob :: "rtree \<Rightarrow> bool" where
  "glob st \<longleftrightarrow> length (slots (gbuf st)) = MAX_ENTRIES \<and> itembuf st \<noteq> [] \<and> \<not> it_del (itembuf st ! 0) \<and>
     length (slots (split0 st)) = MAX_ENTRIES \<and> (\<forall>it\<in>set (tl (slots (split0 st))). \<not> it_del it) \<and>
     length (slots (split1 st)) = MAX_ENTRIES \<and> (\<forall>it\<in>set (slots (split1 st)). \<not> it_del it)"

lemma rest_init:
  assumes "e0 < length its" and "e1 < length its" and "e0 \<noteq> e1"
  shows "mset its = add_mset (its ! e0) (add_mset (its ! e1) (mset (rest (split_init its e0 e1 st))))"
proof -
  let ?bs = "replicate (length its) True"
  have all: "map fst (filter snd (zip xs (replicate (length xs) True))) = xs" for xs :: "rt_item list"
    by (induction xs) auto
  have "mset (map fst (filter snd (zip its ?bs))) =
      add_mset (its ! e0) (mset (map fst (filter snd (zip its (?bs[e0 := False])))))"
    using filter_zip_update [of its ?bs e0 "its ! e0"] assms by simp
  moreover have "mset (map fst (filter snd (zip its (?bs[e0 := False])))) =
      add_mset (its ! e1) (mset (map fst (filter snd (zip its (?bs[e0 := False, e1 := False])))))"
    using filter_zip_update [of its "?bs[e0 := False]" e1 "its ! e1"] assms by simp
  ultimately show ?thesis by (simp add: all rest_def split_init_def)
qed

lemma split_init_inv:
  assumes "length its = Suc MAX_ENTRIES" and "e0 < e1" and "e1 < length its" and "\<not> it_del (its ! 0)"
    and "glob st"
  shows "sinv its (MAX_ENTRIES - 1) (split_init its e0 e1 st)"
proof -
  let ?s = "split_init its e0 e1 st" and ?e1 = "(its ! e1)\<lparr> it_del := False \<rparr>"
  have r: "mset its = add_mset (its ! e0) (add_mset (its ! e1) (mset (rest ?s)))"
    by (rule rest_init) (use assms in simp_all)
  have ne: "slots (split0 st) \<noteq> []" "slots (split1 st) \<noteq> []"
    using assms(5) by (auto simp: glob_def MAX_ENTRIES_val)
  have g: "grp0 ?s = [its ! e0]" "grp1 ?s = [?e1]"
    using ne by (cases "slots (split0 st)"; cases "slots (split1 st)";
        simp add: grp0_def grp1_def split_init_def set_slot_def)+
  have "length (rest ?s) = MAX_ENTRIES - 1"
    using arg_cong [OF r, of size] assms(1) by simp
  then have "sizes (MAX_ENTRIES - 1) ?s"
    using assms(1,5) by (auto simp: sizes_def split_init_def set_slot_def glob_def MAX_ENTRIES_val)
  moreover have "marks ?s"
    using assms(4,5) ne set_update_subset_insert [of "slots (split1 st)" 0 ?e1]
    by (cases "slots (split0 st)") (auto simp: marks_def split_init_def set_slot_def glob_def)
  moreover have "live its \<subseteq># live (grp0 ?s) + live (grp1 ?s) + live (rest ?s)"
    using live_perm [of its "its ! e0 # its ! e1 # rest ?s"] r
    unfolding g by (auto simp: live_Cons)
  moreover have "keys (grp0 ?s) + keys (grp1 ?s) + keys (rest ?s) = keys its"
    using arg_cong [OF r, of "image_mset key"] unfolding g by simp
  ultimately show ?thesis
    unfolding sinv_def g by (auto simp: g split_init_def)
qed

section \<open>Blocks\<close>

text \<open>The chain of free blocks, and the blocks \<open>B\<close> that are in use.\<close>

fun fchain :: "idxfile \<Rightarrow> nat \<Rightarrow> nat list \<Rightarrow> nat \<Rightarrow> bool" where
  "fchain F x [] tb \<longleftrightarrow> x = tb"
| "fchain F x (f # fs) tb \<longleftrightarrow>
     x = f \<and> (\<exists>link n. F f = Some (Free link n) \<and> length (slots n) = MAX_ENTRIES \<and> fchain F link fs tb)"

definition space :: "rtree \<Rightarrow> nat set \<Rightarrow> bool" where
  "space st B \<longleftrightarrow> (\<exists>fs. distinct fs \<and> set fs \<inter> B = {} \<and> (\<forall>b\<in>B \<union> set fs. 1 \<le> b \<and> b < tb_ind st) \<and>
     fchain (index st) (fb_ind st) fs (tb_ind st)) \<and> finite B \<and> 1 \<in> B"

lemma fchain_cong: "\<forall>b\<in>set fs. F' b = F b \<Longrightarrow> fchain F' x fs tb = fchain F x fs tb"
  by (induction fs arbitrary: x) auto

lemma space_index:
  assumes "space st B" and "\<forall>b. b \<notin> B \<longrightarrow> index st' b = index st b" and "fb_ind st' = fb_ind st"
    and "tb_ind st' = tb_ind st"
  shows "space st' B"
proof -
  obtain fs where fs: "distinct fs" "set fs \<inter> B = {}" "\<forall>b\<in>B \<union> set fs. 1 \<le> b \<and> b < tb_ind st"
    "fchain (index st) (fb_ind st) fs (tb_ind st)" using assms(1) by (auto simp: space_def)
  have "\<forall>b\<in>set fs. index st' b = index st b" using fs(2) assms(2) by blast
  then have "fchain (index st') (fb_ind st') fs (tb_ind st')" using fs(4) assms(3,4) fchain_cong by metis
  then show ?thesis using fs(1-3) assms(1,4) unfolding space_def by metis
qed

lemma space_fb: "space st B \<Longrightarrow> fb_ind st \<noteq> 1"
  unfolding space_def by (metis (no_types, lifting) UnCI disjoint_iff fchain.elims(2) list.set_intros(1) nat_neq_iff)

lemma get_newblock_space:
  assumes "space st B"
  shows "\<exists>b fb tb gb. get_newblock st = Some (b, st\<lparr> fb_ind := fb, tb_ind := tb, gbuf := gb \<rparr>) \<and> b \<notin> B \<and>
     space (st\<lparr> fb_ind := fb, tb_ind := tb, gbuf := gb \<rparr>) (insert b B) \<and>
     (gb = gbuf st \<or> length (slots gb) = MAX_ENTRIES)"
proof -
  obtain fs where fs: "distinct fs" "set fs \<inter> B = {}" "\<forall>b\<in>B \<union> set fs. 1 \<le> b \<and> b < tb_ind st"
    "fchain (index st) (fb_ind st) fs (tb_ind st)" and B: "finite B" "1 \<in> B"
    using assms by (auto simp: space_def)
  show ?thesis
  proof (cases fs)
    case Nil
    then have fb: "fb_ind st = tb_ind st" using fs(4) by simp
    let ?st = "st\<lparr> fb_ind := fb_ind st + 1, tb_ind := fb_ind st + 1, gbuf := gbuf st \<rparr>"
    have "fb_ind st \<notin> B" using fs(3) fb by force
    moreover have "space ?st (insert (fb_ind st) B)"
      using B fs(3) Nil fb unfolding space_def by (auto intro!: exI [of _ "[]"] simp: less_Suc_eq)
    moreover have "get_newblock st = Some (fb_ind st, ?st)" using fb by (simp add: get_newblock_def)
    ultimately show ?thesis by blast
  next
    case (Cons f fs')
    then obtain link n where f: "fb_ind st = f" "index st f = Some (Free link n)" "length (slots n) = MAX_ENTRIES"
      "fchain (index st) link fs' (tb_ind st)" using fs(4) by auto
    let ?st = "st\<lparr> fb_ind := link, tb_ind := tb_ind st, gbuf := n \<rparr>"
    have "f \<noteq> tb_ind st" "f \<notin> B" using fs(2,3) Cons by auto
    moreover have "space ?st (insert f B)"
      using B fs Cons f(4) unfolding space_def by (auto intro!: exI [of _ fs'])
    moreover have "get_newblock st = Some (f, ?st)"
      using f(1,2) \<open>f \<noteq> tb_ind st\<close> by (simp add: get_newblock_def)
    ultimately show ?thesis using f(3) by blast
  qed
qed

lemma free_block_space:
  assumes "space st B" and "b \<in> B" and "b \<noteq> 1" and "index st b = Some (Node n)" and "length (slots n) = MAX_ENTRIES"
  shows "\<exists>F. free_block 0 b st = Some (st\<lparr> index := F, fb_ind := b \<rparr>) \<and> space (st\<lparr> index := F, fb_ind := b \<rparr>) (B - {b}) \<and>
     (\<forall>x. x \<noteq> b \<longrightarrow> F x = index st x)"
proof -
  obtain fs where fs: "distinct fs" "set fs \<inter> B = {}" "\<forall>b\<in>B \<union> set fs. 1 \<le> b \<and> b < tb_ind st"
    "fchain (index st) (fb_ind st) fs (tb_ind st)" and B: "finite B" "1 \<in> B"
    using assms(1) by (auto simp: space_def)
  let ?F = "(index st)(b \<mapsto> Free (fb_ind st) n)"
  have "b \<notin> set fs" using fs(2) assms(2) by blast
  then have "fchain ?F (fb_ind st) fs (tb_ind st)" using fs(4) fchain_cong [of fs ?F "index st"] by auto
  then have "fchain ?F b (b # fs) (tb_ind st)" using assms(5) by simp
  then have "space (st\<lparr> index := ?F, fb_ind := b \<rparr>) (B - {b})"
    using fs(1-3) B assms(2,3) \<open>b \<notin> set fs\<close> unfolding space_def by (auto intro!: exI [of _ "b # fs"])
  moreover have "free_block 0 b st = Some (st\<lparr> index := ?F, fb_ind := b \<rparr>)"
    using assms(3,4) by (simp add: free_block_def)
  ultimately show ?thesis by (intro exI [of _ ?F]) simp
qed

section \<open>What \<open>split_node\<close> does\<close>

text \<open>Two nodes that share out the entries \<open>its\<close>, covered by \<open>ca\<close> and \<open>cb\<close>.\<close>

definition halves :: "rt_item list \<Rightarrow> rt_node \<Rightarrow> rt_node \<Rightarrow> Rect \<Rightarrow> Rect \<Rightarrow> bool" where
  "halves its a b ca cb \<longleftrightarrow> node_ok a \<and> node_ok b \<and> clean a \<and> clean b \<and> used a \<noteq> [] \<and> used b \<noteq> [] \<and>
     keys (used a) + keys (used b) = keys its \<and> live its \<subseteq># live (used a) + live (used b) \<and>
     (\<forall>it\<in>set (used a). inside (it_rect it) ca) \<and> (\<forall>it\<in>set (used b). inside (it_rect it) cb) \<and>
     (\<forall>it\<in>set (tl (used a)) \<union> set (used b). \<not> it_del it)"

lemma sinv_halves:
  assumes "sinv its 0 s" and "slots a = slots (sp_a s)" and "counter a = sp_n0 s"
    and "slots b = slots (sp_b s)" and "counter b = sp_n1 s"
  shows "halves its a b (sp_c0 s) (sp_c1 s)"
proof -
  have sz: "sizes 0 s" and mk: "marks s" using assms(1) by (simp_all add: sinv_def)
  have u: "used a = grp0 s" "used b = grp1 s" using assms(2-5) by (simp_all add: used_def grp0_def grp1_def)
  have n: "sp_n0 s \<noteq> 0" "sp_n1 s \<noteq> 0" using sz by (auto simp: sizes_def)
  have d: "drop (sp_n0 s) (slots (sp_a s)) = drop (sp_n0 s - 1) (tl (slots (sp_a s)))"
    using n(1) by (cases "sp_n0 s") (simp_all add: drop_Suc)
  have t: "tl (used a) = take (sp_n0 s - 1) (tl (slots (sp_a s)))"
    unfolding u grp0_def by (cases "slots (sp_a s)"; cases "sp_n0 s") auto
  have "clean a"
    using mk unfolding clean_def assms(2,3) d by (auto simp: marks_def dest: in_set_dropD)
  moreover have "clean b"
    using mk unfolding clean_def assms(4,5) by (auto simp: marks_def dest: in_set_dropD)
  moreover have "node_ok a" "node_ok b" using sz assms(2-5) by (auto simp: sizes_def node_ok_def)
  moreover have "used a \<noteq> []" "used b \<noteq> []"
    using sz n unfolding u by (auto simp: grp0_def grp1_def sizes_def MAX_ENTRIES_val)
  moreover have "\<forall>it\<in>set (tl (used a)) \<union> set (used b). \<not> it_del it"
    using mk unfolding t u(2) grp1_def by (auto simp: marks_def dest: in_set_takeD)
  moreover have "rest s = []" using sz by (simp add: sizes_def)
  ultimately show ?thesis using assms(1) unfolding halves_def sinv_def u by simp
qed

lemma split_node_halves:
  assumes "rounding fl" and "index st cur = Some (Node n)" and "node_ok n" and "glob st" and "space st B"
  obtains st' a b b0 b1 where
    "split_node fl cur mbr p ty ptr0 ptr1 st = Some st'"
    "halves (set_entry mbr p (itembuf st ! 0) # slots n) a b (coverr0 st') (coverr1 st')"
    "index st' = (index st)(b0 \<mapsto> Node a, b1 \<mapsto> Node b)" "b0 \<notin> B" "b1 \<notin> B" "b0 \<noteq> b1"
    "space st' (insert b0 (insert b1 B))" "glob st'" "blkno0 st' = b0" "blkno1 st' = b1" "rt_lptr st' = rt_lptr st"
    "nodetype a = ty" "nodetype b = ty"
    "ty = CHR ''l'' \<Longrightarrow> nextlptr a = b1 * BLOCKSZ \<and> prevlptr a = ptr0 \<and> nextlptr b = ptr1 \<and> prevlptr b = b0 * BLOCKSZ"
proof -
  let ?its = "set_entry mbr p (itembuf st ! 0) # slots n"
  have len: "length ?its = Suc MAX_ENTRIES" using assms(3) by (simp add: node_ok_def)
  obtain e0 e1 where e: "e0 < e1" "e1 < length ?its" "pick_seeds fl ?its = Some (e0, e1)"
    using pick_seeds_Some [OF assms(1), of ?its] len by (auto simp: MAX_ENTRIES_val)
  have "\<not> it_del (?its ! 0)" using assms(4) by (simp add: glob_def set_entry_def)
  from split_init_inv [OF len e(1,2) this assms(4)]
  obtain s where s: "split_loop fl (rt_m st) (MAX_ENTRIES - 1) (split_init ?its e0 e1 st) = Some s" "sinv ?its 0 s"
    using split_loop_inv by blast
  have "space (st\<lparr> gbuf := n \<rparr>) B" using space_index [OF assms(5)] by simp
  from get_newblock_space [OF this] obtain b0 f0 t0 g0 where
    b0: "get_newblock (st\<lparr> gbuf := n \<rparr>) = Some (b0, st\<lparr> fb_ind := f0, tb_ind := t0, gbuf := g0 \<rparr>)" "b0 \<notin> B"
    "space (st\<lparr> fb_ind := f0, tb_ind := t0, gbuf := g0 \<rparr>) (insert b0 B)" "length (slots g0) = MAX_ENTRIES"
    using assms(3) by (auto simp: node_ok_def)
  from get_newblock_space [OF b0(3)] obtain b1 f1 t1 g1 where
    b1: "get_newblock (st\<lparr> fb_ind := f0, tb_ind := t0, gbuf := g0 \<rparr>) = Some (b1, st\<lparr> fb_ind := f1, tb_ind := t1, gbuf := g1 \<rparr>)"
    "b1 \<notin> insert b0 B"
    "space (st\<lparr> fb_ind := f1, tb_ind := t1, gbuf := g1 \<rparr>) (insert b1 (insert b0 B))" "length (slots g1) = MAX_ENTRIES"
    using b0(4) by auto
  let ?a = "(sp_a s)\<lparr> nodetype := ty, counter := sp_n0 s \<rparr>" and ?b = "(sp_b s)\<lparr> nodetype := ty, counter := sp_n1 s \<rparr>"
  let ?a' = "if ty = CHR ''l'' then ?a\<lparr> nextlptr := b1 * BLOCKSZ, prevlptr := ptr0 \<rparr> else ?a"
  let ?b' = "if ty = CHR ''l'' then ?b\<lparr> nextlptr := ptr1, prevlptr := b0 * BLOCKSZ \<rparr> else ?b"
  let ?st = "write_blk b1 ?b' (write_blk b0 ?a' (st\<lparr> fb_ind := f1, tb_ind := t1, gbuf := g1, itembuf := sp_items s,
      split0 := ?a', split1 := ?b', blkno0 := b0, blkno1 := b1, coverr0 := sp_c0 s, coverr1 := sp_c1 s \<rparr>))"
  have sz: "sizes 0 s" and mk: "marks s" using s(2) by (simp_all add: sinv_def)
  show ?thesis
  proof (rule that [of ?st ?a' ?b' b0 b1])
    show "split_node fl cur mbr p ty ptr0 ptr1 st = Some ?st"
      using assms(2) e(3) s(1) b0(1) b1(1) by (simp add: split_node_def read_blk_def Let_def)
    show "halves ?its ?a' ?b' (coverr0 ?st) (coverr1 ?st)"
      using sinv_halves [OF s(2), of ?a' ?b'] by (simp add: write_blk_def)
    show "space ?st (insert b0 (insert b1 B))"
      using space_index [OF b1(3), of ?st] by (simp add: write_blk_def insert_commute)
    show "glob ?st"
      using sz mk b1(4) by (auto simp: glob_def write_blk_def sizes_def marks_def)
  qed (use b0(2) b1(2) in \<open>auto simp: write_blk_def\<close>)
qed

section \<open>How the entries are shared out\<close>

text \<open>
  With \<open>k\<close> entries left each group can still get \<open>m\<close>. The step of the loop keeps that: when a group
  needs all that are left the comparison of the unsigned differences notices it.
\<close>

definition fill :: "nat \<Rightarrow> nat \<Rightarrow> split_vars \<Rightarrow> bool" where
  "fill m k s \<longleftrightarrow> m \<le> sp_n0 s + k \<and> m \<le> sp_n1 s + k"

lemma word_diff_eq:
  assumes "m \<le> n + k" and "n \<le> MAX_ENTRIES" and "k \<le> MAX_ENTRIES"
  shows "of_nat m - of_nat n = (of_nat k :: 32 word) \<longleftrightarrow> m = n + k"
proof -
  have "of_nat m - of_nat n = (of_nat k :: 32 word) \<longleftrightarrow> of_nat m = (of_nat (n + k) :: 32 word)"
    by (auto simp: algebra_simps)
  also have "\<dots> \<longleftrightarrow> m = n + k"
    using assms
    by (simp add: word_of_nat_eq_iff take_bit_nat_eq_self_iff take_bit_nat_eq_self MAX_ENTRIES_val del: of_nat_add)
  finally show ?thesis .
qed

lemma pick_group_fill:
  assumes "fill m (Suc k) s" and "2 * m \<le> Suc MAX_ENTRIES" and "sizes (Suc k) s"
  shows "if pick_group fl m (Suc k) r s then m \<le> sp_n1 s + k else m \<le> sp_n0 s + k"
proof -
  have le: "m \<le> sp_n0 s + Suc k" "m \<le> sp_n1 s + Suc k" "sp_n0 s \<le> MAX_ENTRIES" "sp_n1 s \<le> MAX_ENTRIES"
    "Suc k \<le> MAX_ENTRIES" "sp_n0 s + sp_n1 s + Suc k = Suc MAX_ENTRIES"
    using assms(1,3) by (auto simp: fill_def sizes_def)
  note w = word_diff_eq [OF le(1,3,5)] word_diff_eq [OF le(2,4,5)]
  show ?thesis
    unfolding pick_group_def w Let_def using assms(2) le by auto
qed

lemma split_step_counts:
  assumes "split_step fl m k s = Some s'"
  shows "\<exists>r. sp_n0 s' = (if pick_group fl m k r s then Suc (sp_n0 s) else sp_n0 s) \<and>
     sp_n1 s' = (if pick_group fl m k r s then sp_n1 s else Suc (sp_n1 s))"
proof -
  obtain nx where "pick_next fl (sp_c0 s) (sp_c1 s) (sp_todo s) (sp_items s) = Some nx"
    using assms by (auto simp: split_step_def Option.bind_eq_Some_conv)
  then show ?thesis
    using assms by (intro exI [of _ "it_rect (sp_items s ! nx)"]) (auto simp: split_step_def Let_def)
qed

lemma split_loop_fill:
  assumes "sinv its k s" and "fill m k s" and "2 * m \<le> Suc MAX_ENTRIES" and "split_loop fl m k s = Some s'"
  shows "fill m 0 s'"
  using assms
proof (induction k arbitrary: s)
  case 0
  then show ?case by simp
next
  case (Suc k)
  obtain s1 where s1: "split_step fl m (Suc k) s = Some s1" "sinv its k s1"
    using split_step_inv [OF Suc.prems(1)] by blast
  obtain r where "sp_n0 s1 = (if pick_group fl m (Suc k) r s then Suc (sp_n0 s) else sp_n0 s)"
    "sp_n1 s1 = (if pick_group fl m (Suc k) r s then sp_n1 s else Suc (sp_n1 s))"
    using split_step_counts [OF s1(1)] by blast
  moreover have "sizes (Suc k) s" using Suc.prems(1) by (simp add: sinv_def)
  ultimately have "fill m k s1"
    using pick_group_fill [OF Suc.prems(2,3), of fl r] Suc.prems(2) by (auto simp: fill_def split: if_splits)
  then show ?case using Suc.IH [OF s1(2)] Suc.prems(3,4) s1(1) by simp
qed

text \<open>The two nodes stay in the static buffers, and their counters are those of the loop.\<close>

lemma split_node_loop:
  assumes "split_node fl cur mbr p ty ptr0 ptr1 st = Some st'" and "index st cur = Some (Node n)"
  obtains e0 e1 s where "pick_seeds fl (set_entry mbr p (itembuf st ! 0) # slots n) = Some (e0, e1)"
    and "split_loop fl (rt_m st) (MAX_ENTRIES - 1) (split_init (set_entry mbr p (itembuf st ! 0) # slots n) e0 e1 st) = Some s"
    and "counter (split0 st') = sp_n0 s" and "counter (split1 st') = sp_n1 s"
    and "index st' (blkno1 st') = Some (Node (split1 st'))"
    and "blkno0 st' \<noteq> blkno1 st' \<Longrightarrow> index st' (blkno0 st') = Some (Node (split0 st'))"
  using assms unfolding split_node_def
  by (auto simp: read_blk_def write_blk_def Let_def Option.bind_eq_Some_conv split: prod.splits)

lemma split_node_counts:
  assumes "rounding fl" and "node_ok n" and "glob st" and "2 * rt_m st \<le> Suc MAX_ENTRIES"
    and st': "split_node fl cur mbr p ty ptr0 ptr1 st = Some st'" and "index st cur = Some (Node n)"
    and a: "blkno0 st' \<noteq> blkno1 st' \<and> index st' (blkno0 st') = Some (Node a)"
    and b: "index st' (blkno1 st') = Some (Node b)"
  shows "rt_m st \<le> counter a \<and> rt_m st \<le> counter b \<and> counter a + counter b = Suc MAX_ENTRIES"
proof -
  let ?its = "set_entry mbr p (itembuf st ! 0) # slots n"
  obtain e0 e1 s where e: "pick_seeds fl ?its = Some (e0, e1)"
    and l: "split_loop fl (rt_m st) (MAX_ENTRIES - 1) (split_init ?its e0 e1 st) = Some s"
    and c: "counter a = sp_n0 s" "counter b = sp_n1 s"
    by (rule split_node_loop [OF st' assms(6)]) (use a b in auto)
  have len: "length ?its = Suc MAX_ENTRIES" using assms(2) by (simp add: node_ok_def)
  obtain f0 f1 where f: "f0 < f1" "f1 < length ?its" "pick_seeds fl ?its = Some (f0, f1)"
    using pick_seeds_Some [OF assms(1), of ?its] len by (auto simp: MAX_ENTRIES_val)
  have "\<not> it_del (?its ! 0)" using assms(3) by (simp add: glob_def set_entry_def)
  then have inv: "sinv ?its (MAX_ENTRIES - 1) (split_init ?its e0 e1 st)"
    using split_init_inv [OF len f(1,2) _ assms(3)] e f(3) by simp
  have "fill (rt_m st) (MAX_ENTRIES - 1) (split_init ?its e0 e1 st)"
    using assms(4) by (simp add: fill_def split_init_def MAX_ENTRIES_val)
  from split_loop_fill [OF inv this assms(4) l] have "fill (rt_m st) 0 s" .
  moreover have "sizes 0 s" using split_loop_inv [OF inv, of fl "rt_m st"] l by (auto simp: sinv_def)
  ultimately show ?thesis using c by (simp add: fill_def sizes_def)
qed

section \<open>Properties\<close>

text \<open>
  C39: Splitting a full node shares out its entries. \<open>split_node\<close> ends, for every rounding of areas; it
  writes two nodes to two new blocks and changes no other block. The two nodes hold the entries of
  the full node and the new one, each once, and no entry loses its place by becoming deleted; each
  of them has at least \<open>m\<close> entries, as long as both can, and is covered by its rectangle; leaves are
  linked to each other and to the two neighbours.
\<close>

theorem split_node_shares_entries:
  assumes "rounding fl" and "index st cur = Some (Node n)" and "node_ok n" and "counter n = MAX_ENTRIES"
    and "glob st" and "space st B" and "2 * rt_m st \<le> Suc MAX_ENTRIES"
  shows "\<exists>st' a b b0 b1. split_node fl cur mbr p ty ptr0 ptr1 st = Some st' \<and>
     b0 \<notin> B \<and> b1 \<notin> B \<and> b0 \<noteq> b1 \<and> index st' = (index st)(b0 \<mapsto> Node a, b1 \<mapsto> Node b) \<and>
     space st' (insert b0 (insert b1 B)) \<and>
     keys (used a) + keys (used b) = add_mset (mbr, p) (keys (used n)) \<and>
     add_mset (mbr, p) (live (used n)) \<subseteq># live (used a) + live (used b) \<and>
     rt_m st \<le> counter a \<and> rt_m st \<le> counter b \<and> counter a + counter b = Suc MAX_ENTRIES \<and>
     (\<forall>it\<in>set (used a). inside (it_rect it) (coverr0 st')) \<and>
     (\<forall>it\<in>set (used b). inside (it_rect it) (coverr1 st')) \<and>
     nodetype a = ty \<and> nodetype b = ty \<and>
     (ty = CHR ''l'' \<longrightarrow> prevlptr a = ptr0 \<and> nextlptr a = b1 * BLOCKSZ \<and>
        prevlptr b = b0 * BLOCKSZ \<and> nextlptr b = ptr1)"
proof -
  let ?its = "set_entry mbr p (itembuf st ! 0) # slots n"
  obtain st' a b b0 b1 where s: "split_node fl cur mbr p ty ptr0 ptr1 st = Some st'"
    "halves ?its a b (coverr0 st') (coverr1 st')"
    "index st' = (index st)(b0 \<mapsto> Node a, b1 \<mapsto> Node b)" "b0 \<notin> B" "b1 \<notin> B" "b0 \<noteq> b1"
    "space st' (insert b0 (insert b1 B))" "glob st'" "blkno0 st' = b0" "blkno1 st' = b1" "rt_lptr st' = rt_lptr st"
    "nodetype a = ty" "nodetype b = ty"
    "ty = CHR ''l'' \<longrightarrow> nextlptr a = b1 * BLOCKSZ \<and> prevlptr a = ptr0 \<and> nextlptr b = ptr1 \<and> prevlptr b = b0 * BLOCKSZ"
    by (rule split_node_halves [OF assms(1-3,5,6), of mbr p ty ptr0 ptr1])
      (rule that, assumption+, rule impI, simp)
  have full: "used n = slots n" "length ?its = Suc MAX_ENTRIES"
    using assms(3,4) by (simp_all add: used_def node_ok_def)
  have new: "key (set_entry mbr p (itembuf st ! 0)) = (mbr, p)" "\<not> it_del (set_entry mbr p (itembuf st ! 0))"
    using assms(5) by (simp_all add: set_entry_def glob_def)
  have count: "rt_m st \<le> counter a \<and> rt_m st \<le> counter b \<and> counter a + counter b = Suc MAX_ENTRIES"
    by (rule split_node_counts [OF assms(1,3,5,7) s(1) assms(2)])
      (use s(3,6,9,10) in auto)
  show ?thesis
    using s(1,2,12-14) s(3-7) count new
    by (intro exI [of _ st'] exI [of _ a] exI [of _ b] exI [of _ b0] exI [of _ b1])
      (simp add: halves_def full(1) live_Cons)
qed

text \<open>A full leaf in the root block, with overlapping rectangles; only the root is in use.\<close>

definition demo_item :: "nat \<Rightarrow> rt_item" where
  "demo_item i = \<lparr> it_rect = \<lparr> x_ul = int i, y_ul = 4, x_lr = int i + 3, y_lr = 2 \<rparr>, it_ptr = i, it_del = False \<rparr>"

definition demo_leaf :: "nat \<Rightarrow> rt_node" where
  "demo_leaf c = \<lparr> nodetype = CHR ''l'', counter = c, nextlptr = 0, prevlptr = 0,
     slots = map demo_item [0..<MAX_ENTRIES] \<rparr>"

definition demo_full :: rtree where
  "demo_full = \<lparr> fb_ind = 2, tb_ind = 2, rt_lptr = BLOCKSZ, rt_m = 2, rt_M = MAX_ENTRIES, tplsz = 0,
     index = [1 \<mapsto> Node (demo_leaf MAX_ENTRIES)], gbuf = demo_leaf 0, itembuf = [demo_item 0],
     split0 = demo_leaf 0, split1 = demo_leaf 0, blkno0 = 0, blkno1 = 0,
     coverr0 = it_rect (demo_item 0), coverr1 = it_rect (demo_item 0) \<rparr>"

lemma demo_full_ok: "glob demo_full" "space demo_full {1}" "node_ok (demo_leaf MAX_ENTRIES)" "rounding id"
proof -
  show "glob demo_full"
    by (auto simp: glob_def demo_full_def demo_leaf_def demo_item_def MAX_ENTRIES_val simp flip: map_tl)
  show "space demo_full {1}"
    unfolding space_def by (auto simp: demo_full_def intro!: exI [of _ "[]"])
qed (simp_all add: node_ok_def demo_leaf_def rounding_def)

theorem split_node_shares_entries_witness:
  "\<exists>st' a b b0 b1. split_node id 1 (it_rect (demo_item 500)) 500 CHR ''l'' 0 0 demo_full = Some st' \<and>
     index st' = [1 \<mapsto> Node (demo_leaf MAX_ENTRIES), b0 \<mapsto> Node a, b1 \<mapsto> Node b] \<and>
     2 \<le> counter a \<and> 2 \<le> counter b \<and> counter a + counter b = 97 \<and> nextlptr a = b1 * BLOCKSZ"
proof -
  have f: "index demo_full 1 = Some (Node (demo_leaf MAX_ENTRIES))" "rt_m demo_full = 2"
    "index demo_full = [1 \<mapsto> Node (demo_leaf MAX_ENTRIES)]" "counter (demo_leaf MAX_ENTRIES) = MAX_ENTRIES"
    by (simp_all add: demo_full_def demo_leaf_def)
  have "2 * rt_m demo_full \<le> Suc MAX_ENTRIES" by (simp add: f(2) MAX_ENTRIES_val)
  from split_node_shares_entries [OF demo_full_ok(4) f(1) demo_full_ok(3) f(4) demo_full_ok(1,2) this,
      of "it_rect (demo_item 500)" 500 "CHR ''l''" 0 0]
  obtain st' a b b0 b1 where s: "split_node id 1 (it_rect (demo_item 500)) 500 CHR ''l'' 0 0 demo_full = Some st'"
    "index st' = (index demo_full)(b0 \<mapsto> Node a, b1 \<mapsto> Node b)" "rt_m demo_full \<le> counter a"
    "rt_m demo_full \<le> counter b" "counter a + counter b = Suc MAX_ENTRIES" "nextlptr a = b1 * BLOCKSZ"
    by blast
  show ?thesis
    by (intro exI [of _ st'] exI [of _ a] exI [of _ b] exI [of _ b0] exI [of _ b1])
      (use s in \<open>simp add: f(2,3) MAX_ENTRIES_val\<close>)
qed

end
