(* ===== verification/RTreeIns.thy ===== *)
theory RTreeIns
  imports RTreeSplit
begin

text \<open>
  Insertion into the R-tree. A path from a node up to the root is a list of frames: an inner node
  without one of its children. \<open>plug\<close> puts a tree into the hole. Choosing a leaf yields such a
  path; the two routines that adjust the tree walk it upwards, by induction on the path.
\<close>

section \<open>Paths\<close>

type_synonym frame = "nat \<times> (Rect \<times> shape) list \<times> Rect \<times> (Rect \<times> shape) list"

abbreviation frect :: "frame \<Rightarrow> Rect" where
  "frect f \<equiv> fst (snd (snd f))"

abbreviation kblocks :: "(Rect \<times> shape) list \<Rightarrow> nat list" where
  "kblocks ks \<equiv> concat (map (\<lambda>(r, t). blocks t) ks)"

abbreviation kleaves :: "(Rect \<times> shape) list \<Rightarrow> nat list" where
  "kleaves ks \<equiv> concat (map (\<lambda>(r, t). leaves t) ks)"

abbreviation kitems :: "idxfile \<Rightarrow> (Rect \<times> shape) list \<Rightarrow> rt_item list" where
  "kitems F ks \<equiv> concat (map (\<lambda>(r, t). items F t) ks)"

abbreviation kok :: "idxfile \<Rightarrow> (Rect \<times> shape) list \<Rightarrow> bool" where
  "kok F ks \<equiv> \<forall>(r, t)\<in>set ks. ok F t"

abbreviation kcov :: "idxfile \<Rightarrow> (Rect \<times> shape) list \<Rightarrow> bool" where
  "kcov F ks \<equiv> \<forall>(r, t)\<in>set ks. bound F t r \<and> covers F t"

fun plug :: "frame list \<Rightarrow> shape \<Rightarrow> shape" where
  "plug [] t = t"
| "plug ((b, l, r, rs) # c) t = plug c (SNode b (l @ (r, t) # rs))"

fun cblocks :: "frame list \<Rightarrow> nat list" where
  "cblocks [] = []"
| "cblocks ((b, l, r, rs) # c) = b # kblocks l @ kblocks rs @ cblocks c"

fun cleaves :: "frame list \<Rightarrow> nat list" where
  "cleaves [] = []"
| "cleaves ((b, l, r, rs) # c) = kleaves l @ kleaves rs @ cleaves c"

fun citems :: "idxfile \<Rightarrow> frame list \<Rightarrow> rt_item list" where
  "citems F [] = []"
| "citems F ((b, l, r, rs) # c) = kitems F l @ kitems F rs @ citems F c"

fun rootblk :: "frame list \<Rightarrow> nat \<Rightarrow> nat" where
  "rootblk [] x = x"
| "rootblk ((b, l, r, rs) # c) x = rootblk c b"

text \<open>The nodes of the path are in the file; the hole is the block \<open>x\<close>.\<close>

fun cok :: "idxfile \<Rightarrow> frame list \<Rightarrow> nat \<Rightarrow> bool" where
  "cok F [] x \<longleftrightarrow> True"
| "cok F ((b, l, r, rs) # c) x \<longleftrightarrow>
     inner F b (map entry l @ (r, x * BLOCKSZ) # map entry rs) \<and> kok F l \<and> kok F rs \<and> cok F c b"

definition within :: "frame list \<Rightarrow> Rect set \<Rightarrow> bool" where
  "within c rects \<longleftrightarrow> (case c of [] \<Rightarrow> True | f # _ \<Rightarrow> \<forall>x\<in>rects. inside x (frect f))"

fun ccov :: "idxfile \<Rightarrow> frame list \<Rightarrow> bool" where
  "ccov F [] \<longleftrightarrow> True"
| "ccov F ((b, l, r, rs) # c) \<longleftrightarrow>
     kcov F l \<and> kcov F rs \<and> ccov F c \<and> within c (insert r (fst ` set l \<union> fst ` set rs))"

definition cbound :: "idxfile \<Rightarrow> frame list \<Rightarrow> shape \<Rightarrow> bool" where
  "cbound F c t \<longleftrightarrow> (case c of [] \<Rightarrow> True | f # _ \<Rightarrow> bound F t (frect f))"

lemma within_simps [simp]: "within [] R" "within (f # c) R \<longleftrightarrow> (\<forall>x\<in>R. inside x (frect f))"
  by (simp_all add: within_def)

lemma cbound_simps [simp]: "cbound F [] t" "cbound F (f # c) t = bound F t (frect f)"
  by (simp_all add: cbound_def)

lemma within_compose: "within c {compose a b} \<Longrightarrow> within c {a, b}"
  by (cases c) (auto dest: compose_insideD)

lemma plug_append: "plug (c @ d) t = plug d (plug c t)"
  by (induction c t rule: plug.induct) auto

lemma blk_plug [simp]: "blk (plug c t) = rootblk c (blk t)"
  by (induction c t rule: plug.induct) auto

lemma plug_ok: "ok F (plug c t) \<longleftrightarrow> ok F t \<and> cok F c (blk t)"
  by (induction c t rule: plug.induct) auto

lemma bound_SNode_cbound: "cbound F c (SNode b ks) \<longleftrightarrow> within c (fst ` set ks)"
  by (cases c) auto

lemma plug_covers: "covers F (plug c t) \<longleftrightarrow> covers F t \<and> ccov F c \<and> cbound F c t"
proof (induction c t rule: plug.induct)
  case (1 t)
  show ?case by simp
next
  case (2 b l r rs c t)
  have "fst ` set (l @ (r, t) # rs) = insert r (fst ` set l \<union> fst ` set rs)" by auto
  then show ?case using 2 by (auto simp: bound_SNode_cbound)
qed

lemma plug_blocks: "mset (blocks (plug c t)) = mset (blocks t) + mset (cblocks c)"
  by (induction c t rule: plug.induct) auto

lemma plug_leaves: "mset (leaves (plug c t)) = mset (leaves t) + mset (cleaves c)"
  by (induction c t rule: plug.induct) auto

lemma plug_items: "mset (items F (plug c t)) = mset (items F t) + mset (citems F c)"
  by (induction c t rule: plug.induct) auto

lemma rootblk_in: "rootblk c x \<in> insert x (set (cblocks c))"
  by (induction c x rule: rootblk.induct) auto

lemma fst_cblocks: "set (map fst c) \<subseteq> set (cblocks c)"
  by (induction c rule: cblocks.induct) auto

lemma cleaves_cblocks: "set (cleaves c) \<subseteq> set (cblocks c)"
  by (induction c rule: cblocks.induct) (use leaves_blocks in force)+

lemma kids_cong:
  assumes "\<forall>x\<in>set (kblocks ks). content F' x = content F x"
  shows "kok F' ks = kok F ks" and "kcov F' ks = kcov F ks" and "kitems F' ks = kitems F ks"
proof -
  have t: "\<forall>x\<in>set (blocks t). content F' x = content F x" if "(r, t) \<in> set ks" for r t
    using assms that by force
  then show "kok F' ks = kok F ks" "kcov F' ks = kcov F ks"
    using frame_ok(1,3,4) by (smt (verit) case_prodD case_prodI2)+
  show "kitems F' ks = kitems F ks"
    using t frame_ok(2) by (intro arg_cong [where f = concat] map_cong) auto
qed

lemma path_cong:
  assumes "\<forall>x\<in>set (cblocks c). content F' x = content F x"
  shows "cok F' c y = cok F c y" and "ccov F' c = ccov F c" and "citems F' c = citems F c"
proof -
  have "(\<forall>y. cok F' c y = cok F c y) \<and> ccov F' c = ccov F c \<and> citems F' c = citems F c"
    using assms
  proof (induction c rule: cblocks.induct)
    case 1
    show ?case by simp
  next
    case (2 b l r rs c)
    have x: "\<forall>x\<in>set (kblocks l). content F' x = content F x" "\<forall>x\<in>set (kblocks rs). content F' x = content F x"
      "content F' b = content F b" "\<forall>x\<in>set (cblocks c). content F' x = content F x" using 2(2) by auto
    note k = kids_cong [OF x(1)] kids_cong [OF x(2)]
    have "cok F' ((b, l, r, rs) # c) y = cok F ((b, l, r, rs) # c) y" for y
      using k(1,4) inner_cong [OF x(3)] 2(1) [OF x(4)] by simp
    moreover have "ccov F' ((b, l, r, rs) # c) = ccov F ((b, l, r, rs) # c)" using k(2,5) 2(1) [OF x(4)] by simp
    moreover have "citems F' ((b, l, r, rs) # c) = citems F ((b, l, r, rs) # c)" using k(3,6) 2(1) [OF x(4)] by simp
    ultimately show ?case by blast
  qed
  then show "cok F' c y = cok F c y" "ccov F' c = ccov F c" "citems F' c = citems F c" by blast+
qed

section \<open>Choosing a leaf\<close>

lemma choose_loop_leaf:
  assumes "rounding fl" and "ok (index st) t" and "index st (blk t) = Some (Node (gbuf st))" and "height t \<le> fuel"
  shows "\<exists>c b g. choose_loop fl fuel mbr (blk t) anc st = Ret (b, map fst c @ anc, st\<lparr> gbuf := g \<rparr>) \<and>
     t = plug c (SLeaf b)"
  using assms(2-4)
proof (induction t arbitrary: fuel anc st rule: shape_induct)
  case (leaf b)
  have "nodetype (gbuf st) = CHR ''l''" using leaf.prems(1,2) by auto
  then have "choose_loop fl fuel mbr (blk (SLeaf b)) anc st = Ret (b, map fst [] @ anc, st\<lparr> gbuf := gbuf st \<rparr>)"
    by (simp add: choose_loop.simps)
  moreover have "SLeaf b = plug [] (SLeaf b)" by simp
  ultimately show ?case by blast
next
  case (node b ks)
  let ?n = "gbuf st"
  have n: "nodetype ?n = CHR ''n''" "node_ok ?n" "map key (used ?n) = map entry ks" "ks \<noteq> []" "kok (index st) ks"
    using node.prems(1,2) by (auto simp: inner_def)
  have len: "length (used ?n) = length ks" using arg_cong [OF n(3), of length] by simp
  obtain f where f: "fuel = Suc f" using node.prems(3) by (cases fuel) auto
  have "used ?n \<noteq> []" using len n(4) by auto
  then obtain j where j: "j < length ks" "least_enlarge fl mbr (used ?n) 0 DBL_MAX None = Some j"
    using least_enlarge_Some [OF assms(1), of "used ?n" DBL_MAX 0 None mbr] len by auto
  obtain r t where rt: "ks ! j = (r, t)" by (cases "ks ! j")
  then have k: "(r, t) \<in> set ks" using j(1) nth_mem by metis
  have "map key (used ?n) ! j = map entry ks ! j" by (simp only: n(3))
  then have "key (used ?n ! j) = entry (ks ! j)" using j(1) len by simp
  then have p: "it_ptr (slots ?n ! j) = blk t * BLOCKSZ"
    using rt used_nth [of j ?n] n(2) j(1) len by simp
  have okt: "ok (index st) t" using n(5) k by auto
  then obtain n' where n': "index st (blk t) = Some (Node n')" by (cases t) (auto simp: inner_def)
  have "height t \<le> f" using height_kid [OF k, of b] node.prems(3) f by simp
  then obtain c b' g where c: "choose_loop fl f mbr (blk t) (b # anc) (st\<lparr> gbuf := n' \<rparr>) =
      Ret (b', map fst c @ b # anc, st\<lparr> gbuf := g \<rparr>)" "t = plug c (SLeaf b')"
    using node.IH [OF k, of "st\<lparr> gbuf := n' \<rparr>" f "b # anc"] okt n' by auto
  have "choose_loop fl fuel mbr (blk (SNode b ks)) anc st = choose_loop fl f mbr (blk t) (b # anc) (st\<lparr> gbuf := n' \<rparr>)"
    using n(1) f j(2) p n' by (subst choose_loop.simps) (simp add: Let_def used_def read_blk_by_ptr_def read_blk_def)
  moreover have "SNode b ks = plug (c @ [(b, take j ks, r, drop (Suc j) ks)]) (SLeaf b')"
    using id_take_nth_drop [OF j(1)] rt c(2) by (simp add: plug_append)
  ultimately show ?case
    using c(1) by (intro exI [of _ "c @ [(b, take j ks, r, drop (Suc j) ks)]"] exI [of _ b'] exI [of _ g]) simp
qed

section \<open>Adjusting without a split\<close>

definition grown :: "frame list \<Rightarrow> frame list \<Rightarrow> bool" where
  "grown c c' \<longleftrightarrow> list_all2 (\<lambda>f f'. fst f' = fst f \<and> fst (snd f') = fst (snd f) \<and> inside (frect f) (frect f') \<and>
     snd (snd (snd f')) = snd (snd (snd f))) c c'"

lemma grown_refl [simp]: "grown c c"
  by (simp add: grown_def list.rel_refl)

lemma grown_Cons: "grown ((b, l, r, rs) # c) c' \<longleftrightarrow> (\<exists>r' d. c' = (b, l, r', rs) # d \<and> inside r r' \<and> grown c d)"
  by (auto simp: grown_def list_all2_Cons1)

lemma grown_same:
  assumes "grown c c'"
  shows "cblocks c' = cblocks c" and "cleaves c' = cleaves c" and "citems F c' = citems F c" and "rootblk c' x = rootblk c x"
    and "map fst c' = map fst c"
proof -
  have "cblocks c' = cblocks c \<and> cleaves c' = cleaves c \<and> citems F c' = citems F c \<and> (\<forall>x. rootblk c' x = rootblk c x) \<and>
      map fst c' = map fst c"
    using assms
  proof (induction c arbitrary: c' rule: cblocks.induct)
    case 1
    then show ?case by (simp add: grown_def)
  next
    case (2 b l r rs c)
    obtain r' d where c': "c' = (b, l, r', rs) # d" "grown c d" using 2(2) by (auto simp: grown_Cons)
    show ?case using 2(1) [OF c'(2)] unfolding c'(1) by simp
  qed
  then show "cblocks c' = cblocks c" "cleaves c' = cleaves c" "citems F c' = citems F c" "rootblk c' x = rootblk c x"
    "map fst c' = map fst c" by blast+
qed

lemma grown_within:
  assumes "grown c c'" and "within c R"
  shows "within c' R"
proof (cases c)
  case Nil
  then show ?thesis using assms(1) by (simp add: grown_def)
next
  case (Cons f c1)
  obtain b l r rs where f: "f = (b, l, r, rs)" by (cases f)
  obtain r' d where "c' = (b, l, r', rs) # d" "inside r r'" using assms(1) unfolding Cons f grown_Cons by blast
  then show ?thesis using assms(2) inside_trans unfolding Cons f by simp blast
qed

lemma find_ptr_at:
  assumes "map key its = xs @ (r, p) # ys" and "p \<notin> snd ` set xs"
  shows "find_ptr p its = Some (length xs)"
  using assms by (induction xs arbitrary: its) auto

lemma used_set_slot: "used (set_slot i it n) = (used n)[i := it]"
  by (simp add: used_def set_slot_def take_update_swap)

lemma set_slot_simps [simp]:
  "nodetype (set_slot i it n) = nodetype n" "counter (set_slot i it n) = counter n"
  "node_ok (set_slot i it n) = node_ok n" "nextlptr (set_slot i it n) = nextlptr n" "prevlptr (set_slot i it n) = prevlptr n"
  by (simp_all add: set_slot_def node_ok_def)

text \<open>The entry of the path at a node.\<close>

lemma inner_hole:
  assumes "inner F b (xs @ (r, p) # ys)" and "p \<notin> snd ` set xs"
  obtains n where "F b = Some (Node n)" "nodetype n = CHR ''n''" "node_ok n" "map key (used n) = xs @ (r, p) # ys"
    "find_ptr p (take (counter n) (slots n)) = Some (length xs)" "it_rect (slots n ! length xs) = r"
    "it_ptr (slots n ! length xs) = p" "length xs < counter n"
proof -
  obtain n where n: "F b = Some (Node n)" "nodetype n = CHR ''n''" "node_ok n" "map key (used n) = xs @ (r, p) # ys"
    using assms(1) by (auto simp: inner_def)
  have "length (used n) = length xs + Suc (length ys)" using arg_cong [OF n(4), of length] by simp
  then have l: "length xs < counter n" using n(3) by simp
  have "map key (used n) ! length xs = (r, p)" by (simp only: n(4) nth_append_length)
  then have "key (used n ! length xs) = (r, p)" using n(3) l by simp
  then have "it_rect (slots n ! length xs) = r" "it_ptr (slots n ! length xs) = p"
    using used_nth [OF l n(3)] by auto
  then show ?thesis using that n l find_ptr_at [OF n(4) assms(2)] by (simp add: used_def)
qed

lemma sibling_ptrs:
  assumes "x \<notin> set (kblocks ks)"
  shows "x * BLOCKSZ \<notin> snd ` set (map entry ks)"
proof
  assume "x * BLOCKSZ \<in> snd ` set (map entry ks)"
  then obtain r t where "(r, t) \<in> set ks" "x = blk t" by auto
  then show False using assms blk_in_blocks [of t] by force
qed

text \<open>Writing the node of a frame changes nothing else of the path.\<close>

lemma inner_write:
  assumes "nodetype n = CHR ''n''" and "node_ok n" and "map key (used n) = es"
  shows "inner (F(b \<mapsto> Node n)) b es"
  using assms by (simp add: inner_def)

lemma content_upd: "x \<noteq> b \<Longrightarrow> content (F(b \<mapsto> v)) x = content F x"
  by (simp add: content_def)

lemma path_frame:
  assumes "distinct (cblocks ((b, l, r, rs) # c))" and "\<forall>x. x \<notin> set (map fst c) \<longrightarrow> x \<noteq> b \<longrightarrow> F' x = F x"
  shows "kok F' l = kok F l" "kok F' rs = kok F rs" "kcov F' l = kcov F l" "kcov F' rs = kcov F rs"
proof -
  have "set (map fst c) \<subseteq> set (cblocks c)" by (rule fst_cblocks)
  then have "\<forall>x\<in>set (kblocks l). F' x = F x" "\<forall>x\<in>set (kblocks rs). F' x = F x"
    using assms(1) assms(2) by (simp_all only: cblocks.simps distinct.simps distinct_append set_append) blast+
  then have "\<forall>x\<in>set (kblocks l). content F' x = content F x" "\<forall>x\<in>set (kblocks rs). content F' x = content F x"
    using content_cong by blast+
  then show "kok F' l = kok F l" "kok F' rs = kok F rs" "kcov F' l = kcov F l" "kcov F' rs = kcov F rs"
    using kids_cong(1,2) by blast+
qed

lemma adjust_without:
  assumes "cok (index st) c cur" and "ccov (index st) c" and "distinct (cur # cblocks c)" and "rootblk c cur = 1"
    and "length (slots (gbuf st)) = MAX_ENTRIES"
  shows "\<exists>F g c'. adjust_tree_without_split cur mbr (map fst c) st = Some (st\<lparr> index := F, gbuf := g \<rparr>) \<and>
     length (slots g) = MAX_ENTRIES \<and> grown c c' \<and> cok F c' cur \<and> ccov F c' \<and> within c' {mbr} \<and>
     (\<forall>x. x \<notin> set (map fst c) \<longrightarrow> F x = index st x)"
  using assms
proof (induction c arbitrary: st cur mbr)
  case Nil
  then show ?case by (auto intro!: exI [of _ "index st"] exI [of _ "gbuf st"] exI [of _ "[]"])
next
  case (Cons f c)
  obtain b l r rs where f: "f = (b, l, r, rs)" by (cases f)
  have d: "distinct (cblocks ((b, l, r, rs) # c))" "cur \<notin> set (cblocks ((b, l, r, rs) # c))"
    using Cons.prems(3) f by auto
  have db: "distinct (b # cblocks c)" "b \<notin> set (map fst c)" using d(1) fst_cblocks [of c] by auto
  have root: "rootblk c b = 1" using Cons.prems(4) f by simp
  then have c1: "cur \<noteq> 1" using rootblk_in [of c b] d(2) by auto
  have inn: "inner (index st) b (map entry l @ (r, cur * BLOCKSZ) # map entry rs)" and sib: "kok (index st) l" "kok (index st) rs"
    and cc: "cok (index st) c b" using Cons.prems(1) f by auto
  have cv: "kcov (index st) l" "kcov (index st) rs" "ccov (index st) c"
    "within c (insert r (fst ` set l \<union> fst ` set rs))" using Cons.prems(2) f by auto
  have ps: "cur * BLOCKSZ \<notin> snd ` set (map entry l)" by (rule sibling_ptrs) (use d(2) in auto)
  obtain n where n: "index st b = Some (Node n)" "nodetype n = CHR ''n''" "node_ok n"
    "map key (used n) = map entry l @ (r, cur * BLOCKSZ) # map entry rs"
    "find_ptr (cur * BLOCKSZ) (take (counter n) (slots n)) = Some (length l)" "it_rect (slots n ! length l) = r"
    "it_ptr (slots n ! length l) = cur * BLOCKSZ" "length l < counter n"
    by (rule inner_hole [OF inn ps]) auto
  let ?cr = "compose r mbr"
  show ?case
  proof (cases "?cr = r")
    case True
    then have m: "inside mbr r" by (rule compose_eq_inside)
    have "adjust_tree_without_split cur mbr (map fst (f # c)) st = Some (st\<lparr> index := index st, gbuf := n \<rparr>)"
      using c1 n(1,5,6) True f by (simp add: read_blk_def Let_def)
    then show ?thesis
      using n(3) m Cons.prems(1,2) f
      by (intro exI [of _ "index st"] exI [of _ n] exI [of _ "f # c"]) (simp add: node_ok_def)
  next
    case False
    let ?n = "set_slot (length l) ((slots n ! length l)\<lparr> it_rect := ?cr \<rparr>) n"
    let ?st = "write_blk b ?n (st\<lparr> gbuf := ?n \<rparr>)"
    have step: "adjust_tree_without_split cur mbr (map fst (f # c)) st = adjust_tree_without_split b ?cr (map fst c) ?st"
      using c1 n(1,5,6) False f by (simp add: read_blk_def Let_def)
    have upd: "\<forall>x\<in>set (cblocks c). content (index ?st) x = content (index st) x"
      using db(1) by (auto simp: write_blk_def intro!: content_upd)
    have "cok (index ?st) c b" "ccov (index ?st) c" "length (slots (gbuf ?st)) = MAX_ENTRIES"
      using path_cong(1,2) [OF upd] cc cv(3) n(3) by (simp_all add: write_blk_def set_slot_def node_ok_def)
    from Cons.IH [OF this(1,2) db(1) root this(3), of ?cr]
    obtain F g c' where ih: "adjust_tree_without_split b ?cr (map fst c) ?st = Some (?st\<lparr> index := F, gbuf := g \<rparr>)"
      "length (slots g) = MAX_ENTRIES" "grown c c'" "cok F c' b" "ccov F c'" "within c' {?cr}"
      "\<forall>x. x \<notin> set (map fst c) \<longrightarrow> F x = index ?st x" by blast
    have fr: "\<forall>x. x \<notin> set (map fst c) \<longrightarrow> x \<noteq> b \<longrightarrow> F x = index st x"
      using ih(7) by (auto simp: write_blk_def)
    note same = path_frame [OF d(1) fr]
    have "map key (used ?n) = map entry l @ (?cr, cur * BLOCKSZ) # map entry rs"
      using n(7) by (simp add: used_set_slot map_update n(4) list_update_append)
    moreover have "F b = Some (Node ?n)" using ih(7) db(2) by (simp add: write_blk_def)
    ultimately have "inner F b (map entry l @ (?cr, cur * BLOCKSZ) # map entry rs)"
      using n(2,3) by (simp add: inner_def)
    then have "cok F ((b, l, ?cr, rs) # c') cur" using sib same(1,2) ih(4) by simp
    moreover have "ccov F ((b, l, ?cr, rs) # c')"
      using cv(1,2) same(3,4) ih(5,6) grown_within [OF ih(3) cv(4)] by (cases c') auto
    moreover have "grown (f # c) ((b, l, ?cr, rs) # c')" using ih(3) by (simp add: f grown_Cons)
    moreover have "\<forall>x. x \<notin> set (map fst (f # c)) \<longrightarrow> F x = index st x" using fr f by auto
    moreover have "?st\<lparr> index := F, gbuf := g \<rparr> = st\<lparr> index := F, gbuf := g \<rparr>" by (simp add: write_blk_def)
    ultimately show ?thesis
      using step ih(1,2) by (intro exI [of _ F] exI [of _ g] exI [of _ "(b, l, ?cr, rs) # c'"]) simp
  qed
qed

section \<open>Adjusting with a split\<close>

lemma map_perm:
  assumes "mset es = mset (map f ks)"
  shows "\<exists>ks'. mset ks' = mset ks \<and> map f ks' = es"
  using assms
proof (induction es arbitrary: ks)
  case Nil
  then show ?case by simp
next
  case (Cons e es)
  have "e \<in> set (map f ks)" using arg_cong [OF Cons.prems, of set_mset] by auto
  then obtain k where "k \<in> set ks" "e = f k" by auto
  then obtain l r where ks: "ks = l @ k # r" "e = f k" by (meson split_list)
  have "mset es = mset (map f (l @ r))" using Cons.prems ks by simp
  then obtain ks' where "mset ks' = mset (l @ r)" "map f ks' = es" using Cons.IH by blast
  then show ?case using ks by (intro exI [of _ "k # ks'"]) simp
qed

lemma mset_concat_map: "mset (concat (map f ks)) = (\<Sum>k\<in>#mset ks. mset (f k))"
  by (induction ks) auto

lemma halves_kids:
  assumes "halves its a b ca cb" and "keys its = mset (map entry ks)"
  obtains ka kb where "mset ka + mset kb = mset ks" "map key (used a) = map entry ka" "map key (used b) = map entry kb"
    "ka \<noteq> []" "kb \<noteq> []" "\<forall>k\<in>set ka. inside (fst k) ca" "\<forall>k\<in>set kb. inside (fst k) cb"
proof -
  have "mset (map key (used a) @ map key (used b)) = mset (map entry ks)"
    using assms by (simp add: halves_def)
  from map_perm [OF this] obtain ks' where ks': "mset ks' = mset ks" "map entry ks' = map key (used a) @ map key (used b)"
    by blast
  obtain ka kb where k: "ks' = ka @ kb" "map entry ka = map key (used a)" "map entry kb = map key (used b)"
    using ks'(2) by (auto simp: map_eq_append_conv)
  have "set (map fst ka) = it_rect ` set (used a)" "set (map fst kb) = it_rect ` set (used b)"
    using arg_cong [OF k(2), of "\<lambda>xs. set (map fst xs)"] arg_cong [OF k(3), of "\<lambda>xs. set (map fst xs)"]
    by (simp_all add: image_image)
  then have "\<forall>k\<in>set ka. inside (fst k) ca" "\<forall>k\<in>set kb. inside (fst k) cb"
    using assms(1) unfolding halves_def by (auto simp: image_iff set_eq_iff) (metis fst_conv)+
  moreover have "ka \<noteq> []" "kb \<noteq> []" using assms(1) k(2,3) by (auto simp: halves_def)
  ultimately show ?thesis using that [of ka kb] ks'(1) k by simp
qed

lemma insert_pair_keys:
  assumes "node_ok n" and "counter n < MAX_ENTRIES" and "map key (used n) = xs @ (r, p) # ys"
  shows "node_ok (insert_pair (length xs) r0 p0 r1 p1 n)"
    and "map key (used (insert_pair (length xs) r0 p0 r1 p1 n)) = xs @ (r0, p0) # (r1, p1) # ys"
    and "nodetype (insert_pair (length xs) r0 p0 r1 p1 n) = nodetype n"
proof -
  let ?i = "length xs" and ?s = "slots n" and ?c = "counter n"
  have c: "?c = ?i + Suc (length ys)" using arg_cong [OF assms(3), of length] assms(1) by simp
  have k: "map key (take ?i ?s) = xs" "map key (take (?c - Suc ?i) (drop (Suc ?i) ?s)) = ys"
    using arg_cong [OF assms(3), of "take ?i"] arg_cong [OF assms(3), of "drop (Suc ?i)"] c
    by (simp_all add: used_def take_map drop_map drop_take)
  show "node_ok (insert_pair ?i r0 p0 r1 p1 n)"
    using assms(1,2) c by (simp add: node_ok_def insert_pair_def Let_def)
  have "used (insert_pair ?i r0 p0 r1 p1 n) =
      take ?i ?s @ [set_entry r0 p0 (?s ! ?i), set_entry r1 p1 (?s ! Suc ?i)] @ take (?c - Suc ?i) (drop (Suc ?i) ?s)"
    using assms(1,2) c by (simp add: used_def insert_pair_def Let_def node_ok_def)
  then show "map key (used (insert_pair ?i r0 p0 r1 p1 n)) = xs @ (r0, p0) # (r1, p1) # ys"
    using k by (simp add: set_entry_def)
  show "nodetype (insert_pair ?i r0 p0 r1 p1 n) = nodetype n" by (simp add: insert_pair_def Let_def)
qed

lemma adjust_root:
  assumes "glob st" and "ok (index st) t0" "ok (index st) t1" "covers (index st) t0" "covers (index st) t1"
    and "bound (index st) t0 (coverr0 st)" "bound (index st) t1 (coverr1 st)" "blkno0 st = blk t0" "blkno1 st = blk t1"
    and "1 \<notin> set (blocks t0)" "1 \<notin> set (blocks t1)"
  shows "\<exists>n. new_root st = write_blk 1 n (st\<lparr> gbuf := n \<rparr>) \<and> length (slots n) = MAX_ENTRIES \<and>
     ok (index (new_root st)) (SNode 1 [(coverr0 st, t0), (coverr1 st, t1)]) \<and>
     covers (index (new_root st)) (SNode 1 [(coverr0 st, t0), (coverr1 st, t1)])"
proof -
  have len: "length (slots (gbuf st)) = MAX_ENTRIES" "2 \<le> length (slots (gbuf st))"
    using assms(1) by (simp_all add: glob_def MAX_ENTRIES_val)
  obtain s0 ys where ys: "slots (gbuf st) = s0 # ys" using len(2) by (cases "slots (gbuf st)") auto
  obtain s1 ss where "ys = s1 # ss" using len(2) ys by (cases ys) auto
  then have s: "slots (gbuf st) = s0 # s1 # ss" "length ss + 2 = MAX_ENTRIES" using len(1) ys by simp_all
  obtain n where n: "new_root st = write_blk 1 n (st\<lparr> gbuf := n \<rparr>)" "node_ok n" "nodetype n = CHR ''n''"
    "map key (used n) = [(coverr0 st, blk t0 * BLOCKSZ), (coverr1 st, blk t1 * BLOCKSZ)]"
    using s assms(8,9) by (auto simp: new_root_def Let_def set_slot_def node_ok_def used_def)
  have F: "index (new_root st) = (index st)(1 \<mapsto> Node n)" by (simp add: n(1) write_blk_def)
  have fr: "\<forall>b\<in>set (blocks t0). content (index (new_root st)) b = content (index st) b"
    "\<forall>b\<in>set (blocks t1). content (index (new_root st)) b = content (index st) b"
    using assms(10,11) unfolding F by (auto intro!: content_upd)
  have "inner (index (new_root st)) 1 [(coverr0 st, blk t0 * BLOCKSZ), (coverr1 st, blk t1 * BLOCKSZ)]"
    unfolding F using n(2-4) by (intro inner_write)
  then show ?thesis
    using n(1,2) assms(2-7) frame_ok [OF fr(1)] frame_ok [OF fr(2)] by (auto simp: node_ok_def)
qed

text \<open>The tree \<open>t\<close> is in the file, and the blocks \<open>X\<close> are in use beside it.\<close>

definition rt_tree :: "rtree \<Rightarrow> nat set \<Rightarrow> shape \<Rightarrow> bool" where
  "rt_tree st X t \<longleftrightarrow> blk t = 1 \<and> ok (index st) t \<and> covers (index st) t \<and> distinct (blocks t) \<and>
     X \<inter> set (blocks t) = {} \<and> space st (X \<union> set (blocks t)) \<and> glob st"

text \<open>
  The child \<open>cur\<close> at the end of the path has been split into \<open>t0\<close> and \<open>t1\<close>, but the node above still
  points to it.
\<close>

definition pending :: "rtree \<Rightarrow> nat set \<Rightarrow> frame list \<Rightarrow> nat \<Rightarrow> shape \<Rightarrow> shape \<Rightarrow> bool" where
  "pending st X c cur t0 t1 \<longleftrightarrow>
     cok (index st) c cur \<and> ccov (index st) c \<and> rootblk c cur = 1 \<and>
     distinct (cur # blocks t0 @ blocks t1 @ cblocks c) \<and> X \<inter> set (cur # blocks t0 @ blocks t1 @ cblocks c) = {} \<and>
     space st (X \<union> set (cur # blocks t0 @ blocks t1 @ cblocks c)) \<and> glob st \<and>
     (\<exists>m. index st cur = Some (Node m) \<and> length (slots m) = MAX_ENTRIES) \<and>
     ok (index st) t0 \<and> ok (index st) t1 \<and> covers (index st) t0 \<and> covers (index st) t1 \<and>
     bound (index st) t0 (coverr0 st) \<and> bound (index st) t1 (coverr1 st) \<and> blkno0 st = blk t0 \<and> blkno1 st = blk t1"

lemma glob_gbuf: "glob st \<Longrightarrow> length (slots g) = MAX_ENTRIES \<Longrightarrow> glob (st\<lparr> index := F, gbuf := g \<rparr>)"
  by (simp add: glob_def)

lemma rt_tree_free:
  assumes "rt_tree st (insert cur X) t" and "cur \<notin> X" and "index st cur = Some (Node m)" and "length (slots m) = MAX_ENTRIES"
  shows "\<exists>st'. free_block 0 cur st = Some st' \<and> rt_tree st' X t \<and> rt_lptr st' = rt_lptr st \<and>
     (\<forall>x. x \<noteq> cur \<longrightarrow> index st' x = index st x)"
proof -
  have t: "blk t = 1" "cur \<notin> set (blocks t)" "space st (insert cur X \<union> set (blocks t))" using assms(1) by (auto simp: rt_tree_def)
  then have c1: "cur \<noteq> 1" using blk_in_blocks [of t] by auto
  have "cur \<in> insert cur X \<union> set (blocks t)" by simp
  from free_block_space [OF t(3) this c1 assms(3,4)]
  obtain F where F: "free_block 0 cur st = Some (st\<lparr> index := F, fb_ind := cur \<rparr>)"
    "space (st\<lparr> index := F, fb_ind := cur \<rparr>) (insert cur X \<union> set (blocks t) - {cur})"
    "\<forall>x. x \<noteq> cur \<longrightarrow> F x = index st x" by blast
  have "insert cur X \<union> set (blocks t) - {cur} = X \<union> set (blocks t)" using assms(2) t(2) by auto
  moreover have "\<forall>b\<in>set (blocks t). content F b = content (index st) b" using F(3) t(2) content_cong by metis
  from frame_ok [OF this] have "ok F t" "covers F t" using assms(1) by (simp_all add: rt_tree_def)
  moreover have "glob (st\<lparr> index := F, fb_ind := cur \<rparr>)" using assms(1) by (simp add: rt_tree_def glob_def)
  ultimately have "rt_tree (st\<lparr> index := F, fb_ind := cur \<rparr>) X t"
    using assms(1) F(2) by (auto simp: rt_tree_def)
  then show ?thesis using F(1,3) by auto
qed

lemma distinct_parts:
  assumes "distinct (a # xs @ ys @ zs)"
  shows "set xs \<inter> set zs = {}" "set ys \<inter> set zs = {}" "set xs \<inter> set ys = {}" "a \<notin> set xs" "a \<notin> set ys" "a \<notin> set zs"
    "distinct xs" "distinct ys" "distinct zs" "distinct (xs @ ys @ zs)"
  using assms by auto

text \<open>The parent has room for both halves.\<close>

lemma adjust_with_room:
  assumes p: "pending st X ((b, l, r, rs) # c) cur t0 t1" and n: "index st b = Some (Node n)" "node_ok n"
    "nodetype n = CHR ''n''" "map key (used n) = map entry l @ (r, cur * BLOCKSZ) # map entry rs" "counter n < MAX_ENTRIES"
  defines "n' \<equiv> insert_pair (length l) (coverr0 st) (blkno0 st * BLOCKSZ) (coverr1 st) (blkno1 st * BLOCKSZ) n"
  shows "\<exists>st' t'. adjust_tree_without_split b (compose (coverr0 st) (coverr1 st)) (map fst c)
       (write_blk b n' (st\<lparr> gbuf := n' \<rparr>)) = Some st' \<and> rt_tree st' (insert cur X) t' \<and> rt_lptr st' = rt_lptr st \<and>
     mset (leaves t') = mset (leaves t0 @ leaves t1 @ cleaves ((b, l, r, rs) # c)) \<and>
     (\<forall>x. x \<notin> set (map fst ((b, l, r, rs) # c)) \<longrightarrow> index st' x = index st x)"
proof -
  let ?F = "index st" and ?c0 = "coverr0 st" and ?c1 = "coverr1 st"
  let ?ks = "l @ (?c0, t0) # (?c1, t1) # rs" and ?st = "write_blk b n' (st\<lparr> gbuf := n' \<rparr>)"
  have pd: "cok ?F c b" "ccov ?F c" "rootblk c b = 1" "kok ?F l" "kok ?F rs" "kcov ?F l" "kcov ?F rs"
    "within c (insert r (fst ` set l \<union> fst ` set rs))" "glob st"
    "ok ?F t0" "ok ?F t1" "covers ?F t0" "covers ?F t1" "bound ?F t0 ?c0" "bound ?F t1 ?c1" "blkno0 st = blk t0" "blkno1 st = blk t1"
    using p by (auto simp: pending_def)
  have dd: "distinct (cur # blocks t0 @ blocks t1 @ cblocks ((b, l, r, rs) # c))"
    "X \<inter> set (cur # blocks t0 @ blocks t1 @ cblocks ((b, l, r, rs) # c)) = {}"
    "space st (X \<union> set (cur # blocks t0 @ blocks t1 @ cblocks ((b, l, r, rs) # c)))"
    using p unfolding pending_def by blast+
  have n': "node_ok n'" "nodetype n' = CHR ''n''" "map key (used n') = map entry ?ks"
    using insert_pair_keys [OF n(2,5,4), of ?c0 "blkno0 st * BLOCKSZ" ?c1 "blkno1 st * BLOCKSZ"] n(3) pd(16,17)
    by (simp_all add: n'_def)
  have upd: "\<forall>x\<in>set (cblocks c). content (index ?st) x = content ?F x"
    using dd(1) by (auto simp: write_blk_def intro!: content_upd)
  have pre: "cok (index ?st) c b" "ccov (index ?st) c" "distinct (b # cblocks c)" "length (slots (gbuf ?st)) = MAX_ENTRIES"
    using path_cong(1,2) [OF upd] pd(1,2) dd(1) n'(1) by (simp_all add: write_blk_def node_ok_def)
  obtain F g c' where a: "adjust_tree_without_split b (compose ?c0 ?c1) (map fst c) ?st = Some (?st\<lparr> index := F, gbuf := g \<rparr>)"
    "length (slots g) = MAX_ENTRIES" "grown c c'" "cok F c' b" "ccov F c'" "within c' {compose ?c0 ?c1}"
    "\<forall>x. x \<notin> set (map fst c) \<longrightarrow> F x = index ?st x"
    using adjust_without [OF pre(1-3) pd(3) pre(4), of "compose ?c0 ?c1"] by blast
  have ss: "?st\<lparr> index := F, gbuf := g \<rparr> = st\<lparr> index := F, gbuf := g \<rparr>" by (simp add: write_blk_def)
  have fr: "\<forall>x. x \<notin> set (map fst c) \<longrightarrow> x \<noteq> b \<longrightarrow> F x = ?F x" using a(7) by (auto simp: write_blk_def)
  have fc: "set (map fst c) \<subseteq> set (cblocks c)" by (rule fst_cblocks)
  note dp = distinct_parts [OF dd(1)]
  note same = path_frame [OF dp(9) fr]
  have bc: "b \<notin> set (map fst c)" using dp(9) fc by auto
  have fr2: "\<forall>x. x \<notin> set (cblocks ((b, l, r, rs) # c)) \<longrightarrow> F x = ?F x" using fr fc by auto
  then have "\<forall>x\<in>set (blocks t0). F x = ?F x" "\<forall>x\<in>set (blocks t1). F x = ?F x" using dp(1,2) by blast+
  then have "\<forall>x\<in>set (blocks t0). content F x = content ?F x" "\<forall>x\<in>set (blocks t1). content F x = content ?F x"
    using content_cong by blast+
  note t01 = frame_ok [OF this(1)] frame_ok [OF this(2)]
  let ?t = "plug c' (SNode b ?ks)"
  have "F b = Some (Node n')" using a(7) bc by (simp add: write_blk_def)
  then have "ok F (SNode b ?ks)" using n' same(1,2) pd(4,5,10,11) t01(1,5) by (auto simp: inner_def)
  then have okt: "ok F ?t" using a(4) by (simp add: plug_ok)
  have "within c' (insert r (fst ` set l \<union> fst ` set rs))" by (rule grown_within [OF a(3) pd(8)])
  moreover have "within c' {?c0, ?c1}" by (rule within_compose [OF a(6)])
  ultimately have "within c' (fst ` set ?ks)" by (cases c') auto
  then have cvt: "covers F ?t"
    using same(3,4) pd(6,7,12-15) t01(3,4,7,8) a(5) by (auto simp: plug_covers bound_SNode_cbound)
  have bl: "mset (blocks ?t) = mset (blocks t0 @ blocks t1 @ cblocks ((b, l, r, rs) # c))"
    using grown_same(1) [OF a(3)] by (simp add: plug_blocks)
  then have "set (blocks ?t) = set (blocks t0 @ blocks t1 @ cblocks ((b, l, r, rs) # c))" "distinct (blocks ?t)"
    using mset_eq_setD [OF bl] mset_eq_imp_distinct_iff [OF bl] dp(10) by blast+
  note bs = this
  have "insert cur X \<union> set (blocks ?t) = X \<union> set (cur # blocks t0 @ blocks t1 @ cblocks ((b, l, r, rs) # c))"
    unfolding bs by auto
  then have "space (st\<lparr> index := F, gbuf := g \<rparr>) (insert cur X \<union> set (blocks ?t))"
    using space_index [OF dd(3), of "st\<lparr> index := F, gbuf := g \<rparr>"] fr2 by simp
  moreover have "insert cur X \<inter> set (blocks ?t) = {}" using dp(4-6) dd(2) unfolding bs by simp
  moreover have "blk ?t = 1" using pd(3) grown_same(4) [OF a(3)] by simp
  ultimately have "rt_tree (st\<lparr> index := F, gbuf := g \<rparr>) (insert cur X) ?t"
    using okt cvt bs(2) glob_gbuf [OF pd(9) a(2)] unfolding rt_tree_def by simp
  moreover have "mset (leaves ?t) = mset (leaves t0 @ leaves t1 @ cleaves ((b, l, r, rs) # c))"
    using grown_same(2) [OF a(3)] by (simp add: plug_leaves)
  ultimately show ?thesis
    using a(1) fr unfolding ss by (intro exI [of _ "st\<lparr> index := F, gbuf := g \<rparr>"] exI [of _ ?t]) auto
qed

text \<open>The parent is full and is split as well: its halves are pending one level up.\<close>

lemma adjust_with_full:
  assumes rd: "rounding fl" and p: "pending st X ((b, l, r, rs) # c) cur t0 t1" and n: "index st b = Some (Node n)" "node_ok n"
    "nodetype n = CHR ''n''" "map key (used n) = map entry l @ (r, cur * BLOCKSZ) # map entry rs" "counter n = MAX_ENTRIES"
  shows "\<exists>st1 st2 T0 T1. update_block_entry b (length l) (coverr0 st) (blkno0 st * BLOCKSZ) (st\<lparr> gbuf := n \<rparr>) = Some st1 \<and>
     split_node fl b (coverr1 st) (blkno1 st * BLOCKSZ) CHR ''n'' (blkno0 st * BLOCKSZ) (blkno1 st * BLOCKSZ) st1 = Some st2 \<and>
     pending st2 (insert cur X) c b T0 T1 \<and> rt_lptr st2 = rt_lptr st \<and>
     mset (leaves T0 @ leaves T1 @ cleaves c) = mset (leaves t0 @ leaves t1 @ cleaves ((b, l, r, rs) # c)) \<and>
     (\<forall>x\<in>X \<union> {cur} \<union> set (blocks t0) \<union> set (blocks t1) \<union> set (kblocks l) \<union> set (kblocks rs) \<union> set (cblocks c).
        index st2 x = index st x)"
proof -
  let ?F = "index st" and ?c0 = "coverr0 st" and ?c1 = "coverr1 st" and ?B = "X \<union> set (cur # blocks t0 @ blocks t1 @ cblocks ((b, l, r, rs) # c))"
  let ?n = "set_slot (length l) (set_entry ?c0 (blkno0 st * BLOCKSZ) (slots n ! length l)) n"
  let ?st1 = "write_blk b ?n (st\<lparr> gbuf := n \<rparr>)"
  let ?ks = "(?c1, t1) # l @ (?c0, t0) # rs"
  have pd: "cok ?F c b" "ccov ?F c" "rootblk c b = 1" "kok ?F l" "kok ?F rs" "kcov ?F l" "kcov ?F rs" "glob st"
    "ok ?F t0" "ok ?F t1" "covers ?F t0" "covers ?F t1" "bound ?F t0 ?c0" "bound ?F t1 ?c1" "blkno0 st = blk t0" "blkno1 st = blk t1"
    using p by (auto simp: pending_def)
  have dd: "distinct (cur # blocks t0 @ blocks t1 @ cblocks ((b, l, r, rs) # c))"
    "X \<inter> set (cur # blocks t0 @ blocks t1 @ cblocks ((b, l, r, rs) # c)) = {}" "space st ?B"
    using p unfolding pending_def by blast+
  note dp = distinct_parts [OF dd(1)]
  have u1: "update_block_entry b (length l) ?c0 (blkno0 st * BLOCKSZ) (st\<lparr> gbuf := n \<rparr>) = Some ?st1"
    using n(1) by (simp add: update_block_entry_def read_blk_def)
  have k1: "map key (used ?n) = map entry l @ (?c0, blk t0 * BLOCKSZ) # map entry rs"
    using pd(15) by (simp add: used_set_slot map_update n(4) list_update_append set_entry_def)
  have s1: "index ?st1 b = Some (Node ?n)" "node_ok ?n" using n(2) by (simp_all add: write_blk_def)
  have gl: "glob ?st1" using n(2) pd(8) by (simp add: write_blk_def node_ok_def glob_def)
  have sp1: "space ?st1 ?B" using space_index [OF dd(3), of ?st1] by (auto simp: write_blk_def)
  obtain st2 a b' b0 b1 where s2: "split_node fl b ?c1 (blkno1 st * BLOCKSZ) CHR ''n'' (blkno0 st * BLOCKSZ) (blkno1 st * BLOCKSZ) ?st1 = Some st2"
    "halves (set_entry ?c1 (blkno1 st * BLOCKSZ) (itembuf ?st1 ! 0) # slots ?n) a b' (coverr0 st2) (coverr1 st2)"
    "index st2 = (index ?st1)(b0 \<mapsto> Node a, b1 \<mapsto> Node b')" "b0 \<notin> ?B" "b1 \<notin> ?B" "b0 \<noteq> b1"
    "space st2 (insert b0 (insert b1 ?B))" "glob st2" "blkno0 st2 = b0" "blkno1 st2 = b1" "rt_lptr st2 = rt_lptr ?st1"
    "nodetype a = CHR ''n''" "nodetype b' = CHR ''n''"
    by (rule split_node_halves [OF rd s1 gl sp1, where mbr = ?c1 and p = "blkno1 st * BLOCKSZ" and ty = "CHR ''n''"
          and ?ptr0.0 = "blkno0 st * BLOCKSZ" and ?ptr1.0 = "blkno1 st * BLOCKSZ"]) (rule that; assumption)
  have "slots ?n = used ?n" using n(2,5) by (simp add: used_def node_ok_def set_slot_def)
  then have "keys (set_entry ?c1 (blkno1 st * BLOCKSZ) (itembuf ?st1 ! 0) # slots ?n) = mset (map entry ?ks)"
    using k1 pd(16) by (simp add: set_entry_def flip: mset_map)
  then obtain ka kb where k: "mset ka + mset kb = mset ?ks" "map key (used a) = map entry ka"
    "map key (used b') = map entry kb" "ka \<noteq> []" "kb \<noteq> []" "\<forall>k\<in>set ka. inside (fst k) (coverr0 st2)"
    "\<forall>k\<in>set kb. inside (fst k) (coverr1 st2)" by (rule halves_kids [OF s2(2)]) (rule that; assumption)
  let ?G = "index st2"
  have fr: "?G x = ?F x" if "x \<in> ?B" "x \<noteq> b" for x using that s2(3-5) by (auto simp: write_blk_def)
  have Gb: "?G b = Some (Node ?n)" using s2(3-5) s1(1) by (auto simp: write_blk_def)
  have cb: "b \<notin> set (kblocks l)" "b \<notin> set (kblocks rs)" "b \<notin> set (cblocks c)" "b \<noteq> cur" "b \<notin> set (blocks t0)" "b \<notin> set (blocks t1)" "b \<notin> X"
    using dp(1,2,6,9) dd(2) by auto
  have kbl: "set (kblocks ?ks) \<subseteq> ?B" "b \<notin> set (kblocks ?ks)" using cb by auto
  then have kfr: "\<forall>x\<in>set (kblocks ?ks). content ?G x = content ?F x" using fr content_cong by blast
  have kF: "kok ?F ?ks" "kcov ?F ?ks" using pd(4-7,9-14) by auto
  have kk: "kok ?G ?ks" "kcov ?G ?ks"
    by (rule iffD2 [OF kids_cong(1) [OF kfr] kF(1)], rule iffD2 [OF kids_cong(2) [OF kfr] kF(2)])
  have sks: "set ka \<union> set kb = set ?ks" using arg_cong [OF k(1), of set_mset] by simp
  let ?T0 = "SNode b0 ka" and ?T1 = "SNode b1 kb"
  have hv: "node_ok a" "node_ok b'" using s2(2) by (simp_all add: halves_def)
  have sub: "set ka \<subseteq> set ?ks" "set kb \<subseteq> set ?ks" using sks by blast+
  have kab: "kok ?G ka" "kok ?G kb" "kcov ?G ka" "kcov ?G kb" using kk sub by blast+
  have "?G b0 = Some (Node a)" "?G b1 = Some (Node b')" using s2(3,6) by simp_all
  then have "inner ?G b0 (map entry ka)" "inner ?G b1 (map entry kb)"
    using s2(12,13) hv k(2,3) by (simp_all add: inner_def)
  then have ok01: "ok ?G ?T0" "ok ?G ?T1" using kab(1,2) k(4,5) by simp_all
  have cv01: "covers ?G ?T0" "covers ?G ?T1" using kab(3,4) by simp_all
  have bd01: "bound ?G ?T0 (coverr0 st2)" "bound ?G ?T1 (coverr1 st2)" using k(6,7) by simp_all
  have bl: "mset (blocks ?T0 @ blocks ?T1 @ cblocks c) = mset (b0 # b1 # blocks t0 @ blocks t1 @ kblocks l @ kblocks rs @ cblocks c)"
    using arg_cong [OF k(1), of "\<lambda>M. \<Sum>k\<in>#M. mset (blocks (snd k))"]
    by (simp add: mset_concat_map case_prod_unfold add_ac)
  have lv: "mset (leaves ?T0 @ leaves ?T1 @ cleaves c) = mset (leaves t0 @ leaves t1 @ cleaves ((b, l, r, rs) # c))"
    using arg_cong [OF k(1), of "\<lambda>M. \<Sum>k\<in>#M. mset (leaves (snd k))"]
    by (simp add: mset_concat_map case_prod_unfold add_ac)
  let ?R = "b0 # b1 # blocks t0 @ blocks t1 @ kblocks l @ kblocks rs @ cblocks c"
  have "distinct ?R" using dp(10) s2(4-6) by auto
  then have d01: "distinct (blocks ?T0 @ blocks ?T1 @ cblocks c)" using mset_eq_imp_distinct_iff [OF bl] by blast
  have r01: "set (blocks ?T0 @ blocks ?T1 @ cblocks c) = set ?R" by (rule mset_eq_setD [OF bl])
  have bR: "b \<notin> set ?R" using cb s2(4,5) by auto
  have r01': "set (b # blocks ?T0 @ blocks ?T1 @ cblocks c) = insert b (set ?R)" by (simp only: list.set(2) r01)
  have "insert b0 (insert b1 ?B) = insert cur X \<union> insert b (set ?R)" by auto
  then have "insert b0 (insert b1 ?B) = insert cur X \<union> set (b # blocks ?T0 @ blocks ?T1 @ cblocks c)" unfolding r01' .
  then have "space st2 (insert cur X \<union> set (b # blocks ?T0 @ blocks ?T1 @ cblocks c))" using s2(7) by simp
  moreover have "insert cur X \<inter> set (b # blocks ?T0 @ blocks ?T1 @ cblocks c) = {}"
  proof -
    have "cur \<notin> set ?R" using dp(4-6) s2(4,5) unfolding cblocks.simps set_append list.set(2) by blast
    moreover have "X \<inter> set ?R = {}" using dd(2) s2(4,5) unfolding cblocks.simps set_append list.set(2) by blast
    ultimately show ?thesis unfolding r01' using cb(4,7) by blast
  qed
  moreover have "distinct (b # blocks ?T0 @ blocks ?T1 @ cblocks c)" using d01 bR by (simp only: distinct.simps(2) r01 simp_thms)
  moreover have cfr: "\<forall>x\<in>set (cblocks c). content ?G x = content ?F x"
  proof
    fix x assume x: "x \<in> set (cblocks c)"
    have "x \<in> ?B" "x \<noteq> b" using x cb(3) by auto
    then show "content ?G x = content ?F x" by (rule content_cong [OF fr])
  qed
  have "cok ?G c b" "ccov ?G c" using path_cong(1,2) [OF cfr] pd(1,2) by simp_all
  moreover have "blkno0 st2 = blk ?T0" "blkno1 st2 = blk ?T1" using s2(9,10) by simp_all
  moreover have "\<exists>m. ?G b = Some (Node m) \<and> length (slots m) = MAX_ENTRIES" using Gb s1(2) by (simp add: node_ok_def)
  ultimately have "pending st2 (insert cur X) c b ?T0 ?T1"
    using pd(3) s2(8) ok01 cv01 bd01 unfolding pending_def by blast
  moreover have "\<forall>x\<in>X \<union> {cur} \<union> set (blocks t0) \<union> set (blocks t1) \<union> set (kblocks l) \<union> set (kblocks rs) \<union> set (cblocks c).
      ?G x = ?F x"
  proof
    fix x assume x: "x \<in> X \<union> {cur} \<union> set (blocks t0) \<union> set (blocks t1) \<union> set (kblocks l) \<union> set (kblocks rs) \<union> set (cblocks c)"
    then have "x \<in> ?B" by auto
    moreover have "x \<noteq> b" using x cb by auto
    ultimately show "?G x = ?F x" by (rule fr)
  qed
  moreover have "rt_lptr st2 = rt_lptr st" using s2(11) by (simp add: write_blk_def)
  ultimately show ?thesis using u1 s2(1) lv by blast
qed

lemma kleaves_kblocks: "set (kleaves ks) \<subseteq> set (kblocks ks)"
  using leaves_blocks by fastforce

lemma cleaves_path: "distinct (cblocks c) \<Longrightarrow> set (cleaves c) \<inter> set (map fst c) = {}"
proof (induction c rule: cblocks.induct)
  case 1
  show ?case by simp
next
  case (2 b l r rs c)
  have d: "b \<notin> set (kblocks l)" "b \<notin> set (kblocks rs)" "b \<notin> set (cblocks c)" "set (kblocks l) \<inter> set (cblocks c) = {}"
    "set (kblocks rs) \<inter> set (cblocks c) = {}" "distinct (cblocks c)"
    using 2(2) unfolding cblocks.simps distinct.simps(2) distinct_append set_append by blast+
  have ih: "set (cleaves c) \<inter> set (map fst c) = {}" by (rule 2(1) [OF d(6)])
  show ?case
    using d ih fst_cblocks [of c] cleaves_cblocks [of c] kleaves_kblocks [of l] kleaves_kblocks [of rs]
    unfolding cleaves.simps set_append list.map(2) list.set(2) fst_conv by blast
qed

lemma adjust_with:
  assumes "rounding fl" and "pending st X c cur t0 t1"
  shows "\<exists>st' t'. adjust_tree_with_split fl cur (map fst c) st = Some st' \<and> rt_tree st' X t' \<and> rt_lptr st' = rt_lptr st \<and>
     mset (leaves t') = mset (leaves t0 @ leaves t1 @ cleaves c) \<and>
     (\<forall>x\<in>X \<union> set (leaves t0) \<union> set (leaves t1) \<union> set (cleaves c). index st' x = index st x)"
  using assms(2)
proof (induction c arbitrary: st X cur t0 t1)
  case Nil
  have p: "cur = 1" "distinct (cur # blocks t0 @ blocks t1 @ [])" "X \<inter> set (cur # blocks t0 @ blocks t1) = {}"
    "space st (X \<union> set (cur # blocks t0 @ blocks t1))" "glob st" "ok (index st) t0" "ok (index st) t1" "covers (index st) t0"
    "covers (index st) t1" "bound (index st) t0 (coverr0 st)" "bound (index st) t1 (coverr1 st)" "blkno0 st = blk t0"
    "blkno1 st = blk t1" using Nil by (auto simp: pending_def)
  note dp = distinct_parts [OF p(2)]
  have nb: "1 \<notin> set (blocks t0)" "1 \<notin> set (blocks t1)" using dp(4,5) p(1) by simp_all
  let ?t = "SNode 1 [(coverr0 st, t0), (coverr1 st, t1)]"
  obtain n where n: "new_root st = write_blk 1 n (st\<lparr> gbuf := n \<rparr>)" "length (slots n) = MAX_ENTRIES"
    "ok (index (new_root st)) ?t" "covers (index (new_root st)) ?t"
    using adjust_root [OF p(5-13) nb] by blast
  have bl: "blocks ?t = cur # blocks t0 @ blocks t1" using p(1) by simp
  have F: "\<forall>x. x \<noteq> 1 \<longrightarrow> index (new_root st) x = index st x" by (simp add: n(1) write_blk_def)
  have "space (new_root st) (X \<union> set (blocks ?t))"
    unfolding bl by (rule space_index [OF p(4)]) (use p(1) in \<open>auto simp: n(1) write_blk_def\<close>)
  moreover have "glob (new_root st)" using p(5) n(2) by (simp add: n(1) write_blk_def glob_def)
  ultimately have "rt_tree (new_root st) X ?t"
    using n(3,4) p(2,3) unfolding rt_tree_def bl by simp
  moreover have "\<forall>x\<in>X \<union> set (leaves t0) \<union> set (leaves t1) \<union> set (cleaves []). index (new_root st) x = index st x"
  proof
    fix x assume "x \<in> X \<union> set (leaves t0) \<union> set (leaves t1) \<union> set (cleaves [])"
    then have "x \<noteq> 1" using nb p(1,3) leaves_blocks [of t0] leaves_blocks [of t1] by auto
    then show "index (new_root st) x = index st x" using F by blast
  qed
  moreover have "rt_lptr (new_root st) = rt_lptr st" by (simp add: n(1) write_blk_def)
  ultimately show ?case using p(1) by (intro exI [of _ "new_root st"] exI [of _ ?t]) simp
next
  case (Cons f c)
  obtain b l r rs where f: "f = (b, l, r, rs)" by (cases f)
  have p: "pending st X ((b, l, r, rs) # c) cur t0 t1" using Cons.prems f by simp
  have dd: "distinct (cur # blocks t0 @ blocks t1 @ cblocks ((b, l, r, rs) # c))"
    "X \<inter> set (cur # blocks t0 @ blocks t1 @ cblocks ((b, l, r, rs) # c)) = {}"
    using p unfolding pending_def by blast+
  note dp = distinct_parts [OF dd(1)]
  obtain m where m: "index st cur = Some (Node m)" "length (slots m) = MAX_ENTRIES" using p by (auto simp: pending_def)
  have inn: "inner (index st) b (map entry l @ (r, cur * BLOCKSZ) # map entry rs)" and root: "rootblk c b = 1"
    using p by (simp_all add: pending_def)
  have c1: "cur \<noteq> 1" using root rootblk_in [of c b] dp(6) by auto
  have ps: "cur * BLOCKSZ \<notin> snd ` set (map entry l)" by (rule sibling_ptrs) (use dp(6) in auto)
  obtain n where n: "index st b = Some (Node n)" "nodetype n = CHR ''n''" "node_ok n"
    "map key (used n) = map entry l @ (r, cur * BLOCKSZ) # map entry rs"
    "find_ptr (cur * BLOCKSZ) (take (counter n) (slots n)) = Some (length l)"
    by (rule inner_hole [OF inn ps]) simp
  have cX: "cur \<notin> X" using dd(2) by auto
  let ?L = "set (leaves t0) \<union> set (leaves t1) \<union> set (cleaves ((b, l, r, rs) # c))"
  have cL: "cur \<notin> ?L" "?L \<inter> set (map fst ((b, l, r, rs) # c)) = {}"
    using dp(1,2,4-6) leaves_blocks [of t0] leaves_blocks [of t1] cleaves_cblocks [of "(b, l, r, rs) # c"]
      cleaves_path [OF dp(9)] fst_cblocks [of "(b, l, r, rs) # c"] by blast+
  have step: "\<exists>st1 t'. adjust_tree_with_split fl cur (map fst (f # c)) st = free_block 0 cur st1 \<and> rt_tree st1 (insert cur X) t' \<and>
      rt_lptr st1 = rt_lptr st \<and> mset (leaves t') = mset (leaves t0 @ leaves t1 @ cleaves (f # c)) \<and>
      (\<forall>x\<in>insert cur X \<union> ?L. index st1 x = index st x)"
  proof (cases "counter n = MAX_ENTRIES")
    case False
    then have "counter n < MAX_ENTRIES" using n(3) by (simp add: node_ok_def)
    from adjust_with_room [OF p n(1,3,2,4) this] obtain st1 t' where s: "adjust_tree_without_split b (compose (coverr0 st) (coverr1 st)) (map fst c)
        (write_blk b (insert_pair (length l) (coverr0 st) (blkno0 st * BLOCKSZ) (coverr1 st) (blkno1 st * BLOCKSZ) n)
          (st\<lparr> gbuf := insert_pair (length l) (coverr0 st) (blkno0 st * BLOCKSZ) (coverr1 st) (blkno1 st * BLOCKSZ) n \<rparr>)) = Some st1"
      "rt_tree st1 (insert cur X) t'" "rt_lptr st1 = rt_lptr st"
      "mset (leaves t') = mset (leaves t0 @ leaves t1 @ cleaves ((b, l, r, rs) # c))"
      "\<forall>x. x \<notin> set (map fst ((b, l, r, rs) # c)) \<longrightarrow> index st1 x = index st x" by blast
    have "adjust_tree_with_split fl cur (map fst (f # c)) st = free_block 0 cur st1"
      using c1 n(1,5) False s(1) f by (simp add: read_blk_def Let_def)
    moreover have "(insert cur X \<union> ?L) \<inter> set (map fst ((b, l, r, rs) # c)) = {}"
      using cL(2) dd(2) dp(6) fst_cblocks [of "(b, l, r, rs) # c"] unfolding list.set(2) set_append by blast
    then have "\<forall>x\<in>insert cur X \<union> ?L. index st1 x = index st x" using s(5) by blast
    ultimately show ?thesis using s(2-4) f by blast
  next
    case True
    from adjust_with_full [OF assms(1) p n(1,3,2,4) True] obtain st1 st2 T0 T1 where s:
      "update_block_entry b (length l) (coverr0 st) (blkno0 st * BLOCKSZ) (st\<lparr> gbuf := n \<rparr>) = Some st1"
      "split_node fl b (coverr1 st) (blkno1 st * BLOCKSZ) CHR ''n'' (blkno0 st * BLOCKSZ) (blkno1 st * BLOCKSZ) st1 = Some st2"
      "pending st2 (insert cur X) c b T0 T1" "rt_lptr st2 = rt_lptr st"
      "mset (leaves T0 @ leaves T1 @ cleaves c) = mset (leaves t0 @ leaves t1 @ cleaves ((b, l, r, rs) # c))"
      "\<forall>x\<in>X \<union> {cur} \<union> set (blocks t0) \<union> set (blocks t1) \<union> set (kblocks l) \<union> set (kblocks rs) \<union> set (cblocks c).
        index st2 x = index st x" by blast
    obtain st3 t' where h: "adjust_tree_with_split fl b (map fst c) st2 = Some st3" "rt_tree st3 (insert cur X) t'"
      "rt_lptr st3 = rt_lptr st2" "mset (leaves t') = mset (leaves T0 @ leaves T1 @ cleaves c)"
      "\<forall>x\<in>insert cur X \<union> set (leaves T0) \<union> set (leaves T1) \<union> set (cleaves c). index st3 x = index st2 x"
      using Cons.IH [OF s(3)] by blast
    have "adjust_tree_with_split fl cur (map fst (f # c)) st = free_block 0 cur st3"
      using c1 n(1,5) True s(1,2) h(1) f by (simp add: read_blk_def Let_def)
    moreover have "set (leaves T0) \<union> set (leaves T1) \<union> set (cleaves c) = ?L"
      using mset_eq_setD [OF s(5)] by (simp only: set_append Un_assoc)
    then have "\<forall>x\<in>insert cur X \<union> ?L. index st3 x = index st2 x" using h(5) by blast
    moreover have "?L \<subseteq> set (blocks t0) \<union> set (blocks t1) \<union> set (kblocks l) \<union> set (kblocks rs) \<union> set (cblocks c)"
      using leaves_blocks [of t0] leaves_blocks [of t1] kleaves_kblocks [of l] kleaves_kblocks [of rs] cleaves_cblocks [of c]
      unfolding cleaves.simps set_append by blast
    then have "\<forall>x\<in>insert cur X \<union> ?L. index st2 x = index st x" using s(6) by blast
    ultimately have "\<forall>x\<in>insert cur X \<union> ?L. index st3 x = index st x" by metis
    then show ?thesis
      using \<open>adjust_tree_with_split fl cur (map fst (f # c)) st = free_block 0 cur st3\<close> h(2-4) s(4,5) f by metis
  qed
  then obtain st1 t' where s: "adjust_tree_with_split fl cur (map fst (f # c)) st = free_block 0 cur st1"
    "rt_tree st1 (insert cur X) t'" "rt_lptr st1 = rt_lptr st"
    "mset (leaves t') = mset (leaves t0 @ leaves t1 @ cleaves (f # c))" "\<forall>x\<in>insert cur X \<union> ?L. index st1 x = index st x"
    by blast
  have "index st1 cur = Some (Node m)" using s(5) m(1) by simp
  from rt_tree_free [OF s(2) cX this m(2)] obtain st' where st': "free_block 0 cur st1 = Some st'" "rt_tree st' X t'"
    "rt_lptr st' = rt_lptr st1" "\<forall>x. x \<noteq> cur \<longrightarrow> index st' x = index st1 x" by blast
  have "\<forall>x\<in>X \<union> ?L. index st' x = index st x" using st'(4) s(5) cL(1) cX by (metis Un_iff insertCI)
  then show ?case using s(1,3,4) st' f by (intro exI [of _ st'] exI [of _ t']) (simp add: Un_assoc)
qed

end
