(* ===== verification/RTreeApi.thy ===== *)
theory RTreeApi
  imports RTree
begin

text \<open>
  The interface of the R-tree (\<open>src/adl/rtree/interface.cc\<close>) with the depth-first search and the
  deletion of \<open>rtree.cc\<close>, and the tuples behind the index (\<open>tupledb.cc\<close>).

  \<^item> The tuples are in a Berkeley DB database of record numbers, a parameter: \<open>db_put\<close> appends a
    record and returns a code and the number, \<open>db_get\<close> reads one. \<open>recno\<close> is what its manual
    promises: as long as there are numbers, a new record gets one that is not in use.
  \<^item> A cursor is the struct \<open>rtree_cursor\<close>; its copy of the current leaf is \<open>curnode\<close>. Its counter of
    entries has 32 bits.
  \<^item> \<open>DB_FIRST\<close> tests a local variable \<open>rc\<close> that has no value if the first entry is not deleted;
    this value is the argument \<open>rc0\<close>.
  \<^item> Loops take fuel. \<open>Crash\<close> is \<open>myerr\<close>, which exits, or a read of bytes that are not there.
\<close>

section \<open>Constants\<close>

definition DB_KEYEXIST :: int where
  "DB_KEYEXIST = -30996"

definition DB_FIRST :: int where
  "DB_FIRST = 12"

definition DB_NEXT :: int where
  "DB_NEXT = 21"

definition DB_NEXT_DUP :: int where
  "DB_NEXT_DUP = 22"

definition DB_NODUPDATA :: int where
  "DB_NODUPDATA = 24"

definition DB_NOOVERWRITE :: int where
  "DB_NOOVERWRITE = 25"

definition DB_SET :: int where
  "DB_SET = 32"

definition DB_SET_RANGE :: int where
  "DB_SET_RANGE = 34"

definition DB_NEXT_RANGE :: int where
  "DB_NEXT_RANGE = 100"

definition EQUALITY :: int where
  "EQUALITY = 0"

definition CONTAINMENT :: int where
  "CONTAINMENT = 1"

definition uchar_max :: nat where
  "uchar_max = 255"

section \<open>Static storage\<close>

definition zero_item :: rt_item where
  "zero_item = \<lparr> it_rect = \<lparr> x_ul = 0, y_ul = 0, x_lr = 0, y_lr = 0 \<rparr>, it_ptr = 0, it_del = False \<rparr>"

definition zero_node :: rt_node where
  "zero_node = \<lparr> nodetype = CHR 0x00, counter = 0, nextlptr = 0, prevlptr = 0, slots = replicate MAX_ENTRIES zero_item \<rparr>"

definition rt_static :: rtree where
  "rt_static = \<lparr> fb_ind = 0, tb_ind = 0, rt_lptr = 0, rt_m = 0, rt_M = 0, tplsz = 0, index = Map.empty, gbuf = zero_node,
     itembuf = replicate (MAX_ENTRIES + 1) zero_item, split0 = zero_node, split1 = zero_node, blkno0 = 0, blkno1 = 0,
     coverr0 = it_rect zero_item, coverr1 = it_rect zero_item \<rparr>"

section \<open>Tuples\<close>

record 'd tuple_db =
  db_put :: "'d \<Rightarrow> string \<Rightarrow> int \<times> nat \<times> 'd"
  db_get :: "'d \<Rightarrow> nat \<Rightarrow> int \<times> string"

text \<open>\<open>holds d n\<close>: the database is in a proper state and has \<open>n\<close> records.\<close>

definition recno :: "'d tuple_db \<Rightarrow> ('d \<Rightarrow> nat \<Rightarrow> bool) \<Rightarrow> bool" where
  "recno D holds \<longleftrightarrow>
     (\<forall>d n x. holds d n \<and> n + 1 < uint_max \<longrightarrow>
        (\<exists>k d'. db_put D d x = (0, k, d') \<and> holds d' (Suc n) \<and> k < uint_max \<and> fst (db_get D d k) \<noteq> 0 \<and>
           db_get D d' k = (0, x) \<and> (\<forall>j. j \<noteq> k \<longrightarrow> db_get D d' j = db_get D d j)))"

text \<open>Every tuple is written with the size of the first one.\<close>

definition tuple_put :: "'d tuple_db \<Rightarrow> nat \<Rightarrow> string \<Rightarrow> 'd \<Rightarrow> (int \<times> nat \<times> 'd) option" where
  "tuple_put D sz tuple d = (if length tuple < sz then None else Some (db_put D d (take sz tuple)))"

definition tuple_get :: "'d tuple_db \<Rightarrow> nat \<Rightarrow> 'd \<Rightarrow> int \<times> string option" where
  "tuple_get D tplno d = (case db_get D d tplno of (rc, x) \<Rightarrow> (rc, if rc = 0 then Some x else None))"

section \<open>Insertion and lookup\<close>

definition insert_rtree ::
    "(int \<Rightarrow> int) \<Rightarrow> 'd tuple_db \<Rightarrow> Rect \<Rightarrow> string \<Rightarrow> rtree \<times> 'd \<Rightarrow> (int \<times> rtree \<times> 'd) outcome" where
  "insert_rtree fl D mbr dbt w =
     (case w of (st, d) \<Rightarrow>
        let st1 = (if tplsz st = 0 then st\<lparr> tplsz := length dbt \<rparr> else st) in
        case tuple_put D (tplsz st1) dbt d of
          None \<Rightarrow> Crash
        | Some (rc, tplno, d') \<Rightarrow>
            if rc \<noteq> 0 then Crash
            else (case insert_rtree_aux fl mbr tplno st1 of
                    Ret st2 \<Rightarrow> Ret (0, st2, d')
                  | Crash \<Rightarrow> Crash
                  | NoFuel \<Rightarrow> NoFuel))"

definition rtree_get :: "nat \<Rightarrow> 'd tuple_db \<Rightarrow> Rect \<Rightarrow> rtree \<times> 'd \<Rightarrow> (int \<times> string option) outcome" where
  "rtree_get fuel D mbr w =
     (case rtree_get_one fuel mbr (fst w) 1 of
        Ret (blk, ent, tpl) \<Rightarrow>
          if tpl \<noteq> uint_max
          then (case tuple_get D tpl (snd w) of (rc, x) \<Rightarrow> if rc = 0 then Ret (0, x) else Crash)
          else Ret (DB_NOTFOUND, None)
      | Crash \<Rightarrow> Crash
      | NoFuel \<Rightarrow> NoFuel)"

definition rtree_put ::
    "nat \<Rightarrow> (int \<Rightarrow> int) \<Rightarrow> 'd tuple_db \<Rightarrow> Rect \<Rightarrow> string \<Rightarrow> int \<Rightarrow> rtree \<times> 'd \<Rightarrow> (int \<times> rtree \<times> 'd) outcome" where
  "rtree_put fuel fl D mbr dbt flags w =
     (if flags = 0 then insert_rtree fl D mbr dbt w
      else if flags = DB_NODUPDATA \<or> flags = DB_NOOVERWRITE
      then (case rtree_get_one fuel mbr (fst w) 1 of
              Ret (blk, ent, tpl) \<Rightarrow> Ret (if tpl \<noteq> uint_max then DB_KEYEXIST else -1, w)
            | Crash \<Rightarrow> Crash
            | NoFuel \<Rightarrow> NoFuel)
      else Ret (-1, w))"

section \<open>Depth-first search\<close>

text \<open>
  The scan of one block from an entry on: an undeleted leaf entry that matches, a child to visit, or
  the end of the block. \<open>None\<close> is an unknown type of search.
\<close>

datatype dfs_scan = Hit nat | Child nat nat | Exhausted

definition dfs_got :: "int \<Rightarrow> Rect \<Rightarrow> Rect \<Rightarrow> bool option" where
  "dfs_got ty mbr r =
     (if ty = EQUALITY then Some (containedIn (Some mbr) r = 0)
      else if ty = CONTAINMENT then Some (containedIn (Some r) mbr \<ge> 0)
      else None)"

fun dfs_items :: "int \<Rightarrow> Rect \<Rightarrow> bool \<Rightarrow> nat \<Rightarrow> rt_item list \<Rightarrow> dfs_scan option" where
  "dfs_items ty mbr leaf i [] = Some Exhausted"
| "dfs_items ty mbr leaf i (it # its) =
     (if leaf
      then (case dfs_got ty mbr (it_rect it) of
              None \<Rightarrow> None
            | Some got \<Rightarrow> if got \<and> \<not> it_del it then Some (Hit i) else dfs_items ty mbr leaf (Suc i) its)
      else if overlap mbr (it_rect it) \<ge> 0 then Some (Child i (it_ptr it))
      else dfs_items ty mbr leaf (Suc i) its)"

text \<open>
  \<open>cbt\<close> is always the top of the stack. A containment search overwrites its rectangle with the one
  it has found. The result is the code, the stack, the rectangle, the tuple number and the block read
  last.
\<close>

fun rtree_dfs ::
    "nat \<Rightarrow> rtree \<Rightarrow> (nat \<times> nat) list \<Rightarrow> Rect \<Rightarrow> int \<Rightarrow> rt_node \<Rightarrow>
      (int \<times> (nat \<times> nat) list \<times> Rect \<times> nat \<times> rt_node) outcome" where
  "rtree_dfs fuel st [] mbr ty temp = Ret (DB_NOTFOUND, [], mbr, uint_max, temp)"
| "rtree_dfs 0 st (c # rest) mbr ty temp = NoFuel"
| "rtree_dfs (Suc fuel) st ((blkptr, ent) # rest) mbr ty temp =
     (case read_blk_by_ptr blkptr st of
        None \<Rightarrow> Crash
      | Some n \<Rightarrow>
          (case dfs_items ty mbr (nodetype n = CHR ''l'') ent (drop ent (take (counter n) (slots n))) of
             None \<Rightarrow> Crash
           | Some (Hit i) \<Rightarrow>
               Ret (0, (blkptr, Suc i) # rest, if ty = CONTAINMENT then it_rect (slots n ! i) else mbr, it_ptr (slots n ! i), n)
           | Some (Child i b) \<Rightarrow> rtree_dfs fuel st ((b, 0) # (blkptr, Suc i) # rest) mbr ty n
           | Some Exhausted \<Rightarrow> rtree_dfs fuel st rest mbr ty n))"

section \<open>Deletion\<close>

definition set_del :: "nat \<Rightarrow> rt_node \<Rightarrow> rt_node" where
  "set_del i n = set_slot i ((slots n ! i)\<lparr> it_del := True \<rparr>) n"

text \<open>The loop of \<open>delete_rtree\<close>; \<open>g\<close> is the fuel of each search.\<close>

fun delete_loop :: "nat \<Rightarrow> nat \<Rightarrow> rtree \<Rightarrow> (nat \<times> nat) list \<Rightarrow> Rect \<Rightarrow> rt_node \<Rightarrow> (rtree \<times> Rect) outcome" where
  "delete_loop g 0 st stk mbr temp = NoFuel"
| "delete_loop g (Suc f) st stk mbr temp =
     (case rtree_dfs g st stk mbr CONTAINMENT temp of
        Ret (rc, stk', mbr', curtpl, n) \<Rightarrow>
          if rc = 0
          then (case stk' of
                  [] \<Rightarrow> Crash
                | (blkptr, ent) # _ \<Rightarrow>
                    (let n' = set_del (ent - 1) n in
                     case write_blk_by_ptr blkptr n' st of
                       None \<Rightarrow> Crash
                     | Some st' \<Rightarrow> delete_loop g f st' stk' mbr' n'))
          else Ret (st, mbr')
      | Crash \<Rightarrow> Crash
      | NoFuel \<Rightarrow> NoFuel)"

text \<open>\<open>junk\<close> is the local buffer before it is filled.\<close>

definition delete_rtree :: "nat \<Rightarrow> rt_node \<Rightarrow> Rect \<Rightarrow> rtree \<Rightarrow> (int \<times> rtree \<times> Rect) outcome" where
  "delete_rtree fuel junk mbr st =
     (case delete_loop fuel fuel st [(1 * BLOCKSZ, 0)] mbr junk of
        Ret (st', mbr') \<Rightarrow> Ret (0, st', mbr')
      | Crash \<Rightarrow> Crash
      | NoFuel \<Rightarrow> NoFuel)"

definition rtree_del :: "nat \<Rightarrow> rt_node \<Rightarrow> Rect \<Rightarrow> rtree \<Rightarrow> (int \<times> rtree \<times> Rect) outcome" where
  "rtree_del fuel junk mbr st = delete_rtree fuel junk mbr st"

section \<open>Cursors\<close>

record rtree_cursor =
  curnode :: rt_node
  curBlkPtr :: nat
  curitem :: nat
  curtpl :: nat
  dfsStack :: "(nat \<times> nat) list"
  dfsType :: int

definition rtree_cursor_open :: "rtree \<Rightarrow> (int \<times> rtree_cursor) outcome" where
  "rtree_cursor_open st =
     (if fb_ind st \<noteq> 1
      then (case read_blk_by_ptr (rt_lptr st) st of
              None \<Rightarrow> Crash
            | Some n \<Rightarrow>
                Ret (0, \<lparr> curnode = n, curBlkPtr = rt_lptr st div BLOCKSZ, curitem = 0,
                  curtpl = (if counter n > 0 then it_ptr (slots n ! 0) else uchar_max), dfsStack = [], dfsType = 0 \<rparr>))
      else Ret (0, \<lparr> curnode = zero_node, curBlkPtr = uint_max, curitem = 0, curtpl = uint_max, dfsStack = [], dfsType = 0 \<rparr>))"

text \<open>The next entry: the code, whether it is deleted, and the cursor.\<close>

definition rtree_cursor_next_item :: "rtree \<Rightarrow> rtree_cursor \<Rightarrow> (int \<times> bool \<times> rtree_cursor) option" where
  "rtree_cursor_next_item st rtc =
     (let i = Suc (curitem rtc) mod 2 ^ 32 in
      if i \<ge> counter (curnode rtc)
      then if nextlptr (curnode rtc) = 0
           then Some (DB_NOTFOUND, False, rtc\<lparr> curBlkPtr := uint_max, curitem := uint_max, curtpl := uint_max \<rparr>)
           else do {
             n \<leftarrow> read_blk_by_ptr (nextlptr (curnode rtc)) st;
             Some (0, it_del (slots n ! 0), rtc\<lparr> curnode := n, curBlkPtr := nextlptr (curnode rtc), curitem := 0 \<rparr>)
           }
      else Some (0, it_del (slots (curnode rtc) ! i), rtc\<lparr> curitem := i \<rparr>))"

fun moveToNextNonDel :: "nat \<Rightarrow> rtree \<Rightarrow> rtree_cursor \<Rightarrow> (int \<times> rtree_cursor) outcome" where
  "moveToNextNonDel 0 st rtc = NoFuel"
| "moveToNextNonDel (Suc fuel) st rtc =
     (case rtree_cursor_next_item st rtc of
        None \<Rightarrow> Crash
      | Some (rc, deleted, rtc') \<Rightarrow>
          if rc = DB_NOTFOUND then Ret (DB_NOTFOUND, rtc')
          else if \<not> deleted then Ret (0, rtc')
          else moveToNextNonDel fuel st rtc')"

definition GET_CURITEM :: "rtree_cursor \<Rightarrow> rt_item" where
  "GET_CURITEM rtc = slots (curnode rtc) ! curitem rtc"

text \<open>The end of every branch: the tuple of the current entry.\<close>

definition fetch_tuple ::
    "'d tuple_db \<Rightarrow> 'd \<Rightarrow> Rect \<Rightarrow> rtree_cursor \<Rightarrow> (int \<times> Rect \<times> string option \<times> rtree_cursor) outcome" where
  "fetch_tuple D d kr rtc =
     (case db_get D d (curtpl rtc) of (rc, x) \<Rightarrow>
        if rc = 0 then Ret (0, kr, Some x, rtc)
        else if rc = DB_NOTFOUND then Ret (DB_NOTFOUND, kr, None, rtc)
        else Crash)"

text \<open>The entry the cursor stands on is returned as the key.\<close>

definition read_current ::
    "'d tuple_db \<Rightarrow> 'd \<Rightarrow> rtree_cursor \<Rightarrow> (int \<times> Rect \<times> string option \<times> rtree_cursor) outcome" where
  "read_current D d rtc =
     (let it = GET_CURITEM rtc in fetch_tuple D d (it_rect it) (rtc\<lparr> curtpl := it_ptr it \<rparr>))"

text \<open>A step of the depth-first search, for the four modes that search.\<close>

definition cursor_dfs ::
    "nat \<Rightarrow> 'd tuple_db \<Rightarrow> Rect \<Rightarrow> rtree_cursor \<Rightarrow> rtree \<times> 'd \<Rightarrow> (int \<times> Rect \<times> string option \<times> rtree_cursor) outcome" where
  "cursor_dfs fuel D kr rtc w =
     (case rtree_dfs fuel (fst w) (dfsStack rtc) kr (dfsType rtc) (curnode rtc) of
        Ret (rc, stk, kr', tpl, n) \<Rightarrow>
          (let rtc1 = rtc\<lparr> dfsStack := stk, curtpl := tpl, curnode := n \<rparr> in
           if rc = DB_NOTFOUND
           then Ret (DB_NOTFOUND, kr', None, rtc1\<lparr> curBlkPtr := uint_max, curitem := uint_max \<rparr>)
           else (case stk of
                   [] \<Rightarrow> Crash
                 | (blkptr, ent) # _ \<Rightarrow> fetch_tuple D (snd w) kr' (rtc1\<lparr> curBlkPtr := blkptr, curitem := ent - 1 \<rparr>)))
      | Crash \<Rightarrow> Crash
      | NoFuel \<Rightarrow> NoFuel)"

definition rtree_cursor_get ::
    "nat \<Rightarrow> 'd tuple_db \<Rightarrow> int \<Rightarrow> int \<Rightarrow> Rect \<Rightarrow> rtree_cursor \<Rightarrow> rtree \<times> 'd \<Rightarrow>
      (int \<times> Rect \<times> string option \<times> rtree_cursor) outcome" where
  "rtree_cursor_get fuel D rc0 flags kr rtc w =
     (case w of (st, d) \<Rightarrow>
        let nowhere = rtc\<lparr> curBlkPtr := uint_max, curitem := uint_max, curtpl := uint_max \<rparr> in
        if flags = DB_FIRST
        then if fb_ind st = 1 then Ret (DB_NOTFOUND, kr, None, nowhere)
             else (case read_blk_by_ptr (rt_lptr st) st of
                     None \<Rightarrow> Crash
                   | Some n \<Rightarrow>
                       (let rtc1 = rtc\<lparr> curnode := n, curBlkPtr := rt_lptr st, curitem := 0 \<rparr> in
                        if counter n = 0 then Ret (DB_NOTFOUND, kr, None, nowhere\<lparr> curnode := n \<rparr>)
                        else (case (if it_del (slots n ! 0) then moveToNextNonDel fuel st rtc1 else Ret (rc0, rtc1)) of
                                Ret (rc, rtc2) \<Rightarrow>
                                  if rc = DB_NOTFOUND then Ret (DB_NOTFOUND, kr, None, rtc2) else read_current D d rtc2
                              | Crash \<Rightarrow> Crash
                              | NoFuel \<Rightarrow> NoFuel)))
        else if flags = DB_NEXT
        then (case moveToNextNonDel fuel st rtc of
                Ret (rc, rtc1) \<Rightarrow>
                  if rc = DB_NOTFOUND then Ret (DB_NOTFOUND, kr, None, rtc1) else read_current D d rtc1
              | Crash \<Rightarrow> Crash
              | NoFuel \<Rightarrow> NoFuel)
        else if flags = DB_SET
        then cursor_dfs fuel D kr (rtc\<lparr> dfsStack := (1 * BLOCKSZ, 0) # dfsStack rtc, dfsType := EQUALITY \<rparr>) w
        else if flags = DB_NEXT_DUP \<or> flags = DB_NEXT_RANGE
        then cursor_dfs fuel D kr rtc w
        else if flags = DB_SET_RANGE
        then cursor_dfs fuel D kr (rtc\<lparr> dfsStack := (1 * BLOCKSZ, 0) # dfsStack rtc, dfsType := CONTAINMENT \<rparr>) w
        else Ret (-1, kr, None, rtc))"

definition rtree_cursor_del :: "rtree_cursor \<Rightarrow> rtree \<Rightarrow> (int \<times> rtree_cursor \<times> rtree) option" where
  "rtree_cursor_del rtc st =
     (if curBlkPtr rtc = uint_max then Some (DB_NOTFOUND, rtc, st)
      else do {
        let n = set_del (curitem rtc) (curnode rtc);
        st' \<leftarrow> write_blk_by_ptr (curBlkPtr rtc) n st;
        Some (0, rtc\<lparr> curnode := n \<rparr>, st')
      })"

end
