(* ===== verification/RTreeMain.thy ===== *)
theory RTreeMain
  imports RTreeIns RTreeApi
begin

text \<open>
  The R-tree as a whole: the chain of leaves, one insertion, and runs of insertions from an empty
  tree. The invariant \<open>rt_inv\<close> says that the file holds a tree, that its rectangles cover, that the
  leaves are chained, and that the free blocks are; every insertion keeps it and adds its entry.
\<close>

section \<open>The chain of leaves\<close>

definition link :: "idxfile \<Rightarrow> nat \<Rightarrow> (nat \<times> nat) option" where
  "link F b = (case F b of Some (Node n) \<Rightarrow> Some (prevlptr n, nextlptr n) | _ \<Rightarrow> None)"

fun lchain :: "(nat \<Rightarrow> (nat \<times> nat) option) \<Rightarrow> nat \<Rightarrow> nat list \<Rightarrow> nat \<Rightarrow> bool" where
  "lchain L p [] q \<longleftrightarrow> True"
| "lchain L p (b # bs) q \<longleftrightarrow>
     L b = Some (p, if bs = [] then q else hd bs * BLOCKSZ) \<and> lchain L (b * BLOCKSZ) bs q"

lemma lchain_append:
  "lchain L p (xs @ ys) q \<longleftrightarrow> lchain L p xs (if ys = [] then q else hd ys * BLOCKSZ) \<and>
     lchain L (if xs = [] then p else last xs * BLOCKSZ) ys q"
  by (induction xs arbitrary: p) auto

lemma lchain_cong: "\<forall>b\<in>set ls. L' b = L b \<Longrightarrow> lchain L' p ls q = lchain L p ls q"
  by (induction ls arbitrary: p) auto

lemma link_cong: "F' b = F b \<Longrightarrow> link F' b = link F b"
  by (simp add: link_def)

definition litems :: "idxfile \<Rightarrow> nat \<Rightarrow> rt_item list" where
  "litems F b = items F (SLeaf b)"

definition rt_inv :: "rtree \<Rightarrow> shape \<Rightarrow> nat list \<Rightarrow> bool" where
  "rt_inv st t ls \<longleftrightarrow> rt_tree st {} t \<and> mset ls = mset (leaves t) \<and> lchain (link (index st)) 0 ls 0 \<and>
     ls \<noteq> [] \<and> rt_lptr st = hd ls * BLOCKSZ \<and> (\<forall>b\<in>set ls. litems (index st) b \<noteq> [])"

section \<open>Entries\<close>

lemma concat_map_concat: "concat (map f (concat xss)) = concat (map (\<lambda>xs. concat (map f xs)) xss)"
  by (induction xss) auto

lemma items_leaves: "items F t = concat (map (litems F) (leaves t))"
proof (induction t rule: shape_induct)
  case (leaf b)
  show ?case by (simp add: litems_def)
next
  case (node b ks)
  have "map (\<lambda>k. items F (snd k)) ks = map (\<lambda>k. concat (map (litems F) (leaves (snd k)))) ks"
    using node by auto
  then show ?case
    by (simp only: items.simps leaves.simps concat_map_concat map_map comp_def case_prod_unfold)
qed

lemma keys_sum: "keys (items F t) = (\<Sum>b\<in>#mset (leaves t). keys (litems F b))"
proof -
  have "keys (concat (map g bs)) = (\<Sum>b\<in>#mset bs. keys (g b))" for g :: "nat \<Rightarrow> rt_item list" and bs
    by (induction bs) auto
  then show ?thesis by (simp only: items_leaves)
qed

lemma live_sum: "live (items F t) = (\<Sum>b\<in>#mset (leaves t). live (litems F b))"
proof -
  have "live (concat (map g bs)) = (\<Sum>b\<in>#mset bs. live (g b))" for g :: "nat \<Rightarrow> rt_item list" and bs
    by (induction bs) auto
  then show ?thesis by (simp only: items_leaves)
qed

lemma distinct_leaves: "distinct (blocks t) \<Longrightarrow> distinct (leaves t)"
proof (induction t rule: shape_induct)
  case (leaf b)
  show ?case by simp
next
  case (node b ks)
  then show ?case
  proof (induction ks)
    case Nil
    show ?case by simp
  next
    case (Cons k ks)
    obtain r t where k: "k = (r, t)" by (cases k)
    have d: "distinct (blocks t)" "distinct (b # kblocks ks)" "set (blocks t) \<inter> set (kblocks ks) = {}" using Cons.prems k by auto
    have "distinct (leaves t)" using Cons.prems(1) [of r t] d(1) k by simp
    moreover have "distinct (leaves (SNode b ks))" using Cons.IH Cons.prems(1) d(2) by auto
    moreover have "set (leaves t) \<inter> set (kleaves ks) = {}"
      using d(3) leaves_blocks [of t] kleaves_kblocks [of ks] by blast
    ultimately show ?case by (simp add: k)
  qed
qed

lemma litems_Node: "F b = Some (Node n) \<Longrightarrow> litems F b = used n"
  by (simp add: litems_def)

lemma litems_cong: "content F' b = content F b \<Longrightarrow> litems F' b = litems F b"
  using frame_ok(2) [of "SLeaf b" F' F] by (simp add: litems_def)

lemma cbound_leaf: "cbound F c (SLeaf d) \<longleftrightarrow> within c (it_rect ` set (litems F d))"
  by (cases c) (auto simp: litems_def)

text \<open>The leaf at the end of a path, and what the invariant says of both.\<close>

lemma inv_path:
  assumes "rt_inv st (plug c (SLeaf d)) ls"
  shows "cok (index st) c d" "ccov (index st) c" "distinct (d # cblocks c)" "rootblk c d = 1"
    "within c (it_rect ` set (litems (index st) d))" "space st (set (d # cblocks c))" "glob st"
    "mset ls = add_mset d (mset (cleaves c))" "lchain (link (index st)) 0 ls 0"
    "\<exists>n. index st d = Some (Node n) \<and> nodetype n = CHR ''l'' \<and> node_ok n \<and> clean n"
proof -
  have t: "rt_tree st {} (plug c (SLeaf d))" and l: "mset ls = mset (leaves (plug c (SLeaf d)))" "lchain (link (index st)) 0 ls 0"
    using assms by (simp_all add: rt_inv_def)
  have b: "mset (blocks (plug c (SLeaf d))) = mset (d # cblocks c)" by (simp add: plug_blocks)
  show "cok (index st) c d" "\<exists>n. index st d = Some (Node n) \<and> nodetype n = CHR ''l'' \<and> node_ok n \<and> clean n"
    using t by (simp_all add: rt_tree_def plug_ok)
  show "ccov (index st) c" "within c (it_rect ` set (litems (index st) d))"
    using t by (simp_all add: rt_tree_def plug_covers cbound_leaf)
  show "distinct (d # cblocks c)" "space st (set (d # cblocks c))"
    using t mset_eq_imp_distinct_iff [OF b] mset_eq_setD [OF b] by (simp_all add: rt_tree_def)
  show "rootblk c d = 1" "glob st" using t by (simp_all add: rt_tree_def)
  show "mset ls = add_mset d (mset (cleaves c))" "lchain (link (index st)) 0 ls 0" using l by (simp_all add: plug_leaves)
qed

section \<open>Insertion without a split\<close>

lemma insert_leaf_room:
  assumes inv: "rt_inv st (plug c (SLeaf d)) ls" and n: "index st d = Some (Node n)" "gbuf st = n" "counter n < MAX_ENTRIES"
  shows "\<exists>st' t'. insert_leaf fl mbr p d (map fst c) st = Some st' \<and> rt_inv st' t' ls \<and>
     keys (items (index st') t') = add_mset (mbr, p) (keys (items (index st) (plug c (SLeaf d)))) \<and>
     add_mset (mbr, p) (live (items (index st) (plug c (SLeaf d)))) \<subseteq># live (items (index st') t')"
proof -
  let ?F = "index st" and ?i = "counter n"
  note ip = inv_path [OF inv]
  have nn: "nodetype n = CHR ''l''" "node_ok n" "clean n" using ip(10) n(1) by auto
  let ?it = "set_entry mbr p (slots n ! ?i)"
  let ?n = "(set_slot ?i ?it n)\<lparr> counter := Suc ?i \<rparr>" and ?L = "cleaves c"
  have "slots n ! ?i \<in> set (drop ?i (slots n))" using n(3) nn(2) by (simp add: node_ok_def Cons_nth_drop_Suc [symmetric])
  then have it: "\<not> it_del ?it" "key ?it = (mbr, p)" using nn(3) by (simp_all add: clean_def set_entry_def)
  have n': "nodetype ?n = CHR ''l''" "node_ok ?n" "used ?n = used n @ [?it]"
    using nn(1,2) n(3) by (simp_all add: node_ok_def set_slot_def used_def take_Suc_update)
  have cl: "clean ?n" using nn(3) set_drop_subset_set_drop [of ?i "Suc ?i" "slots n"] by (auto simp: clean_def set_slot_def)
  let ?st = "write_blk d ?n (st\<lparr> gbuf := ?n \<rparr>)"
  have upd: "\<forall>x\<in>set (cblocks c). content (index ?st) x = content ?F x"
    using ip(3) by (auto simp: write_blk_def intro!: content_upd)
  have pre: "cok (index ?st) c d" "ccov (index ?st) c" "length (slots (gbuf ?st)) = MAX_ENTRIES"
    using path_cong(1,2) [OF upd] ip(1,2) n'(2) by (simp_all add: write_blk_def node_ok_def)
  obtain F g c' where a: "adjust_tree_without_split d mbr (map fst c) ?st = Some (?st\<lparr> index := F, gbuf := g \<rparr>)"
    "length (slots g) = MAX_ENTRIES" "grown c c'" "cok F c' d" "ccov F c'" "within c' {mbr}"
    "\<forall>x. x \<notin> set (map fst c) \<longrightarrow> F x = index ?st x"
    using adjust_without [OF pre(1,2) ip(3,4) pre(3), of mbr] by blast
  let ?st' = "st\<lparr> index := F, gbuf := g \<rparr>" and ?t = "plug c' (SLeaf d)"
  have run: "insert_leaf fl mbr p d (map fst c) st = Some ?st'"
    using a(1) n(2,3) by (simp add: insert_leaf_def Let_def write_blk_def)
  have dc: "d \<notin> set (map fst c)" using ip(3) fst_cblocks [of c] by auto
  have Fd: "F d = Some (Node ?n)" using a(7) [rule_format, OF dc] by (simp add: write_blk_def)
  have Fl: "\<forall>x\<in>set ?L. F x = ?F x"
  proof
    fix x assume x: "x \<in> set ?L"
    have "distinct (cblocks c)" "d \<notin> set (cblocks c)" using ip(3) by simp_all
    then have "x \<notin> set (map fst c)" "x \<noteq> d" using x cleaves_path [of c] cleaves_cblocks [of c] by blast+
    then show "F x = ?F x" using a(7) [rule_format, of x] by (simp add: write_blk_def)
  qed
  have Fx: "\<forall>x. x \<notin> set (d # cblocks c) \<longrightarrow> F x = ?F x"
  proof (intro allI impI)
    fix x assume x: "x \<notin> set (d # cblocks c)"
    then have "x \<notin> set (map fst c)" using fst_cblocks [of c] by auto
    then show "F x = ?F x" using x a(7) [rule_format, of x] by (simp add: write_blk_def)
  qed
  have it_d: "litems ?F d = used n" "litems F d = used n @ [?it]" using n(1) Fd n'(3) by (simp_all add: litems_Node)
  have "within c' (it_rect ` set (litems F d))"
    using grown_within [OF a(3) ip(5)] a(6) it(2) unfolding it_d by (cases c') (auto simp: set_entry_def)
  then have cv: "covers F ?t" using a(5) by (simp add: plug_covers cbound_leaf)
  have okt: "ok F ?t" using a(4) Fd n'(1,2) cl by (simp add: plug_ok)
  have bl: "mset (blocks ?t) = mset (d # cblocks c)" using grown_same(1) [OF a(3)] by (simp add: plug_blocks)
  have "space ?st' (set (blocks ?t))"
    unfolding mset_eq_setD [OF bl] by (rule space_index [OF ip(6)]) (use Fx in simp_all)
  then have "rt_tree ?st' {} ?t"
    using okt cv ip(3,4) mset_eq_imp_distinct_iff [OF bl] glob_gbuf [OF ip(7) a(2)] grown_same(4) [OF a(3)]
    by (simp add: rt_tree_def)
  moreover have lv: "mset (leaves ?t) = add_mset d (mset ?L)" using grown_same(2) [OF a(3)] by (simp add: plug_leaves)
  moreover have "\<forall>b\<in>set ls. link F b = link ?F b"
  proof
    fix b assume "b \<in> set ls"
    then have "b = d \<or> b \<in> set ?L" using arg_cong [OF ip(8), of set_mset] by simp
    then show "link F b = link ?F b" using Fl Fd n(1) by (auto simp: link_def set_slot_def)
  qed
  moreover have it_l: "litems F b = litems ?F b" if "b \<in># mset ?L" for b
    using that Fl by (intro litems_cong content_cong) simp
  moreover have "\<forall>b\<in>set ls. litems F b \<noteq> []"
  proof
    fix b assume b: "b \<in> set ls"
    then have "b = d \<or> b \<in> set ?L" using arg_cong [OF ip(8), of set_mset] by simp
    moreover have "litems ?F b \<noteq> []" using inv b by (simp add: rt_inv_def)
    ultimately show "litems F b \<noteq> []" using it_d it_l [of b] by auto
  qed
  ultimately have "rt_inv ?st' ?t ls"
    using inv ip(8,9) lchain_cong [of ls "link F" "link ?F"] by (simp add: rt_inv_def)
  moreover have kl: "(\<Sum>b\<in>#mset ?L. keys (litems F b)) = (\<Sum>b\<in>#mset ?L. keys (litems ?F b))"
    "(\<Sum>b\<in>#mset ?L. live (litems F b)) = (\<Sum>b\<in>#mset ?L. live (litems ?F b))"
    using it_l by (auto intro!: arg_cong [where f = sum_mset] image_mset_cong)
  have lv0: "mset (leaves (plug c (SLeaf d))) = add_mset d (mset ?L)" by (simp add: plug_leaves)
  have "keys (items F ?t) = add_mset (mbr, p) (keys (items ?F (plug c (SLeaf d))))"
    unfolding keys_sum lv lv0 using kl it_d it(2) by simp
  moreover have "live (items F ?t) = add_mset (mbr, p) (live (items ?F (plug c (SLeaf d))))"
    unfolding live_sum lv lv0 using kl it_d it by (simp add: live_Cons)
  ultimately show ?thesis
    using run by (intro exI [of _ ?st'] exI [of _ ?t]) simp
qed

section \<open>Insertion with a split\<close>

text \<open>Pointers to the neighbours of a leaf, 0 at the ends.\<close>

definition before :: "nat list \<Rightarrow> nat" where
  "before xs = (if xs = [] then 0 else last xs * BLOCKSZ)"

definition behind :: "nat list \<Rightarrow> nat" where
  "behind ys = (if ys = [] then 0 else hd ys * BLOCKSZ)"

lemma read_write_ptr [simp]:
  "read_blk_by_ptr (b * BLOCKSZ) st = read_blk b st" "write_blk_by_ptr (b * BLOCKSZ) n st = Some (write_blk b n st)"
  by (simp_all add: read_blk_by_ptr_def write_blk_by_ptr_def)

lemma relink_prev:
  assumes "\<forall>x\<in>set xs. x \<noteq> 0 \<and> (\<exists>m. index st x = Some (Node m) \<and> length (slots m) = MAX_ENTRIES)"
    and "length (slots (gbuf st)) = MAX_ENTRIES"
  shows "\<exists>F g. (if before xs = 0 then Some st
        else do {
          n \<leftarrow> read_blk_by_ptr (before xs) st;
          let n' = n\<lparr> nextlptr := q \<rparr>;
          write_blk_by_ptr (before xs) n' (st\<lparr> gbuf := n' \<rparr>)
        }) = Some (st\<lparr> index := F, gbuf := g \<rparr>) \<and> length (slots g) = MAX_ENTRIES \<and>
     (\<forall>x. content F x = content (index st) x) \<and>
     (\<forall>x. link F x = (if xs \<noteq> [] \<and> x = last xs then map_option (\<lambda>(p, _). (p, q)) (link (index st) x) else link (index st) x)) \<and>
     (\<forall>x. x \<notin> set xs \<longrightarrow> F x = index st x)"
proof (cases "xs = []")
  case True
  then show ?thesis using assms(2) by (auto simp: before_def intro!: exI [of _ "index st"] exI [of _ "gbuf st"])
next
  case False
  then have z: "last xs \<in> set xs" by simp
  obtain m where m: "index st (last xs) = Some (Node m)" "length (slots m) = MAX_ENTRIES" "last xs \<noteq> 0" using assms(1) z by blast
  let ?m = "m\<lparr> nextlptr := q \<rparr>"
  show ?thesis
    using False m z
    by (intro exI [of _ "(index st)(last xs \<mapsto> Node ?m)"] exI [of _ ?m])
      (auto simp: before_def read_blk_def write_blk_def content_def link_def Let_def)
qed

lemma relink_next:
  assumes "\<forall>x\<in>set ys. x \<noteq> 0 \<and> (\<exists>m. index st x = Some (Node m) \<and> length (slots m) = MAX_ENTRIES)"
    and "length (slots (gbuf st)) = MAX_ENTRIES"
  shows "\<exists>F g. (if behind ys = 0 then Some st
        else do {
          n \<leftarrow> read_blk_by_ptr (behind ys) st;
          let n' = n\<lparr> prevlptr := q \<rparr>;
          write_blk_by_ptr (behind ys) n' (st\<lparr> gbuf := n' \<rparr>)
        }) = Some (st\<lparr> index := F, gbuf := g \<rparr>) \<and> length (slots g) = MAX_ENTRIES \<and>
     (\<forall>x. content F x = content (index st) x) \<and>
     (\<forall>x. link F x = (if ys \<noteq> [] \<and> x = hd ys then map_option (\<lambda>(_, p). (q, p)) (link (index st) x) else link (index st) x)) \<and>
     (\<forall>x. x \<notin> set ys \<longrightarrow> F x = index st x)"
proof (cases "ys = []")
  case True
  then show ?thesis using assms(2) by (auto simp: behind_def intro!: exI [of _ "index st"] exI [of _ "gbuf st"])
next
  case False
  then have z: "hd ys \<in> set ys" by simp
  obtain m where m: "index st (hd ys) = Some (Node m)" "length (slots m) = MAX_ENTRIES" "hd ys \<noteq> 0" using assms(1) z by blast
  let ?m = "m\<lparr> prevlptr := q \<rparr>"
  show ?thesis
    using False m z
    by (intro exI [of _ "(index st)(hd ys \<mapsto> Node ?m)"] exI [of _ ?m])
      (auto simp: behind_def read_blk_def write_blk_def content_def link_def Let_def)
qed

lemma relink_chain:
  assumes "lchain L 0 (xs @ d # ys) 0" and "distinct (xs @ b0 # b1 # ys)"
    and "\<forall>x. x \<in> set xs \<union> set ys \<longrightarrow> L2 x = L x"
    and "L2 b0 = Some (before xs, b1 * BLOCKSZ)" and "L2 b1 = Some (b0 * BLOCKSZ, behind ys)"
    and "\<forall>x. L3 x = (if xs \<noteq> [] \<and> x = last xs then map_option (\<lambda>(p, _). (p, b0 * BLOCKSZ)) (L2 x) else L2 x)"
    and "\<forall>x. L4 x = (if ys \<noteq> [] \<and> x = hd ys then map_option (\<lambda>(_, p). (b1 * BLOCKSZ, p)) (L3 x) else L3 x)"
  shows "lchain L4 0 (xs @ b0 # b1 # ys) 0"
proof -
  have c: "lchain L 0 xs (d * BLOCKSZ)" "lchain L (d * BLOCKSZ) ys 0"
    using assms(1) by (simp_all add: lchain_append)
  have "lchain L4 0 xs (b0 * BLOCKSZ)"
  proof (cases xs rule: rev_cases)
    case Nil
    then show ?thesis by simp
  next
    case (snoc us z)
    have "\<forall>x\<in>set us. L4 x = L x" using assms(2,3,6,7) snoc by (cases ys) auto
    then have "lchain L4 0 us (z * BLOCKSZ)" using c(1) snoc lchain_cong [of us L4 L] by (simp add: lchain_append)
    moreover have "L4 z = map_option (\<lambda>(p, _). (p, b0 * BLOCKSZ)) (L z)" using assms(2,3,6,7) snoc by (cases ys) auto
    ultimately show ?thesis using c(1) snoc by (simp add: lchain_append)
  qed
  moreover have "lchain L4 (b1 * BLOCKSZ) ys 0"
  proof (cases ys)
    case Nil
    then show ?thesis by simp
  next
    case (Cons z us)
    have "L4 x = L x" if "x \<in> set us" for x
    proof -
      have "x \<notin> set xs" "x \<noteq> z" "x \<in> set ys" using assms(2) Cons that by auto
      then show ?thesis using assms(3,6,7) Cons last_in_set [of xs] by auto
    qed
    then have "\<forall>x\<in>set us. L4 x = L x" by blast
    then have "lchain L4 (z * BLOCKSZ) us 0" using c(2) Cons lchain_cong [of us L4 L] by simp
    moreover have "z \<notin> set xs" "z \<noteq> b0" using assms(2) Cons by auto
    then have "L3 z = L z" using assms(3,6) Cons by (cases xs rule: rev_cases) auto
    then have "L4 z = map_option (\<lambda>(_, p). (b1 * BLOCKSZ, p)) (L z)" using assms(7) Cons by simp
    ultimately show ?thesis using c(2) Cons by simp
  qed
  moreover have "b0 \<notin> set xs \<union> set ys" "b1 \<notin> set xs \<union> set ys" using assms(2) by auto
  then have "L4 b0 = L2 b0" "L4 b1 = L2 b1"
    using assms(6,7) last_in_set [of xs] hd_in_set [of ys] by auto
  ultimately show ?thesis using assms(4,5) by (simp add: lchain_append before_def behind_def)
qed

lemma content_slots:
  assumes "content F' x = content F x" and "\<exists>m. F x = Some (Node m) \<and> length (slots m) = MAX_ENTRIES"
  shows "\<exists>m. F' x = Some (Node m) \<and> length (slots m) = MAX_ENTRIES"
proof -
  obtain m where "F x = Some (Node m)" "length (slots m) = MAX_ENTRIES" using assms(2) by blast
  then have "content F' x = Some (nodetype m, counter m, slots m)" "length (slots m) = MAX_ENTRIES"
    using assms(1) by (simp_all add: content_def)
  then show ?thesis by (auto simp: content_Node)
qed

lemma relink_leaves_ok:
  assumes "\<forall>x\<in>set xs \<union> set ys. x \<noteq> 0 \<and> (\<exists>m. index st x = Some (Node m) \<and> length (slots m) = MAX_ENTRIES)"
    and "length (slots (gbuf st)) = MAX_ENTRIES" and "lchain L 0 (xs @ d # ys) 0" and "distinct (xs @ blkno0 st # blkno1 st # ys)"
    and "\<forall>x. x \<in> set xs \<union> set ys \<longrightarrow> link (index st) x = L x"
    and "link (index st) (blkno0 st) = Some (before xs, blkno1 st * BLOCKSZ)"
    and "link (index st) (blkno1 st) = Some (blkno0 st * BLOCKSZ, behind ys)"
  shows "\<exists>F g. relink_leaves (before xs) (behind ys) st = Some (st\<lparr> index := F, gbuf := g \<rparr>) \<and>
     length (slots g) = MAX_ENTRIES \<and> (\<forall>x. content F x = content (index st) x) \<and>
     lchain (link F) 0 (xs @ blkno0 st # blkno1 st # ys) 0 \<and> (\<forall>x. x \<notin> set xs \<union> set ys \<longrightarrow> F x = index st x)"
proof -
  have "\<forall>x\<in>set xs. x \<noteq> 0 \<and> (\<exists>m. index st x = Some (Node m) \<and> length (slots m) = MAX_ENTRIES)" using assms(1) by blast
  from relink_prev [OF this assms(2), of "blkno0 st * BLOCKSZ"] obtain F g where F:
    "(if before xs = 0 then Some st else do {
        n \<leftarrow> read_blk_by_ptr (before xs) st;
        let n' = n\<lparr> nextlptr := blkno0 st * BLOCKSZ \<rparr>;
        write_blk_by_ptr (before xs) n' (st\<lparr> gbuf := n' \<rparr>)
      }) = Some (st\<lparr> index := F, gbuf := g \<rparr>)"
    "length (slots g) = MAX_ENTRIES" "\<forall>x. content F x = content (index st) x"
    "\<forall>x. link F x = (if xs \<noteq> [] \<and> x = last xs then map_option (\<lambda>(p, _). (p, blkno0 st * BLOCKSZ)) (link (index st) x)
        else link (index st) x)"
    "\<forall>x. x \<notin> set xs \<longrightarrow> F x = index st x" by blast
  let ?st = "st\<lparr> index := F, gbuf := g \<rparr>"
  have y: "\<forall>x\<in>set ys. x \<noteq> 0 \<and> (\<exists>m. index ?st x = Some (Node m) \<and> length (slots m) = MAX_ENTRIES)"
    using assms(1) content_slots [OF F(3) [rule_format]] by simp
  have "length (slots (gbuf ?st)) = MAX_ENTRIES" using F(2) by simp
  from relink_next [OF y this, of "blkno1 st * BLOCKSZ"] obtain F' g' where F':
    "(if behind ys = 0 then Some ?st else do {
        n \<leftarrow> read_blk_by_ptr (behind ys) ?st;
        let n' = n\<lparr> prevlptr := blkno1 st * BLOCKSZ \<rparr>;
        write_blk_by_ptr (behind ys) n' (?st\<lparr> gbuf := n' \<rparr>)
      }) = Some (?st\<lparr> index := F', gbuf := g' \<rparr>)"
    "length (slots g') = MAX_ENTRIES" "\<forall>x. content F' x = content (index ?st) x"
    "\<forall>x. link F' x = (if ys \<noteq> [] \<and> x = hd ys then map_option (\<lambda>(_, p). (blkno1 st * BLOCKSZ, p)) (link (index ?st) x)
        else link (index ?st) x)"
    "\<forall>x. x \<notin> set ys \<longrightarrow> F' x = index ?st x" by blast
  have "relink_leaves (before xs) (behind ys) st = Some (st\<lparr> index := F', gbuf := g' \<rparr>)"
    unfolding relink_leaves_def F(1) bind.bind_lunit F'(1) by simp
  moreover have "lchain (link F') 0 (xs @ blkno0 st # blkno1 st # ys) 0"
    by (rule relink_chain [OF assms(3,4,5,6,7) F(4)]) (use F'(4) in simp)
  moreover have "\<forall>x. content F' x = content (index st) x" using F(3) F'(3) by simp
  moreover have "\<forall>x. x \<notin> set xs \<union> set ys \<longrightarrow> F' x = index st x" using F(5) F'(5) by simp
  ultimately show ?thesis using F'(2) by blast
qed

lemma relink_lptr:
  "relink_leaves p q (st\<lparr> rt_lptr := l \<rparr>) = map_option (\<lambda>s. s\<lparr> rt_lptr := l \<rparr>) (relink_leaves p q st)"
  by (cases "read_blk_by_ptr p st"; cases "p mod BLOCKSZ = 0"; cases "q mod BLOCKSZ = 0")
    (auto simp: relink_leaves_def Let_def read_blk_by_ptr_def write_blk_by_ptr_def read_blk_def write_blk_def
      split: option.splits rt_block.splits)

text \<open>The leaf to split: its place in the chain, and the pointers to its neighbours.\<close>

lemma split_neighbours:
  assumes "rt_inv st (plug c (SLeaf d)) ls" and "index st d = Some (Node n)"
  obtains xs ys where "ls = xs @ d # ys" "distinct ls" "mset (xs @ ys) = mset (cleaves c)"
    "(if d = 1 then 0 else prevlptr n) = before xs" "(if d = 1 then 0 else nextlptr n) = behind ys"
proof -
  note ip = inv_path [OF assms(1)]
  have "d \<in> set ls" using arg_cong [OF ip(8), of set_mset] by simp
  then obtain xs ys where l: "ls = xs @ d # ys" by (meson split_list)
  have m: "mset (xs @ ys) = mset (cleaves c)" using ip(8) l by simp
  have "rt_tree st {} (plug c (SLeaf d))" using assms(1) by (simp add: rt_inv_def)
  then have "distinct (blocks (plug c (SLeaf d)))" by (simp add: rt_tree_def)
  then have "distinct (leaves (plug c (SLeaf d)))" by (rule distinct_leaves)
  moreover have "mset ls = mset (leaves (plug c (SLeaf d)))" using assms(1) by (simp add: rt_inv_def)
  ultimately have "distinct ls" using mset_eq_imp_distinct_iff by blast
  moreover have "link (index st) d = Some (before xs, behind ys)"
    using ip(9) unfolding l lchain_append by (auto simp: before_def behind_def)
  then have "prevlptr n = before xs" "nextlptr n = behind ys" using assms(2) by (simp_all add: link_def)
  moreover have "xs = [] \<and> ys = []" if "d = 1"
  proof (cases c)
    case Nil
    then show ?thesis using m by simp
  next
    case (Cons f c')
    obtain b l r rs where f: "f = (b, l, r, rs)" by (cases f)
    have "rootblk c d \<in> set (cblocks c)" using rootblk_in [of c' b] by (auto simp: Cons f)
    then show ?thesis using ip(3,4) that by simp
  qed
  then have "d = 1 \<Longrightarrow> before xs = 0" "d = 1 \<Longrightarrow> behind ys = 0" by (simp_all add: before_def behind_def)
  ultimately have "(if d = 1 then 0 else prevlptr n) = before xs" "(if d = 1 then 0 else nextlptr n) = behind ys" by simp_all
  then show ?thesis by (rule that [OF l \<open>distinct ls\<close> m])
qed

lemma ok_slots:
  assumes "ok F t" and "x \<in> set (blocks t)"
  shows "\<exists>m. F x = Some (Node m) \<and> length (slots m) = MAX_ENTRIES"
  using assms
proof (induction t rule: shape_induct)
  case (leaf b)
  then show ?case by (auto simp: node_ok_def)
next
  case (node b ks)
  show ?case
  proof (cases "x = b")
    case True
    then show ?thesis using node.prems(1) by (auto simp: inner_def node_ok_def)
  next
    case False
    then obtain r t where k: "(r, t) \<in> set ks" "x \<in> set (blocks t)" using node.prems(2) by auto
    then show ?thesis using node.IH [OF k(1)] node.prems(1) by auto
  qed
qed

text \<open>The leaf has been split and its neighbours relinked; the path is still to be adjusted.\<close>

lemma split_pending:
  assumes inv: "rt_inv st (plug c (SLeaf d)) ls" and n: "index st d = Some (Node n)" and rd: "rounding fl"
    and l: "ls = xs @ d # ys" "distinct ls" "mset (xs @ ys) = mset (cleaves c)"
  obtains st1 st3 a b b0 b1 where
    "split_node fl d mbr p CHR ''l'' (before xs) (behind ys) st = Some st1"
    "halves (set_entry mbr p (itembuf st ! 0) # slots n) a b (coverr0 st1) (coverr1 st1)"
    "rt_lptr st1 = rt_lptr st" "blkno0 st1 = b0"
    "\<forall>q. relink_leaves (before xs) (behind ys) (st1\<lparr> rt_lptr := q \<rparr>) = Some (st3\<lparr> rt_lptr := q \<rparr>)"
    "\<forall>q. pending (st3\<lparr> rt_lptr := q \<rparr>) {} c d (SLeaf b0) (SLeaf b1)"
    "litems (index st3) b0 = used a" "litems (index st3) b1 = used b"
    "\<forall>x\<in>set (cleaves c). litems (index st3) x = litems (index st) x"
    "lchain (link (index st3)) 0 (xs @ b0 # b1 # ys) 0"
proof -
  let ?F = "index st" and ?B = "set (d # cblocks c)"
  note ip = inv_path [OF inv]
  have nn: "nodetype n = CHR ''l''" "node_ok n" "clean n" using ip(10) n by auto
  obtain st1 a b b0 b1 where s:
    "split_node fl d mbr p CHR ''l'' (before xs) (behind ys) st = Some st1"
    "halves (set_entry mbr p (itembuf st ! 0) # slots n) a b (coverr0 st1) (coverr1 st1)"
    "index st1 = ?F(b0 \<mapsto> Node a, b1 \<mapsto> Node b)" "b0 \<notin> ?B" "b1 \<notin> ?B" "b0 \<noteq> b1"
    "space st1 (insert b0 (insert b1 ?B))" "glob st1" "blkno0 st1 = b0" "blkno1 st1 = b1" "rt_lptr st1 = rt_lptr st"
    "nodetype a = CHR ''l''" "nodetype b = CHR ''l''"
    "CHR ''l'' = CHR ''l'' \<Longrightarrow> nextlptr a = b1 * BLOCKSZ \<and> prevlptr a = before xs \<and> nextlptr b = behind ys \<and> prevlptr b = b0 * BLOCKSZ"
    by (rule split_node_halves [OF rd n nn(2) ip(7,6), where ty = "CHR ''l''" and mbr = mbr and p = p and ?ptr0.0 = "before xs"
          and ?ptr1.0 = "behind ys"]) (rule that; assumption)
  have sl: "set xs \<union> set ys = set (cleaves c)" using mset_eq_setD [OF l(3)] by simp
  have slB: "set xs \<union> set ys \<subseteq> ?B" "d \<notin> set xs \<union> set ys" using sl cleaves_cblocks [of c] l(1,2) by auto
  have nb: "b0 \<notin> set xs \<union> set ys" "b1 \<notin> set xs \<union> set ys" using s(4,5) slB(1) by blast+
  have same: "\<forall>x\<in>?B. index st1 x = ?F x" using s(3-5) by auto
  have nodes: "\<forall>x\<in>set xs \<union> set ys. x \<noteq> 0 \<and> (\<exists>m. index st1 x = Some (Node m) \<and> length (slots m) = MAX_ENTRIES)"
  proof
    fix x assume x: "x \<in> set xs \<union> set ys"
    then have xB: "x \<in> ?B" using slB(1) by blast
    have "rt_tree st {} (plug c (SLeaf d))" using inv by (simp add: rt_inv_def)
    then have "ok ?F (plug c (SLeaf d))" by (simp add: rt_tree_def)
    moreover have "x \<in> set (blocks (plug c (SLeaf d)))"
      using xB mset_eq_setD [of "blocks (plug c (SLeaf d))" "d # cblocks c"] by (simp add: plug_blocks)
    ultimately have "\<exists>m. ?F x = Some (Node m) \<and> length (slots m) = MAX_ENTRIES" by (rule ok_slots)
    moreover have "x \<noteq> 0" using ip(6) xB by (auto simp: space_def)
    ultimately show "x \<noteq> 0 \<and> (\<exists>m. index st1 x = Some (Node m) \<and> length (slots m) = MAX_ENTRIES)"
      using same [rule_format, OF xB] by simp
  qed
  have lk: "\<forall>x. x \<in> set xs \<union> set ys \<longrightarrow> link (index st1) x = link ?F x" using same slB(1) link_cong by blast
  have lab: "link (index st1) b0 = Some (before xs, b1 * BLOCKSZ)" "link (index st1) b1 = Some (b0 * BLOCKSZ, behind ys)"
    using s(3,6,14) by (simp_all add: link_def)
  have "distinct (xs @ blkno0 st1 # blkno1 st1 # ys)" using l(1,2) nb s(6,9,10) by auto
  moreover have "length (slots (gbuf st1)) = MAX_ENTRIES" using s(8) by (simp add: glob_def)
  ultimately obtain G g where G: "relink_leaves (before xs) (behind ys) st1 = Some (st1\<lparr> index := G, gbuf := g \<rparr>)"
    "length (slots g) = MAX_ENTRIES" "\<forall>x. content G x = content (index st1) x" "lchain (link G) 0 (xs @ b0 # b1 # ys) 0"
    "\<forall>x. x \<notin> set xs \<union> set ys \<longrightarrow> G x = index st1 x"
    using relink_leaves_ok [OF nodes _ ip(9) [unfolded l(1)] _ lk] lab s(9,10) by metis
  let ?st3 = "st1\<lparr> index := G, gbuf := g \<rparr>"
  have Gn: "G d = Some (Node n)" "G b0 = Some (Node a)" "G b1 = Some (Node b)"
    using G(5) [rule_format, OF slB(2)] G(5) [rule_format, OF nb(1)] G(5) [rule_format, OF nb(2)] same s(3,6) n by simp_all
  have cfr: "\<forall>x\<in>set (cblocks c). content G x = content ?F x" 
  proof
    fix x assume "x \<in> set (cblocks c)"
    then have "index st1 x = ?F x" using same by simp
    then show "content G x = content ?F x" using G(3) content_cong by metis
  qed
  have hv: "node_ok a" "node_ok b" "clean a" "clean b" "\<forall>it\<in>set (used a). inside (it_rect it) (coverr0 st1)"
    "\<forall>it\<in>set (used b). inside (it_rect it) (coverr1 st1)" using s(2) by (simp_all add: halves_def)
  have rl: "\<forall>q. relink_leaves (before xs) (behind ys) (st1\<lparr> rt_lptr := q \<rparr>) = Some (?st3\<lparr> rt_lptr := q \<rparr>)"
    by (simp add: relink_lptr G(1))
  have pend: "\<forall>q. pending (?st3\<lparr> rt_lptr := q \<rparr>) {} c d (SLeaf b0) (SLeaf b1)"
  proof
    fix q
    have "cok G c d" "ccov G c" using path_cong(1,2) [OF cfr] ip(1,2) by simp_all
    moreover have "space (?st3\<lparr> rt_lptr := q \<rparr>) (set (d # blocks (SLeaf b0) @ blocks (SLeaf b1) @ cblocks c))"
    proof (rule space_index)
      show "space st1 (set (d # blocks (SLeaf b0) @ blocks (SLeaf b1) @ cblocks c))"
        using s(7) by (simp add: insert_commute)
    qed (use G(5) slB(1) in auto)
    moreover have "distinct (d # blocks (SLeaf b0) @ blocks (SLeaf b1) @ cblocks c)" using s(4-6) ip(3) by auto
    moreover have "glob (?st3\<lparr> rt_lptr := q \<rparr>)" using s(8) G(2) by (simp add: glob_def)
    moreover have "length (slots n) = MAX_ENTRIES" using nn(2) by (simp add: node_ok_def)
    ultimately show "pending (?st3\<lparr> rt_lptr := q \<rparr>) {} c d (SLeaf b0) (SLeaf b1)"
      using ip(4) Gn hv s(9,10,12,13) by (simp add: pending_def)
  qed
  have "litems G b0 = used a" "litems G b1 = used b" using Gn by (simp_all add: litems_Node)
  moreover have "\<forall>x\<in>set (cleaves c). litems G x = litems ?F x" using cfr cleaves_cblocks [of c] litems_cong by blast
  ultimately show ?thesis using G(4) by (intro that [OF s(1,2,11,9) rl pend]) simp_all
qed

lemma insert_split:
  assumes inv: "rt_inv st (plug c (SLeaf d)) ls" and n: "index st d = Some (Node n)" "gbuf st = n" "counter n = MAX_ENTRIES"
    and rd: "rounding fl"
  shows "\<exists>st' t' ls'. insert_leaf fl mbr p d (map fst c) st = Some st' \<and> rt_inv st' t' ls' \<and>
     keys (items (index st') t') = add_mset (mbr, p) (keys (items (index st) (plug c (SLeaf d)))) \<and>
     add_mset (mbr, p) (live (items (index st) (plug c (SLeaf d)))) \<subseteq># live (items (index st') t')"
proof -
  let ?F = "index st"
  note ip = inv_path [OF inv]
  obtain xs ys where l: "ls = xs @ d # ys" "distinct ls" "mset (xs @ ys) = mset (cleaves c)"
    "(if d = 1 then 0 else prevlptr n) = before xs" "(if d = 1 then 0 else nextlptr n) = behind ys"
    by (rule split_neighbours [OF inv n(1)])
  obtain st1 st3 a b b0 b1 where s:
    "split_node fl d mbr p CHR ''l'' (before xs) (behind ys) st = Some st1"
    "halves (set_entry mbr p (itembuf st ! 0) # slots n) a b (coverr0 st1) (coverr1 st1)"
    "rt_lptr st1 = rt_lptr st" "blkno0 st1 = b0"
    "\<forall>q. relink_leaves (before xs) (behind ys) (st1\<lparr> rt_lptr := q \<rparr>) = Some (st3\<lparr> rt_lptr := q \<rparr>)"
    "\<forall>q. pending (st3\<lparr> rt_lptr := q \<rparr>) {} c d (SLeaf b0) (SLeaf b1)"
    "litems (index st3) b0 = used a" "litems (index st3) b1 = used b"
    "\<forall>x\<in>set (cleaves c). litems (index st3) x = litems ?F x" "lchain (link (index st3)) 0 (xs @ b0 # b1 # ys) 0"
    by (rule split_pending [OF inv n(1) rd l(1-3), where mbr = mbr and p = p]) (rule that; assumption)
  let ?q = "hd (xs @ b0 # b1 # ys) * BLOCKSZ" and ?ls = "xs @ b0 # b1 # ys"
  have "rt_lptr st = hd ls * BLOCKSZ" using inv by (simp add: rt_inv_def)
  moreover have "hd xs \<noteq> d" if "xs \<noteq> []" using l(1,2) that hd_in_set [of xs] by auto
  ultimately have lp: "(if d * BLOCKSZ = rt_lptr st1 then st1\<lparr> rt_lptr := b0 * BLOCKSZ \<rparr> else st1) = st1\<lparr> rt_lptr := ?q \<rparr>"
    using l(1) s(3) by (cases xs) auto
  obtain st' t' where a: "adjust_tree_with_split fl d (map fst c) (st3\<lparr> rt_lptr := ?q \<rparr>) = Some st'" "rt_tree st' {} t'"
    "rt_lptr st' = ?q" "mset (leaves t') = mset (b0 # b1 # cleaves c)"
    "\<forall>x\<in>set (b0 # b1 # cleaves c). index st' x = index st3 x"
    using adjust_with [OF rd s(6) [rule_format, of ?q]] by auto
  have run: "insert_leaf fl mbr p d (map fst c) st = Some st'"
    unfolding insert_leaf_def Let_def n(2) l(4,5) s(1) bind.bind_lunit s(4) lp s(5) [rule_format] a(1) using n(3) by simp
  have lv: "mset ?ls = mset (leaves t')" using a(4) l(3) by simp
  have "set ?ls = set (b0 # b1 # cleaves c)" using mset_eq_setD [OF l(3)] by auto
  then have "\<forall>x\<in>set ?ls. link (index st') x = link (index st3) x" using a(5) link_cong by blast
  then have "lchain (link (index st')) 0 ?ls 0" using s(10) lchain_cong by blast
  moreover have it: "litems (index st') x = litems (index st3) x" if "x \<in> set (b0 # b1 # cleaves c)" for x
    using a(5) that litems_cong content_cong by blast
  moreover have itl: "litems (index st') x = litems ?F x" if "x \<in># mset (cleaves c)" for x using it [of x] s(9) that by simp
  moreover have "\<forall>x\<in>set ?ls. litems (index st') x \<noteq> []"
  proof
    fix x assume x: "x \<in> set ?ls"
    have "\<forall>x\<in>set (cleaves c). litems ?F x \<noteq> []" using inv l(1) mset_eq_setD [OF l(3)] by (auto simp: rt_inv_def)
    moreover have "used a \<noteq> []" "used b \<noteq> []" using s(2) by (simp_all add: halves_def)
    moreover have "x = b0 \<or> x = b1 \<or> x \<in> set (cleaves c)" using x mset_eq_setD [OF l(3)] by auto
    ultimately show "litems (index st') x \<noteq> []" using it [of x] itl [of x] s(7,8) by auto
  qed
  ultimately have "rt_inv st' t' ?ls" using a(2,3) lv by (simp add: rt_inv_def)
  moreover have sums: "(\<Sum>x\<in>#mset (cleaves c). keys (litems (index st') x)) = (\<Sum>x\<in>#mset (cleaves c). keys (litems ?F x))"
    "(\<Sum>x\<in>#mset (cleaves c). live (litems (index st') x)) = (\<Sum>x\<in>#mset (cleaves c). live (litems ?F x))"
    using itl by (auto intro!: arg_cong [where f = sum_mset] image_mset_cong)
  have lv0: "mset (leaves (plug c (SLeaf d))) = add_mset d (mset (cleaves c))" by (simp add: plug_leaves)
  have nok: "node_ok n" using ip(10) n(1) by auto
  have ud: "litems ?F d = slots n" using n(1,3) nok by (simp add: litems_Node used_def node_ok_def)
  have uab: "litems (index st') b0 = used a" "litems (index st') b1 = used b" using it s(7,8) by simp_all
  have hk: "keys (used a) + keys (used b) = add_mset (mbr, p) (keys (slots n))"
    "add_mset (mbr, p) (live (slots n)) \<subseteq># live (used a) + live (used b)"
    using s(2) ip(7) by (simp_all add: halves_def set_entry_def live_Cons glob_def)
  have "keys (items (index st') t') = add_mset (mbr, p) (keys (items ?F (plug c (SLeaf d))))"
    unfolding keys_sum a(4) lv0 using sums(1) uab ud hk(1) by simp
  moreover have "add_mset (mbr, p) (live (items ?F (plug c (SLeaf d)))) \<subseteq># live (items (index st') t')"
    unfolding live_sum a(4) lv0 using sums(2) uab ud subset_mset.add_right_mono [OF hk(2)] by simp
  ultimately show ?thesis using run by blast
qed

section \<open>Insertion\<close>

lemma rt_inv_gbuf:
  assumes "rt_inv st t ls" and "length (slots g) = MAX_ENTRIES"
  shows "rt_inv (st\<lparr> gbuf := g \<rparr>) t ls"
proof -
  have "space (st\<lparr> gbuf := g \<rparr>) B = space st B" for B by (simp add: space_def)
  then show ?thesis using assms by (simp add: rt_inv_def rt_tree_def glob_def)
qed

lemma inv_height:
  assumes "rt_inv st t ls"
  shows "height t < tb_ind st"
proof -
  have d: "distinct (blocks t)" and sp: "space st (set (blocks t))" using assms by (simp_all add: rt_inv_def rt_tree_def)
  have "set (blocks t) \<subseteq> {1..<tb_ind st}" "1 < tb_ind st" using sp unfolding space_def by fastforce+
  then have "card (set (blocks t)) < tb_ind st" using card_mono [of "{1..<tb_ind st}" "set (blocks t)"] by simp
  then show ?thesis using height_blocks [of t] distinct_card [OF d] by simp
qed

lemma insert_step:
  assumes rd: "rounding fl" and inv: "rt_inv st t ls"
  shows "\<exists>st' t' ls'. insert_rtree_aux fl mbr p st = Ret st' \<and> rt_inv st' t' ls' \<and>
     keys (items (index st') t') = add_mset (mbr, p) (keys (items (index st) t)) \<and>
     add_mset (mbr, p) (live (items (index st) t)) \<subseteq># live (items (index st') t')"
proof -
  have t: "blk t = 1" "ok (index st) t" "space st (set (blocks t))" using inv by (simp_all add: rt_inv_def rt_tree_def)
  obtain r where r: "index st 1 = Some (Node r)" using ok_slots [OF t(2), of 1] t(1) blk_in_blocks [of t] by auto
  have "height t \<le> tb_ind st" using inv_height [OF inv] by simp
  moreover have "ok (index (st\<lparr> gbuf := r \<rparr>)) t" "index (st\<lparr> gbuf := r \<rparr>) (blk t) = Some (Node (gbuf (st\<lparr> gbuf := r \<rparr>)))"
    using t(1,2) r by simp_all
  ultimately obtain c d g where cl: "choose_loop fl (tb_ind st) mbr (blk t) [] (st\<lparr> gbuf := r \<rparr>) = Ret (d, map fst c @ [], (st\<lparr> gbuf := r \<rparr>)\<lparr> gbuf := g \<rparr>)"
    "t = plug c (SLeaf d)"
    using choose_loop_leaf [OF rd, of "st\<lparr> gbuf := r \<rparr>" t "tb_ind st" mbr "[]"] by blast
  have ptr: "read_blk_by_ptr BLOCKSZ st = Some r" using read_write_ptr(1) [of 1 st] r by (simp add: read_blk_def)
  have ch: "choose_leaf fl mbr st = Ret (d, map fst c, st\<lparr> gbuf := g \<rparr>)" using cl(1) t(1) ptr by (simp add: choose_leaf_def)
  note ip = inv_path [OF inv [unfolded cl(2)]]
  obtain n where n: "index st d = Some (Node n)" "node_ok n" using ip(10) by blast
  let ?st = "st\<lparr> gbuf := n \<rparr>"
  have inv': "rt_inv ?st (plug c (SLeaf d)) ls" using rt_inv_gbuf [OF inv [unfolded cl(2)]] n(2) by (simp add: node_ok_def)
  have n': "index ?st d = Some (Node n)" "gbuf ?st = n" using n by simp_all
  have "\<exists>st' t' ls'. insert_leaf fl mbr p d (map fst c) ?st = Some st' \<and> rt_inv st' t' ls' \<and>
     keys (items (index st') t') = add_mset (mbr, p) (keys (items (index ?st) (plug c (SLeaf d)))) \<and>
     add_mset (mbr, p) (live (items (index ?st) (plug c (SLeaf d)))) \<subseteq># live (items (index st') t')" (is "\<exists>st' t' ls'. ?P st' t' ls'")
  proof (cases "counter n = MAX_ENTRIES")
    case True
    show ?thesis by (rule insert_split [OF inv' n' True rd])
  next
    case False
    then have "counter n < MAX_ENTRIES" using n(2) by (simp add: node_ok_def)
    from insert_leaf_room [OF inv' n' this] show ?thesis by blast
  qed
  then obtain st' t' ls' where o: "?P st' t' ls'" by blast
  have "insert_rtree_aux fl mbr p st =
      (case insert_leaf fl mbr p d (map fst c) ?st of None \<Rightarrow> Crash | Some st' \<Rightarrow> Ret st')"
    using ch n(1) space_fb [OF t(3)] by (simp add: insert_rtree_aux_def read_blk_def)
  then have "insert_rtree_aux fl mbr p st = Ret st'" using o by simp
  then show ?thesis using o unfolding cl(2) by (intro exI [of _ st'] exI [of _ t'] exI [of _ ls']) simp
qed

text \<open>Static storage before the first use: no deletion mark in the buffers.\<close>

definition blank :: "rtree \<Rightarrow> bool" where
  "blank st \<longleftrightarrow> glob st \<and> (\<forall>it\<in>set (slots (gbuf st)). \<not> it_del it)"

lemma blank_init: "blank st \<Longrightarrow> blank (init_rtree st)"
  by (simp add: blank_def glob_def init_rtree_def)

lemma init_fields: "fb_ind (init_rtree st) = 1" "tb_ind (init_rtree st) = 1" "rt_lptr (init_rtree st) = BLOCKSZ"
  by (simp_all add: init_rtree_def)

lemma insert_first:
  assumes "blank st" and "fb_ind st = 1" and "tb_ind st = 1" and "rt_lptr st = BLOCKSZ"
  shows "\<exists>st'. insert_rtree_aux fl mbr p st = Ret st' \<and> rt_inv st' (SLeaf 1) [1] \<and>
     items (index st') (SLeaf 1) = [\<lparr> it_rect = mbr, it_ptr = p, it_del = False \<rparr>]"
proof -
  let ?s = "slots (gbuf st)"
  have g: "glob st" "length ?s = MAX_ENTRIES" using assms(1) by (simp_all add: blank_def glob_def)
  then obtain x xs where s: "?s = x # xs" by (cases ?s) (auto simp: MAX_ENTRIES_val)
  have m: "\<forall>it\<in>set xs. \<not> it_del it" "Suc (length xs) = MAX_ENTRIES" using assms(1) g(2) s by (auto simp: blank_def)
  let ?n = "(gbuf st)\<lparr> nodetype := CHR ''l'', nextlptr := 0, prevlptr := 0,
      slots := \<lparr> it_rect = mbr, it_ptr = p, it_del = False \<rparr> # xs, counter := 1 \<rparr>"
  let ?st = "write_blk 1 ?n (st\<lparr> fb_ind := 2, tb_ind := 2, gbuf := ?n \<rparr>)"
  have x: "x\<lparr> it_del := False, it_rect := mbr, it_ptr := p \<rparr> = \<lparr> it_rect = mbr, it_ptr = p, it_del = False \<rparr>" by (cases x) simp
  have M: "0 \<noteq> MAX_ENTRIES" by (simp add: MAX_ENTRIES_val)
  have run: "insert_rtree_aux fl mbr p st = Ret ?st"
    using s M assms(2,3) by (simp add: insert_rtree_aux_def insert_leaf_def set_slot_def set_entry_def Let_def write_blk_def x)
  have "glob ?st" using g(1) m(2) by (simp add: glob_def write_blk_def)
  moreover have "space ?st {1}" by (auto simp: space_def write_blk_def intro!: exI [of _ "[]"])
  moreover have "clean ?n" "node_ok ?n" using m by (simp_all add: clean_def node_ok_def)
  ultimately have "rt_inv ?st (SLeaf 1) [1]"
    using assms(4) by (simp add: rt_inv_def rt_tree_def write_blk_def link_def litems_def used_def)
  moreover have "items (index ?st) (SLeaf 1) = [\<lparr> it_rect = mbr, it_ptr = p, it_del = False \<rparr>]"
    by (simp add: write_blk_def used_def)
  ultimately show ?thesis using run by blast
qed

section \<open>Runs of insertions\<close>

primrec rt_inserts :: "(int \<Rightarrow> int) \<Rightarrow> (Rect \<times> nat) list \<Rightarrow> rtree \<Rightarrow> rtree outcome" where
  "rt_inserts fl [] st = Ret st"
| "rt_inserts fl (x # xs) st =
     (case insert_rtree_aux fl (fst x) (snd x) st of
        Ret st' \<Rightarrow> rt_inserts fl xs st'
      | Crash \<Rightarrow> Crash
      | NoFuel \<Rightarrow> NoFuel)"

lemma inserts_inv:
  assumes "rounding fl" and "rt_inv st t ls"
  shows "\<exists>st' t' ls'. rt_inserts fl ins st = Ret st' \<and> rt_inv st' t' ls' \<and>
     keys (items (index st') t') = mset ins + keys (items (index st) t) \<and>
     mset ins + live (items (index st) t) \<subseteq># live (items (index st') t')"
  using assms(2)
proof (induction ins arbitrary: st t ls)
  case Nil
  then show ?case by (intro exI [of _ st] exI [of _ t] exI [of _ ls]) simp
next
  case (Cons x xs)
  obtain st1 t1 ls1 where s: "insert_rtree_aux fl (fst x) (snd x) st = Ret st1" "rt_inv st1 t1 ls1"
    "keys (items (index st1) t1) = add_mset (fst x, snd x) (keys (items (index st) t))"
    "add_mset (fst x, snd x) (live (items (index st) t)) \<subseteq># live (items (index st1) t1)"
    using insert_step [OF assms(1) Cons.prems] by blast
  obtain st' t' ls' where r: "rt_inserts fl xs st1 = Ret st'" "rt_inv st' t' ls'"
    "keys (items (index st') t') = mset xs + keys (items (index st1) t1)"
    "mset xs + live (items (index st1) t1) \<subseteq># live (items (index st') t')"
    using Cons.IH [OF s(2)] by blast
  have "mset (x # xs) + live (items (index st) t) \<subseteq># mset xs + live (items (index st1) t1)"
    using subset_mset.add_left_mono [OF s(4), of "mset xs"] by simp
  then have "mset (x # xs) + live (items (index st) t) \<subseteq># live (items (index st') t')"
    using r(4) by (rule subset_mset.order_trans)
  then show ?case using s(1,3) r by (intro exI [of _ st'] exI [of _ t'] exI [of _ ls']) simp
qed

lemma inserts_content:
  assumes "rounding fl" and "blank st" and "ins \<noteq> []"
  shows "\<exists>st' t ls. rt_inserts fl ins (init_rtree st) = Ret st' \<and> rt_inv st' t ls \<and>
     keys (items (index st') t) = mset ins \<and> live (items (index st') t) = mset ins"
proof -
  obtain x xs where ins: "ins = x # xs" using assms(3) by (cases ins) auto
  obtain st1 where s: "insert_rtree_aux fl (fst x) (snd x) (init_rtree st) = Ret st1" "rt_inv st1 (SLeaf 1) [1]"
    "items (index st1) (SLeaf 1) = [\<lparr> it_rect = fst x, it_ptr = snd x, it_del = False \<rparr>]"
    using insert_first [OF blank_init [OF assms(2)] init_fields] by blast
  obtain st' t ls where r: "rt_inserts fl xs st1 = Ret st'" "rt_inv st' t ls"
    "keys (items (index st') t) = mset xs + keys (items (index st1) (SLeaf 1))"
    "mset xs + live (items (index st1) (SLeaf 1)) \<subseteq># live (items (index st') t)"
    using inserts_inv [OF assms(1) s(2)] by blast
  have k: "keys (items (index st') t) = mset ins" using r(3) unfolding s(3) by (simp add: ins)
  have "mset ins \<subseteq># live (items (index st') t)" using r(4) unfolding s(3) by (simp add: ins live_Cons)
  moreover have "live its \<subseteq># keys its" for its by (simp add: live_def image_mset_subseteq_mono mset_filter)
  ultimately have "live (items (index st') t) = mset ins" using k by (metis subset_mset.order_antisym)
  then show ?thesis using s(1) r(1,2) k by (auto simp: ins)
qed

section \<open>Properties\<close>

lemma blank_static: "blank rt_static"
  by (simp add: blank_def glob_def rt_static_def zero_node_def zero_item_def MAX_ENTRIES_val)

lemma rounding_id: "rounding id"
  by (simp add: rounding_def)

text \<open>Searching in a tree whose undeleted entries are known.\<close>

definition finds :: "rtree \<Rightarrow> (Rect \<times> nat) set \<Rightarrow> bool" where
  "finds st E \<longleftrightarrow> (\<forall>mbr. \<exists>b e p. rtree_get_one (tb_ind st) mbr st 1 = Ret (b, e, p) \<and>
     (if mbr \<in> fst ` E then located (index st) mbr (b, e, p) \<and> (mbr, p) \<in> E else (b, e, p) = (0, uint_max, uint_max)))"

lemma live_finds:
  assumes "rt_inv st t ls" and "live (items (index st) t) = mset es"
  shows "finds st (set es)"
  unfolding finds_def
proof
  fix mbr
  have t: "blk t = 1" "ok (index st) t" "covers (index st) t" "space st (set (blocks t))"
    using assms(1) by (simp_all add: rt_inv_def rt_tree_def)
  have bs: "\<forall>b\<in>set (blocks t). 1 \<le> b \<and> b < tb_ind st" using t(4) unfolding space_def by blast
  have m: "(\<exists>it\<in>set (items (index st) t). matches mbr it \<and> it_ptr it = p) \<longleftrightarrow> (mbr, p) \<in> set es" for p
    using arg_cong [OF assms(2), of set_mset] by (force simp: live_def matches_def)
  obtain res where res: "rtree_get_one (tb_ind st) mbr st 1 = Ret res" "found (index st) mbr (items (index st) t) res"
    using get_one_found [OF t(2,3) bs inv_height [OF assms(1)] space_fb [OF t(4)]] t(1) by metis
  obtain b e p where bep: "res = (b, e, p)" by (cases res)
  have "(\<exists>it\<in>set (items (index st) t). matches mbr it) \<longleftrightarrow> mbr \<in> fst ` set es" using m by force
  then have "if mbr \<in> fst ` set es then located (index st) mbr (b, e, p) \<and> (mbr, p) \<in> set es
       else (b, e, p) = (0, uint_max, uint_max)"
    using res(2) m [of p] unfolding found_def bep by (metis snd_conv)
  then show "\<exists>b e p. rtree_get_one (tb_ind st) mbr st 1 = Ret (b, e, p) \<and>
      (if mbr \<in> fst ` set es then located (index st) mbr (b, e, p) \<and> (mbr, p) \<in> set es
       else (b, e, p) = (0, uint_max, uint_max))" using res(1) bep by blast
qed

text \<open>
  C7: Any sequence of insertions into an empty R-tree runs to its end, through every split of leaves and
  inner nodes, whatever the rounding of areas. Afterwards a search for a rectangle returns block, position
  and tuple number of an undeleted entry with that rectangle that was inserted, and 0 exactly if there is none.
\<close>

theorem inserted_is_found:
  assumes "rounding fl" and "blank st"
  shows "\<exists>st'. rt_inserts fl ins (init_rtree st) = Ret st' \<and>
     (\<forall>mbr. \<exists>b e p. rtree_get_one (tb_ind st') mbr st' 1 = Ret (b, e, p) \<and>
        (if mbr \<in> fst ` set ins then located (index st') mbr (b, e, p) \<and> (mbr, p) \<in> set ins
         else (b, e, p) = (0, uint_max, uint_max)))"
proof (cases "ins = []")
  case True
  then show ?thesis by (simp add: init_rtree_def)
next
  case False
  then show ?thesis
    using inserts_content [OF assms False] live_finds unfolding finds_def by blast
qed

theorem inserted_is_found_witness:
  "\<exists>st'. rt_inserts id (map (\<lambda>i. (\<lparr> x_ul = int i, y_ul = 4, x_lr = int i + 3, y_lr = 2 \<rparr>, i)) [0..<500]) (init_rtree rt_static) = Ret st' \<and>
     (\<exists>b e. rtree_get_one (tb_ind st') \<lparr> x_ul = 250, y_ul = 4, x_lr = 253, y_lr = 2 \<rparr> st' 1 = Ret (b, e, 250) \<and> b \<noteq> 0) \<and>
     rtree_get_one (tb_ind st') \<lparr> x_ul = 250, y_ul = 4, x_lr = 252, y_lr = 2 \<rparr> st' 1 = Ret (0, uint_max, uint_max)"
proof -
  let ?f = "\<lambda>i. (\<lparr> x_ul = int i, y_ul = 4, x_lr = int i + 3, y_lr = 2 \<rparr>, i)"
  let ?r = "\<lparr> x_ul = 250, y_ul = 4, x_lr = 253, y_lr = 2 \<rparr>" and ?q = "\<lparr> x_ul = 250, y_ul = 4, x_lr = 252, y_lr = 2 \<rparr>"
  obtain st' where s: "rt_inserts id (map ?f [0..<500]) (init_rtree rt_static) = Ret st'"
    "\<forall>mbr. \<exists>b e p. rtree_get_one (tb_ind st') mbr st' 1 = Ret (b, e, p) \<and>
        (if mbr \<in> fst ` set (map ?f [0..<500]) then located (index st') mbr (b, e, p) \<and> (mbr, p) \<in> set (map ?f [0..<500])
         else (b, e, p) = (0, uint_max, uint_max))"
    using inserted_is_found [OF rounding_id blank_static, of "map ?f [0..<500]"] by blast
  have "(?f 250) \<in> set (map ?f [0..<500])" unfolding set_map set_upt by (rule imageI) simp
  from imageI [OF this, of fst] have mem: "?r \<in> fst ` set (map ?f [0..<500])" by (simp only: fst_conv of_nat_numeral) simp
  have uniq: "p = 250" if "(?r, p) \<in> set (map ?f [0..<500])" for p using that unfolding set_map set_upt by auto
  obtain b e p where bep: "rtree_get_one (tb_ind st') ?r st' 1 = Ret (b, e, p)" "located (index st') ?r (b, e, p)"
    "(?r, p) \<in> set (map ?f [0..<500])"
    using s(2) [rule_format, of ?r] unfolding if_P [OF mem] by blast
  then have "\<exists>b e. rtree_get_one (tb_ind st') ?r st' 1 = Ret (b, e, 250) \<and> b \<noteq> 0"
    unfolding uniq [OF bep(3)] by (auto simp: located_def)
  moreover have "?q \<notin> fst ` set (map ?f [0..<500])" unfolding set_map set_upt by auto
  then have "rtree_get_one (tb_ind st') ?q st' 1 = Ret (0, uint_max, uint_max)"
    using s(2) [rule_format, of ?q] by (simp only: if_False) blast
  ultimately show ?thesis using s(1) by blast
qed

end
