(* ===== verification/RTreeDel.thy ===== *)
theory RTreeDel
  imports RTreeMain
begin

text \<open>
  Deletion marks and the depth-first search of the R-tree. A position is a leaf and the number of an
  entry in it. Marking a position keeps the invariant of the tree; the search with its stack visits
  the positions in the order of the leaves; and the loop of \<open>delete_rtree\<close> is a sweep over them, in
  which every entry found becomes the rectangle to search next.
\<close>

section \<open>Marking an entry\<close>

definition at :: "idxfile \<Rightarrow> nat \<times> nat \<Rightarrow> rt_item" where
  "at F p = litems F (fst p) ! snd p"

definition markp :: "idxfile \<Rightarrow> nat \<times> nat \<Rightarrow> idxfile" where
  "markp F p = (case F (fst p) of Some (Node n) \<Rightarrow> F(fst p \<mapsto> Node (set_del (snd p) n)) | _ \<Rightarrow> F)"

lemma markp_Node: "F b = Some (Node n) \<Longrightarrow> markp F (b, i) = F(b \<mapsto> Node (set_del i n))"
  by (simp add: markp_def)

lemma set_del_simps [simp]:
  "nodetype (set_del i n) = nodetype n" "counter (set_del i n) = counter n" "node_ok (set_del i n) = node_ok n"
  "nextlptr (set_del i n) = nextlptr n" "prevlptr (set_del i n) = prevlptr n"
  by (simp_all add: set_del_def)

lemma used_set_del: "i < counter n \<Longrightarrow> node_ok n \<Longrightarrow> used (set_del i n) = (used n)[i := (used n ! i)\<lparr> it_del := True \<rparr>]"
  by (simp add: set_del_def used_set_slot used_nth)

lemma clean_set_del: "i < counter n \<Longrightarrow> clean (set_del i n) = clean n"
  by (simp add: clean_def set_del_def set_slot_def)

lemma litems_markp:
  assumes "F b = Some (Node n)" and "i < counter n" and "node_ok n"
  shows "litems (markp F (b, i)) x =
     (if x = b then (litems F b)[i := (litems F b ! i)\<lparr> it_del := True \<rparr>] else litems F x)"
  using assms by (simp add: markp_Node litems_def used_set_del)

lemma length_litems_markp:
  assumes "F b = Some (Node n)" and "i < counter n" and "node_ok n"
  shows "length (litems (markp F (b, i)) x) = length (litems F x)"
  by (simp add: litems_markp [where F = F, OF assms])

lemma at_markp:
  assumes "F b = Some (Node n)" and "i < counter n" and "node_ok n"
  shows "at (markp F (b, i)) p = (if p = (b, i) then (at F p)\<lparr> it_del := True \<rparr> else at F p)"
proof -
  have "length (litems F b) = counter n" using assms by (simp add: litems_Node)
  then show ?thesis using assms(2) litems_markp [where F = F, OF assms] by (cases p) (auto simp: at_def nth_list_update)
qed

lemma mark_ok:
  assumes "F b = Some (Node n)" and "i < counter n" and "nodetype n = CHR ''l''"
  shows "ok F t \<Longrightarrow> ok (markp F (b, i)) t"
proof (induction t rule: shape_induct)
  case (leaf x)
  then show ?case using assms clean_set_del [OF assms(2)] by (cases "x = b") (auto simp: markp_Node)
next
  case (node x ks)
  have "x \<noteq> b" using node.prems assms(1,3) by (auto simp: inner_def)
  then have "inner (markp F (b, i)) x es = inner F x es" for es
    using assms(1) by (intro inner_cong) (simp add: markp_Node content_upd)
  then show ?case using node by auto
qed

lemma mark_covers:
  assumes "F b = Some (Node n)" and "i < counter n" and "node_ok n"
  shows "covers (markp F (b, i)) t = covers F t"
proof -
  have r: "it_rect ` set (litems (markp F (b, i)) x) = it_rect ` set (litems F x)" for x
  proof (cases "x = b")
    case True
    have "map it_rect ((litems F b)[i := (litems F b ! i)\<lparr> it_del := True \<rparr>]) = map it_rect (litems F b)"
      by (simp add: map_update) (metis list_update_id map_update)
    then have "set (map it_rect (litems (markp F (b, i)) x)) = set (map it_rect (litems F x))"
      using True by (simp only: litems_markp [where F = F, OF assms] if_True refl)
    then show ?thesis by simp
  qed (simp add: litems_markp [where F = F, OF assms])
  have leafb: "bound G (SLeaf x) q \<longleftrightarrow> (\<forall>y\<in>it_rect ` set (litems G x). inside y q)" for G x q
    by (simp add: litems_def)
  have b: "bound (markp F (b, i)) t q = bound F t q" for t q
    by (cases t) (simp_all only: leafb r bound.simps(2))
  show ?thesis by (induction t rule: shape_induct) (auto simp: b)
qed

lemma inv_leaf:
  assumes "rt_inv st t ls" and "b \<in> set ls"
  obtains n where "index st b = Some (Node n)" "nodetype n = CHR ''l''" "node_ok n" "b \<noteq> 0" "litems (index st) b = used n"
    "used n \<noteq> []"
proof -
  have t: "ok (index st) t" "mset ls = mset (leaves t)" "space st (set (blocks t))" "litems (index st) b \<noteq> []"
    using assms by (simp_all add: rt_inv_def rt_tree_def)
  have "b \<in> set (leaves t)" using assms(2) mset_eq_setD [OF t(2)] by simp
  moreover have "\<exists>n. F b = Some (Node n) \<and> nodetype n = CHR ''l'' \<and> node_ok n" if "b \<in> set (leaves t)" "ok F t" for F
    using that by (induction t rule: shape_induct) auto
  ultimately obtain n where n: "index st b = Some (Node n)" "nodetype n = CHR ''l''" "node_ok n" using t(1) by blast
  moreover have "b \<noteq> 0" using \<open>b \<in> set (leaves t)\<close> leaves_blocks [of t] t(3) by (fastforce simp: space_def)
  ultimately show ?thesis using that t(4) by (simp add: litems_Node)
qed

lemma mark_inv:
  assumes "rt_inv st t ls" and "b \<in> set ls" and "i < length (litems (index st) b)"
  shows "rt_inv (st\<lparr> index := markp (index st) (b, i) \<rparr>) t ls"
proof -
  let ?F = "index st" and ?F' = "markp (index st) (b, i)"
  obtain n where n: "?F b = Some (Node n)" "nodetype n = CHR ''l''" "node_ok n" "litems ?F b = used n"
    by (rule inv_leaf [OF assms(1,2)])
  have i: "i < counter n" using assms(3) n(3,4) by simp
  note F' = markp_Node [where F = "index st", OF n(1), of i]
  have t: "rt_tree st {} t" "mset ls = mset (leaves t)" "lchain (link ?F) 0 ls 0" using assms(1) by (simp_all add: rt_inv_def)
  have tt: "blk t = 1" "ok ?F t" "covers ?F t" "distinct (blocks t)" "space st (set (blocks t))" "glob st" using t(1) by (simp_all add: rt_tree_def)
  have bt: "b \<in> set (blocks t)" using assms(2) mset_eq_setD [OF t(2)] leaves_blocks [of t] by auto
  have "space (st\<lparr> index := ?F' \<rparr>) (set (blocks t))"
    by (rule space_index [OF tt(5)]) (use bt in \<open>auto simp: F'\<close>)
  moreover have "glob (st\<lparr> index := ?F' \<rparr>)" using tt(6) by (simp add: glob_def)
  ultimately have "rt_tree (st\<lparr> index := ?F' \<rparr>) {} t"
    using tt mark_ok [where F = "index st", OF n(1) i n(2)] mark_covers [where F = "index st", OF n(1) i n(3)] by (simp add: rt_tree_def)
  moreover have "link ?F' x = link ?F x" for x using n(1) by (simp add: link_def F')
  then have "lchain (link ?F') 0 ls 0" using t(3) lchain_cong [of ls "link ?F'" "link ?F"] by simp
  moreover have "litems ?F' x = [] \<longleftrightarrow> litems ?F x = []" for x
    using length_litems_markp [where F = "index st", OF n(1) i n(3), of x] by (metis length_0_conv)
  ultimately show ?thesis using assms(1) by (simp add: rt_inv_def)
qed

section \<open>The depth-first search\<close>

definition lpos :: "idxfile \<Rightarrow> nat \<Rightarrow> nat \<Rightarrow> (nat \<times> nat) list" where
  "lpos F b e = map (Pair b) [e..<length (litems F b)]"

definition pos :: "idxfile \<Rightarrow> nat list \<Rightarrow> (nat \<times> nat) list" where
  "pos F bs = concat (map (\<lambda>b. lpos F b 0) bs)"

text \<open>A node on the stack: what is left of it, and how many rounds of the loop that takes.\<close>

fun left :: "idxfile \<Rightarrow> shape \<times> nat \<Rightarrow> (nat \<times> nat) list" where
  "left F (SLeaf b, e) = lpos F b e"
| "left F (SNode b ks, e) = concat (map (\<lambda>(r, t). pos F (leaves t)) (drop e ks))"

fun tcost :: "shape \<Rightarrow> nat" where
  "tcost (SLeaf b) = 1"
| "tcost (SNode b ks) = Suc (sum_list (map (\<lambda>(r, t). Suc (tcost t)) ks))"

fun cost :: "shape \<times> nat \<Rightarrow> nat" where
  "cost (SLeaf b, e) = 1"
| "cost (SNode b ks, e) = Suc (sum_list (map (\<lambda>(r, t). Suc (tcost t)) (drop e ks)))"

abbreviation stk :: "(shape \<times> nat) list \<Rightarrow> (nat \<times> nat) list" where
  "stk zs \<equiv> map (\<lambda>(t, e). (blk t * BLOCKSZ, e)) zs"

abbreviation lefts :: "idxfile \<Rightarrow> (shape \<times> nat) list \<Rightarrow> (nat \<times> nat) list" where
  "lefts F zs \<equiv> concat (map (left F) zs)"

abbreviation costs :: "(shape \<times> nat) list \<Rightarrow> nat" where
  "costs zs \<equiv> sum_list (map cost zs)"

definition hit :: "int \<Rightarrow> Rect \<Rightarrow> rt_item \<Rightarrow> bool" where
  "hit ty mbr it \<longleftrightarrow> dfs_got ty mbr (it_rect it) = Some True \<and> \<not> it_del it"

lemma pos_append: "pos F (xs @ ys) = pos F xs @ pos F ys"
  by (simp add: pos_def)

lemma pos_concat: "pos F (concat bss) = concat (map (pos F) bss)"
  by (induction bss) (simp_all add: pos_append, simp add: pos_def)

lemma left_0: "left F (t, 0) = pos F (leaves t)"
proof (cases t)
  case (SLeaf b)
  then show ?thesis by (simp add: pos_def)
next
  case (SNode b ks)
  then show ?thesis by (simp add: pos_concat case_prod_unfold comp_def)
qed

lemma cost_0: "cost (t, 0) = tcost t"
  by (cases t) simp_all

lemma cost_pos: "0 < cost z"
  by (cases z rule: cost.cases) simp_all

lemma tcost_blocks: "tcost t < 2 * length (blocks t)"
proof (induction t rule: shape_induct)
  case (leaf b)
  show ?case by simp
next
  case (node b ks)
  have "sum_list (map (\<lambda>(r, t). Suc (tcost t)) ks) \<le> sum_list (map (\<lambda>(r, t). 2 * length (blocks t)) ks)"
    by (rule sum_list_mono) (use node in force)
  also have "\<dots> = 2 * length (concat (map (\<lambda>(r, t). blocks t) ks))"
    by (induction ks) auto
  finally show ?case by simp
qed

lemma dfs_leaf:
  assumes "ty = EQUALITY \<or> ty = CONTAINMENT"
  shows "(\<forall>x\<in>set its. \<not> hit ty mbr x) \<and> dfs_items ty mbr True i its = Some Exhausted \<or>
     (\<exists>pre x post. its = pre @ x # post \<and> (\<forall>y\<in>set pre. \<not> hit ty mbr y) \<and> hit ty mbr x \<and>
        dfs_items ty mbr True i its = Some (Hit (i + length pre)))"
proof (induction its arbitrary: i)
  case Nil
  show ?case by simp
next
  case (Cons it its)
  obtain g where g: "dfs_got ty mbr (it_rect it) = Some g"
    using assms by (cases "dfs_got ty mbr (it_rect it)") (auto simp: dfs_got_def split: if_splits)
  show ?case
  proof (cases "hit ty mbr it")
    case True
    then have "dfs_items ty mbr True i (it # its) = Some (Hit (i + length []))" by (simp add: hit_def)
    then show ?thesis using True by (intro disjI2 exI [of _ "[]"] exI [of _ it] exI [of _ its]) simp
  next
    case False
    then have d: "dfs_items ty mbr True i (it # its) = dfs_items ty mbr True (Suc i) its" using g by (auto simp: hit_def)
    consider "\<forall>x\<in>set its. \<not> hit ty mbr x" "dfs_items ty mbr True (Suc i) its = Some Exhausted"
      | pre x post where "its = pre @ x # post" "\<forall>y\<in>set pre. \<not> hit ty mbr y" "hit ty mbr x"
        "dfs_items ty mbr True (Suc i) its = Some (Hit (Suc i + length pre))"
      using Cons.IH [of "Suc i"] by blast
    then show ?thesis
    proof cases
      case 1
      then show ?thesis using d False by simp
    next
      case 2
      then show ?thesis
        using d False by (intro disjI2 exI [of _ "it # pre"] exI [of _ x] exI [of _ post]) simp
    qed
  qed
qed

lemma overlap_ge: "0 \<le> overlap a b"
  by (simp add: overlap_def)

lemma dfs_node:
  "dfs_items ty mbr False i its = Some (case its of [] \<Rightarrow> Exhausted | it # _ \<Rightarrow> Child i (it_ptr it))"
  by (cases its) (simp_all add: overlap_ge)

text \<open>The result of a search that found position \<open>(b, i)\<close>, the rest of the work being \<open>zs\<close>.\<close>

definition dfs_found :: "int \<Rightarrow> Rect \<Rightarrow> idxfile \<Rightarrow> nat \<Rightarrow> nat \<Rightarrow> (shape \<times> nat) list \<Rightarrow>
    (int \<times> (nat \<times> nat) list \<times> Rect \<times> nat \<times> rt_node) outcome \<Rightarrow> bool" where
  "dfs_found ty mbr F b i zs out \<longleftrightarrow> (\<exists>n. F b = Some (Node n) \<and> nodetype n = CHR ''l'' \<and> node_ok n \<and> i < counter n \<and>
     hit ty mbr (at F (b, i)) \<and> (\<forall>(t, e)\<in>set zs. ok F t) \<and> ok F (SLeaf b) \<and>
     out = Ret (0, stk ((SLeaf b, Suc i) # zs), if ty = CONTAINMENT then it_rect (at F (b, i)) else mbr, it_ptr (at F (b, i)), n))"

lemma leaf_search:
  assumes "ok F (SLeaf b)" and "ty = EQUALITY \<or> ty = CONTAINMENT" and "F = index st" and "\<forall>(t, e)\<in>set zs. ok F t"
  shows "(\<forall>q\<in>set (lpos F b e). \<not> hit ty mbr (at F q)) \<and>
       (\<exists>n. rtree_dfs (Suc f) st ((b * BLOCKSZ, e) # stk zs) mbr ty temp = rtree_dfs f st (stk zs) mbr ty n) \<or>
     (\<exists>pre i. lpos F b e = pre @ (b, i) # lpos F b (Suc i) \<and> (\<forall>q\<in>set pre. \<not> hit ty mbr (at F q)) \<and>
       dfs_found ty mbr F b i zs (rtree_dfs (Suc f) st ((b * BLOCKSZ, e) # stk zs) mbr ty temp))"
proof -
  obtain n where n: "F b = Some (Node n)" "nodetype n = CHR ''l''" "node_ok n" using assms(1) by auto
  have l: "litems F b = used n" "length (used n) = counter n" using n by (simp_all add: litems_Node)
  have r: "read_blk_by_ptr (b * BLOCKSZ) st = Some n" using n(1) assms(3) by (simp add: read_blk_def)
  have at: "at F (b, j) = used n ! j" for j by (simp add: at_def l)
  consider "\<forall>x\<in>set (drop e (used n)). \<not> hit ty mbr x" "dfs_items ty mbr True e (drop e (used n)) = Some Exhausted"
    | pre x post where "drop e (used n) = pre @ x # post" "\<forall>y\<in>set pre. \<not> hit ty mbr y" "hit ty mbr x"
      "dfs_items ty mbr True e (drop e (used n)) = Some (Hit (e + length pre))"
    using dfs_leaf [OF assms(2), of "drop e (used n)" mbr e] by blast
  then show ?thesis
  proof cases
    case 1
    have "\<not> hit ty mbr (at F q)" if q: "q \<in> set (lpos F b e)" for q
    proof -
      obtain j where j: "q = (b, j)" "e \<le> j" "j < counter n" using q by (auto simp: lpos_def l)
      then have "used n ! j = drop e (used n) ! (j - e)" "j - e < length (drop e (used n))" using l(2) by auto
      then have "used n ! j \<in> set (drop e (used n))" by (metis nth_mem)
      then show ?thesis using 1(1) j(1) at by auto
    qed
    moreover have "rtree_dfs (Suc f) st ((b * BLOCKSZ, e) # stk zs) mbr ty temp = rtree_dfs f st (stk zs) mbr ty n"
      using r 1(2) n(2) by (simp add: used_def)
    ultimately show ?thesis by blast
  next
    case 2
    let ?i = "e + length pre"
    have len: "counter n - e = length pre + Suc (length post)" using arg_cong [OF 2(1), of length] l(2) by simp
    then have i: "?i < counter n" "e \<le> counter n" by simp_all
    have ui: "used n ! ?i = x" using arg_cong [OF 2(1), of "\<lambda>xs. xs ! length pre"] i l(2) by simp
    have "[e..<counter n] = [e..<?i] @ ?i # [Suc ?i..<counter n]"
      using upt_add_eq_append [of e ?i "counter n - ?i"] i(1) by (simp add: upt_conv_Cons)
    then have "lpos F b e = map (Pair b) [e..<?i] @ (b, ?i) # lpos F b (Suc ?i)" by (simp add: lpos_def l)
    moreover have "\<not> hit ty mbr (at F q)" if q: "q \<in> set (map (Pair b) [e..<?i])" for q
    proof -
      obtain j where j: "q = (b, j)" "e \<le> j" "j < ?i" using q by auto
      then have "used n ! j = pre ! (j - e)" using arg_cong [OF 2(1), of "\<lambda>xs. xs ! (j - e)"] i l(2) by (simp add: nth_append)
      then show ?thesis using 2(2) j at by auto
    qed
    moreover have "slots n ! ?i = x" using ui used_nth [OF i(1) n(3)] by simp
    then have "dfs_found ty mbr F b ?i zs (rtree_dfs (Suc f) st ((b * BLOCKSZ, e) # stk zs) mbr ty temp)"
      using r 2(3,4) n i ui assms(1,4) by (simp add: used_def dfs_found_def at)
    ultimately show ?thesis by blast
  qed
qed

text \<open>One round of the loop at an inner node: pop it, or push the next child.\<close>

lemma node_step:
  assumes "ok F (SNode b ks)" and "F = index st"
  shows "\<exists>n. rtree_dfs (Suc f) st ((b * BLOCKSZ, e) # stk zs) mbr ty temp =
     rtree_dfs f st (if e < length ks then (blk (snd (ks ! e)) * BLOCKSZ, 0) # (b * BLOCKSZ, Suc e) # stk zs else stk zs) mbr ty n"
proof -
  obtain n where n: "F b = Some (Node n)" "nodetype n = CHR ''n''" "node_ok n" "map key (used n) = map entry ks"
    using assms(1) by (auto simp: inner_def)
  have l: "length (used n) = length ks" using arg_cong [OF n(4), of length] by simp
  have r: "read_blk_by_ptr (b * BLOCKSZ) st = Some n" using n(1) assms(2) by (simp add: read_blk_def)
  show ?thesis
  proof (cases "e < length ks")
    case True
    then have d: "drop e (used n) = used n ! e # drop (Suc e) (used n)" using l by (simp add: Cons_nth_drop_Suc)
    have "it_ptr (used n ! e) = blk (snd (ks ! e)) * BLOCKSZ"
      using arg_cong [OF n(4), of "\<lambda>xs. snd (xs ! e)"] True l by simp
    then show ?thesis using r n(2) d True by (auto simp: dfs_node used_def overlap_ge)
  next
    case False
    then show ?thesis using r n(2) l by (auto simp: dfs_node used_def)
  qed
qed

lemma node_left:
  assumes "e < length ks"
  shows "left F (SNode b ks, e) = left F (snd (ks ! e), 0) @ left F (SNode b ks, Suc e)"
    and "cost (SNode b ks, e) = Suc (cost (snd (ks ! e), 0) + cost (SNode b ks, Suc e))"
  using assms by (simp_all add: left_0 cost_0 case_prod_unfold flip: Cons_nth_drop_Suc)

lemma dfs_finds:
  assumes "ty = EQUALITY \<or> ty = CONTAINMENT" and "F = index st" and "\<forall>(t, e)\<in>set zs. ok F t" and "costs zs \<le> fuel"
  shows "(\<forall>q\<in>set (lefts F zs). \<not> hit ty mbr (at F q)) \<and>
       (\<exists>n. rtree_dfs fuel st (stk zs) mbr ty temp = Ret (DB_NOTFOUND, [], mbr, uint_max, n)) \<or>
     (\<exists>pre b i zs'. lefts F zs = pre @ (b, i) # lefts F ((SLeaf b, Suc i) # zs') \<and> (\<forall>q\<in>set pre. \<not> hit ty mbr (at F q)) \<and>
       dfs_found ty mbr F b i zs' (rtree_dfs fuel st (stk zs) mbr ty temp) \<and> costs ((SLeaf b, Suc i) # zs') \<le> costs zs)"
  using assms(3,4)
proof (induction fuel arbitrary: zs temp)
  case 0
  have "zs = []"
  proof (cases zs)
    case (Cons z zr)
    then show ?thesis using 0(2) cost_pos [of z] by simp
  qed
  then show ?case by simp
next
  case (Suc f)
  show ?case
  proof (cases zs)
    case Nil
    then show ?thesis by simp
  next
    case (Cons z zr)
    obtain t e where z: "z = (t, e)" by (cases z)
    have okr: "ok F t" "\<forall>(t, e)\<in>set zr. ok F t" using Suc.prems(1) Cons z by auto
    show ?thesis
    proof (cases t)
      case (SLeaf b)
      have c: "costs zs = Suc (costs zr)" "lefts F zs = lpos F b e @ lefts F zr" using Cons z SLeaf by simp_all
      have s: "stk zs = (b * BLOCKSZ, e) # stk zr" using Cons z SLeaf by simp
      consider n where "\<forall>q\<in>set (lpos F b e). \<not> hit ty mbr (at F q)"
          "rtree_dfs (Suc f) st (stk zs) mbr ty temp = rtree_dfs f st (stk zr) mbr ty n"
        | pre i where "lpos F b e = pre @ (b, i) # lpos F b (Suc i)" "\<forall>q\<in>set pre. \<not> hit ty mbr (at F q)"
          "dfs_found ty mbr F b i zr (rtree_dfs (Suc f) st (stk zs) mbr ty temp)"
        using leaf_search [OF okr(1) [unfolded SLeaf] assms(1,2) okr(2), of e mbr f temp] unfolding s by blast
      then show ?thesis
      proof cases
        case 1
        have "costs zr \<le> f" using Suc.prems(2) c(1) by simp
        from Suc.IH [OF okr(2) this, of n] show ?thesis
          unfolding 1(2) c(2) using 1(1) c(1) by (smt (verit) UnE append.assoc le_SucI set_append)
      next
        case 2
        then show ?thesis
          using c by (intro disjI2 exI [of _ pre] exI [of _ b] exI [of _ i] exI [of _ zr]) simp
      qed
    next
      case (SNode b ks)
      have s: "stk zs = (b * BLOCKSZ, e) # stk zr" using Cons z SNode by simp
      obtain n where n: "rtree_dfs (Suc f) st (stk zs) mbr ty temp =
          rtree_dfs f st (if e < length ks then (blk (snd (ks ! e)) * BLOCKSZ, 0) # (b * BLOCKSZ, Suc e) # stk zr else stk zr) mbr ty n"
        using node_step [OF okr(1) [unfolded SNode] assms(2), of f e zr mbr ty temp] unfolding s by blast
      show ?thesis
      proof (cases "e < length ks")
        case True
        let ?zs = "(snd (ks ! e), 0) # (SNode b ks, Suc e) # zr"
        have "ks ! e \<in> set ks" using True by simp
        moreover have "kok F ks" using okr(1) unfolding SNode ok.simps(2) by blast
        ultimately have "ok F (snd (ks ! e))" by (metis (no_types, lifting) case_prod_unfold)
        then have "\<forall>(t, e)\<in>set ?zs. ok F t" using okr SNode by simp
        moreover have cs: "costs zs = Suc (costs ?zs)" "lefts F zs = lefts F ?zs"
          using Cons z SNode node_left [OF True] by simp_all
        moreover have "rtree_dfs (Suc f) st (stk zs) mbr ty temp = rtree_dfs f st (stk ?zs) mbr ty n" using n True by simp
        ultimately show ?thesis using Suc.IH [of ?zs n] Suc.prems(2) by (metis Suc_le_mono le_SucI)
      next
        case False
        have cs: "costs zs = Suc (costs zr)" "lefts F zs = lefts F zr" using Cons z SNode False by simp_all
        moreover have "rtree_dfs (Suc f) st (stk zs) mbr ty temp = rtree_dfs f st (stk zr) mbr ty n" using n False by simp
        ultimately show ?thesis using Suc.IH [OF okr(2), of n] Suc.prems(2) by (metis Suc_le_mono le_SucI)
      qed
    qed
  qed
qed

section \<open>The loop of deletion\<close>

text \<open>The sweep over the positions: each entry that is found is marked and becomes the query.\<close>

fun sweep :: "idxfile \<Rightarrow> Rect \<Rightarrow> (nat \<times> nat) list \<Rightarrow> idxfile \<times> Rect" where
  "sweep F q [] = (F, q)"
| "sweep F q (p # ps) =
     (if hit CONTAINMENT q (at F p) then sweep (markp F p) (it_rect (at F p)) ps else sweep F q ps)"

lemma sweep_skip: "\<forall>p\<in>set pre. \<not> hit CONTAINMENT q (at F p) \<Longrightarrow> sweep F q (pre @ ps) = sweep F q ps"
  by (induction pre) simp_all

lemma pos_cong: "\<forall>b. length (litems F' b) = length (litems F b) \<Longrightarrow> pos F' bs = pos F bs"
  by (simp add: pos_def lpos_def)

lemma lefts_cong: "\<forall>b. length (litems F' b) = length (litems F b) \<Longrightarrow> lefts F' zs = lefts F zs"
proof -
  assume a: "\<forall>b. length (litems F' b) = length (litems F b)"
  have "left F' z = left F z" for z
    using pos_cong [OF a] a by (cases "(F, z)" rule: left.cases) (simp_all add: lpos_def)
  then have "left F' = left F" by blast
  then show ?thesis by simp
qed

lemma delete_sweeps:
  assumes "\<forall>(t, e)\<in>set zs. ok (index st) t" and "costs zs \<le> g" and "length (lefts (index st) zs) < f"
  shows "delete_loop g f st (stk zs) q temp =
     (case sweep (index st) q (lefts (index st) zs) of (F, q') \<Rightarrow> Ret (st\<lparr> index := F \<rparr>, q'))"
  using assms
proof (induction f arbitrary: zs st q temp)
  case 0
  then show ?case by simp
next
  case (Suc f)
  let ?F = "index st" and ?out = "rtree_dfs g st (stk zs) q CONTAINMENT temp"
  consider n where "\<forall>p\<in>set (lefts ?F zs). \<not> hit CONTAINMENT q (at ?F p)" "?out = Ret (DB_NOTFOUND, [], q, uint_max, n)"
    | pre b i zs' where "lefts ?F zs = pre @ (b, i) # lefts ?F ((SLeaf b, Suc i) # zs')"
      "\<forall>p\<in>set pre. \<not> hit CONTAINMENT q (at ?F p)" "dfs_found CONTAINMENT q ?F b i zs' ?out"
      "costs ((SLeaf b, Suc i) # zs') \<le> costs zs"
    using dfs_finds [OF _ refl Suc.prems(1,2), of CONTAINMENT q temp] by blast
  then show ?case
  proof cases
    case 1
    then have "sweep ?F q (lefts ?F zs) = (?F, q)" using sweep_skip [of "lefts ?F zs" q ?F "[]"] by simp
    then show ?thesis using 1(2) by (simp add: DB_NOTFOUND_def)
  next
    case 2
    obtain n where n: "?F b = Some (Node n)" "nodetype n = CHR ''l''" "node_ok n" "i < counter n" "hit CONTAINMENT q (at ?F (b, i))"
      "\<forall>(t, e)\<in>set zs'. ok ?F t" "ok ?F (SLeaf b)"
      "?out = Ret (0, stk ((SLeaf b, Suc i) # zs'), it_rect (at ?F (b, i)), it_ptr (at ?F (b, i)), n)"
      using 2(3) by (auto simp: dfs_found_def)
    let ?G = "markp ?F (b, i)" and ?r = "it_rect (at ?F (b, i))" and ?zs = "(SLeaf b, Suc i) # zs'"
    have G: "?G = ?F(b \<mapsto> Node (set_del i n))" using n(1) by (simp add: markp_def)
    have "\<forall>b. length (litems ?G b) = length (litems ?F b)"
      using length_litems_markp [where F = ?F, OF n(1,4,3)] by blast
    then have le: "lefts ?G ?zs = lefts ?F ?zs" by (rule lefts_cong)
    have "ok ?G t" if "(t, e) \<in> set ?zs" for t e
      using that n(6,7) by (intro mark_ok [where F = ?F, OF n(1,4,2)]) auto
    then have okG: "\<forall>(t, e)\<in>set ?zs. ok ?G t" by blast
    have "length (lefts ?G ?zs) < f" using Suc.prems(3) unfolding le 2(1) by simp
    moreover have "costs ?zs \<le> g" using 2(4) Suc.prems(2) by simp
    ultimately have ih: "delete_loop g f (st\<lparr> index := ?G \<rparr>) (stk ?zs) ?r (set_del i n) =
        (case sweep ?G ?r (lefts ?F ?zs) of (F, q') \<Rightarrow> Ret (st\<lparr> index := F \<rparr>, q'))"
      using Suc.IH [of ?zs "st\<lparr> index := ?G \<rparr>" ?r "set_del i n"] okG le by simp
    have "delete_loop g (Suc f) st (stk zs) q temp = delete_loop g f (st\<lparr> index := ?G \<rparr>) (stk ?zs) ?r (set_del i n)"
      using n(8) by (simp add: write_blk_def G Let_def)
    moreover have "sweep ?F q (lefts ?F zs) = sweep ?G ?r (lefts ?F ?zs)"
      unfolding 2(1) sweep_skip [OF 2(2)] using n(5) by simp
    ultimately show ?thesis using ih by simp
  qed
qed

text \<open>The same sweep on the list of entries.\<close>

fun sweepl :: "Rect \<Rightarrow> rt_item list \<Rightarrow> rt_item list" where
  "sweepl q [] = []"
| "sweepl q (it # its) =
     (if inside (it_rect it) q \<and> \<not> it_del it then it\<lparr> it_del := True \<rparr> # sweepl (it_rect it) its else it # sweepl q its)"

lemma hit_containment: "hit CONTAINMENT q it \<longleftrightarrow> inside (it_rect it) q \<and> \<not> it_del it"
  by (simp add: hit_def dfs_got_def CONTAINMENT_def EQUALITY_def)

lemma sweep_effect:
  assumes "rt_inv st t ls" and "\<forall>(b, i)\<in>set ps. b \<in> set ls \<and> i < length (litems (index st) b)" and "distinct ps"
  shows "\<exists>F q'. sweep (index st) q ps = (F, q') \<and> rt_inv (st\<lparr> index := F \<rparr>) t ls \<and>
     (\<forall>b. length (litems F b) = length (litems (index st) b)) \<and> (\<forall>p. p \<notin> set ps \<longrightarrow> at F p = at (index st) p) \<and>
     map (at F) ps = sweepl q (map (at (index st)) ps)"
  using assms
proof (induction ps arbitrary: st q)
  case Nil
  then show ?case by simp
next
  case (Cons p ps)
  obtain b i where p: "p = (b, i)" by (cases p)
  have bi: "b \<in> set ls" "i < length (litems (index st) b)" using Cons.prems(2) p by auto
  let ?F = "index st"
  show ?case
  proof (cases "hit CONTAINMENT q (at ?F p)")
    case False
    obtain F q' where F: "sweep ?F q ps = (F, q')" "rt_inv (st\<lparr> index := F \<rparr>) t ls"
      "\<forall>b. length (litems F b) = length (litems ?F b)" "\<forall>p. p \<notin> set ps \<longrightarrow> at F p = at ?F p"
      "map (at F) ps = sweepl q (map (at ?F) ps)"
      using Cons.IH [OF Cons.prems(1), of q] Cons.prems(2,3) by auto
    have "at F p = at ?F p" using F(4) Cons.prems(3) by (metis distinct.simps(2))
    then have "map (at F) (p # ps) = sweepl q (map (at ?F) (p # ps))" using F(5) False by (auto simp: hit_containment)
    then show ?thesis using F False by simp
  next
    case True
    obtain n where n: "?F b = Some (Node n)" "node_ok n" "litems ?F b = used n" by (rule inv_leaf [OF Cons.prems(1) bi(1)])
    have i: "i < counter n" using bi(2) n by simp
    let ?G = "markp ?F p" and ?r = "it_rect (at ?F p)"
    have len: "\<forall>b. length (litems ?G b) = length (litems ?F b)" using length_litems_markp [where F = ?F, OF n(1) i n(2)] p by simp
    have at: "at ?G x = (if x = p then (at ?F p)\<lparr> it_del := True \<rparr> else at ?F x)" for x
      using at_markp [where F = ?F, OF n(1) i n(2), of x] p by simp
    have inv: "rt_inv (st\<lparr> index := ?G \<rparr>) t ls" using mark_inv [OF Cons.prems(1) bi] p by simp
    obtain F q' where F: "sweep ?G ?r ps = (F, q')" "rt_inv (st\<lparr> index := F \<rparr>) t ls"
      "\<forall>b. length (litems F b) = length (litems ?G b)" "\<forall>x. x \<notin> set ps \<longrightarrow> at F x = at ?G x"
      "map (at F) ps = sweepl ?r (map (at ?G) ps)"
      using Cons.IH [OF inv, of ?r] Cons.prems(2,3) len by auto
    have G: "map (at ?G) ps = map (at ?F) ps" using at Cons.prems(3) by auto
    have "at F p = (at ?F p)\<lparr> it_del := True \<rparr>" using F(4) at Cons.prems(3) by (metis distinct.simps(2))
    then have "map (at F) (p # ps) = sweepl q (map (at ?F) (p # ps))"
      using F(5) [unfolded G] True by (simp add: hit_containment)
    moreover have "\<forall>x. x \<notin> set (p # ps) \<longrightarrow> at F x = at ?F x" using F(4) at by simp
    ultimately show ?thesis using F(1-3) len True by simp
  qed
qed

lemma items_at: "items F t = map (at F) (pos F (leaves t))"
proof -
  have "litems F b = map (at F) (lpos F b 0)" for b
    by (simp add: lpos_def at_def comp_def map_nth)
  then have "litems F = (\<lambda>b. map (at F) (lpos F b 0))" by blast
  then show ?thesis by (simp add: items_leaves pos_def map_concat comp_def)
qed

lemma pos_valid: "(b, i) \<in> set (pos F bs) \<longleftrightarrow> b \<in> set bs \<and> i < length (litems F b)"
  by (force simp: pos_def lpos_def)

lemma pos_distinct: "distinct bs \<Longrightarrow> distinct (pos F bs)"
proof (induction bs)
  case Nil
  show ?case by (simp add: pos_def)
next
  case (Cons b bs)
  have "pos F (b # bs) = lpos F b 0 @ pos F bs" by (simp add: pos_def)
  moreover have "distinct (lpos F b 0)" by (simp add: lpos_def distinct_map inj_on_def)
  moreover have "set (lpos F b 0) \<inter> set (pos F bs) = {}" using Cons.prems by (auto simp: lpos_def pos_def)
  ultimately show ?case using Cons by simp
qed

lemma inv_sizes:
  assumes "rt_inv st t ls"
  shows "length (blocks t) < tb_ind st" and "length (pos (index st) (leaves t)) \<le> MAX_ENTRIES * tb_ind st"
    and "distinct (leaves t)" and "set (leaves t) = set ls"
proof -
  have t: "distinct (blocks t)" "space st (set (blocks t))" "mset ls = mset (leaves t)"
    using assms by (simp_all add: rt_inv_def rt_tree_def)
  have "set (blocks t) \<subseteq> {1..<tb_ind st}" "1 < tb_ind st" using t(2) unfolding space_def by fastforce+
  then show lb: "length (blocks t) < tb_ind st"
    using card_mono [of "{1..<tb_ind st}" "set (blocks t)"] distinct_card [OF t(1)] by simp
  show d: "distinct (leaves t)" by (rule distinct_leaves [OF t(1)])
  show s: "set (leaves t) = set ls" using mset_eq_setD [OF t(3)] by simp
  have "length (leaves t) \<le> length (blocks t)"
    using card_mono [OF _ leaves_blocks [of t]] distinct_card [OF d] distinct_card [OF t(1)] by simp
  moreover have "length (pos (index st) bs) \<le> MAX_ENTRIES * length bs" if "set bs \<subseteq> set ls" for bs
    using that
  proof (induction bs)
    case Nil
    show ?case by (simp add: pos_def)
  next
    case (Cons b bs)
    have "b \<in> set ls" using Cons.prems by simp
    then obtain n where "node_ok n" "litems (index st) b = used n" by (rule inv_leaf [OF assms])
    then have "length (lpos (index st) b 0) \<le> MAX_ENTRIES" by (simp add: lpos_def) (simp add: node_ok_def)
    then show ?case using Cons by (simp add: pos_def)
  qed
  from this [of "leaves t"] have "length (pos (index st) (leaves t)) \<le> MAX_ENTRIES * length (leaves t)" using s by simp
  ultimately show "length (pos (index st) (leaves t)) \<le> MAX_ENTRIES * tb_ind st"
    using lb by (meson le_trans less_imp_le_nat mult_le_mono2)
qed

lemma delete_items:
  assumes "rt_inv st t ls" and "(MAX_ENTRIES + 2) * tb_ind st < fuel"
  shows "\<exists>st' q'. delete_rtree fuel junk q st = Ret (0, st', q') \<and> rt_inv st' t ls \<and> tb_ind st' = tb_ind st \<and>
     items (index st') t = sweepl q (items (index st) t)"
proof -
  have t: "blk t = 1" "ok (index st) t" using assms(1) by (simp_all add: rt_inv_def rt_tree_def)
  note sz = inv_sizes [OF assms(1)]
  let ?ps = "pos (index st) (leaves t)"
  have c: "costs [(t, 0)] \<le> fuel" using tcost_blocks [of t] sz(1) assms(2) by (simp add: cost_0)
  have l: "lefts (index st) [(t, 0)] = ?ps" by (simp add: left_0)
  have "length ?ps < fuel" using sz(2) assms(2) by (simp add: algebra_simps)
  then have "delete_loop fuel fuel st (stk [(t, 0)]) q junk =
      (case sweep (index st) q ?ps of (F, q') \<Rightarrow> Ret (st\<lparr> index := F \<rparr>, q'))"
    using delete_sweeps [of "[(t, 0)]" st fuel fuel q junk] t(2) c l by simp
  moreover have "b \<in> set ls \<and> i < length (litems (index st) b)" if "(b, i) \<in> set ?ps" for b i
    using that unfolding pos_valid sz(4) .
  then have "\<forall>(b, i)\<in>set ?ps. b \<in> set ls \<and> i < length (litems (index st) b)" by blast
  from sweep_effect [OF assms(1) this pos_distinct [OF sz(3)], of q]
  obtain F q' where F: "sweep (index st) q ?ps = (F, q')" "rt_inv (st\<lparr> index := F \<rparr>) t ls"
    "\<forall>b. length (litems F b) = length (litems (index st) b)" "map (at F) ?ps = sweepl q (map (at (index st)) ?ps)" by blast
  ultimately have "delete_rtree fuel junk q st = Ret (0, st\<lparr> index := F \<rparr>, q')" using t(1) by (simp add: delete_rtree_def)
  moreover have "items F t = sweepl q (items (index st) t)" using F(4) pos_cong [OF F(3)] by (simp add: items_at)
  ultimately show ?thesis using F(2) by simp
qed

section \<open>Properties\<close>

text \<open>
  The entries that survive a deletion, in the order of the search: whatever is deleted becomes the
  rectangle that bounds the following deletions.
\<close>

fun survivors :: "Rect \<Rightarrow> (Rect \<times> nat) list \<Rightarrow> (Rect \<times> nat) list" where
  "survivors q [] = []"
| "survivors q (x # xs) = (if inside (fst x) q then survivors (fst x) xs else x # survivors q xs)"

lemma live_sweepl: "\<forall>it\<in>set its. \<not> it_del it \<Longrightarrow> live (sweepl q its) = mset (survivors q (map key its))"
  by (induction its arbitrary: q) (auto simp: live_Cons)

lemma live_all:
  assumes "live its = keys its"
  shows "\<forall>it\<in>set its. \<not> it_del it"
proof -
  have "length (filter (\<lambda>it. \<not> it_del it) its) = length its"
    using arg_cong [OF assms, of size] by (simp add: live_def flip: size_mset)
  then show ?thesis using length_filter_less [of _ its "\<lambda>it. \<not> it_del it"] by (metis less_irrefl)
qed

text \<open>
  C9: Deleting the tuples bounded by a rectangle from a tree built by any insertions ends, removes only
  tuples inside the rectangle, and searches afterwards find exactly the survivors. The deletion does not
  remove all tuples it is asked to: in the order of the search, each deleted tuple replaces the query
  by its own rectangle, so later tuples survive unless they are inside every one deleted before them.
\<close>

theorem delete_leaves_survivors:
  assumes "rounding fl" and "blank st" and "ins \<noteq> []"
  shows "\<exists>st' ord. rt_inserts fl ins (init_rtree st) = Ret st' \<and> mset ord = mset ins \<and>
     (\<forall>fuel junk q. (MAX_ENTRIES + 2) * tb_ind st' < fuel \<longrightarrow>
        (\<exists>st'' q'. rtree_del fuel junk q st' = Ret (0, st'', q') \<and>
           set ord - {x. inside (fst x) q} \<subseteq> set (survivors q ord) \<and> set (survivors q ord) \<subseteq> set ord \<and>
           finds st'' (set (survivors q ord))))"
proof -
  obtain st' t ls where r: "rt_inserts fl ins (init_rtree st) = Ret st'" "rt_inv st' t ls"
    "keys (items (index st') t) = mset ins" "live (items (index st') t) = mset ins"
    using inserts_content [OF assms] by blast
  let ?its = "items (index st') t"
  let ?ord = "map key ?its"
  have live: "\<forall>it\<in>set ?its. \<not> it_del it" using r(3,4) by (intro live_all) simp
  have sub: "set (survivors q xs) \<subseteq> set xs" "set xs - {x. inside (fst x) q} \<subseteq> set (survivors q xs)" for q xs
  proof -
    show "set (survivors q xs) \<subseteq> set xs" by (induction xs arbitrary: q) (auto split: if_splits)
    show "set xs - {x. inside (fst x) q} \<subseteq> set (survivors q xs)"
      by (induction xs arbitrary: q) (auto dest: inside_trans)
  qed
  have del: "\<exists>st'' q'. rtree_del fuel junk q st' = Ret (0, st'', q') \<and>
      set ?ord - {x. inside (fst x) q} \<subseteq> set (survivors q ?ord) \<and> set (survivors q ?ord) \<subseteq> set ?ord \<and>
      finds st'' (set (survivors q ?ord))"
    if f: "(MAX_ENTRIES + 2) * tb_ind st' < fuel" for fuel junk q
  proof -
    obtain st'' q' where d: "delete_rtree fuel junk q st' = Ret (0, st'', q')" "rt_inv st'' t ls"
      "items (index st'') t = sweepl q ?its"
      using delete_items [OF r(2) f] by blast
    have "finds st'' (set (survivors q ?ord))" by (rule live_finds [OF d(2)]) (simp only: d(3) live_sweepl [OF live])
    then show ?thesis using d(1) sub unfolding rtree_del_def by blast
  qed
  show ?thesis
  proof (rule exI [of _ st'], rule exI [of _ ?ord], intro conjI)
    show "mset ?ord = mset ins" by (rule r(3))
  qed (use r(1) del in blast)+
qed

text \<open>Two tuples in the rectangle, neither inside the other: one of them is still there.\<close>

theorem delete_leaves_survivors_witness:
  "\<exists>st' st'' q'. rt_inserts id [(\<lparr> x_ul = 0, y_ul = 1, x_lr = 1, y_lr = 0 \<rparr>, 1), (\<lparr> x_ul = 5, y_ul = 6, x_lr = 6, y_lr = 5 \<rparr>, 2)]
       (init_rtree rt_static) = Ret st' \<and>
     rtree_del (Suc ((MAX_ENTRIES + 2) * tb_ind st')) zero_node \<lparr> x_ul = 0, y_ul = 9, x_lr = 9, y_lr = 0 \<rparr> st' = Ret (0, st'', q') \<and>
     (\<exists>x. finds st'' {x})"
proof -
  let ?a = "(\<lparr> x_ul = 0, y_ul = 1, x_lr = 1, y_lr = 0 \<rparr>, 1)" and ?b = "(\<lparr> x_ul = 5, y_ul = 6, x_lr = 6, y_lr = 5 \<rparr>, 2)"
  let ?q = "\<lparr> x_ul = 0, y_ul = 9, x_lr = 9, y_lr = 0 \<rparr>"
  obtain st' ord where s: "rt_inserts id [?a, ?b] (init_rtree rt_static) = Ret st'" "mset ord = mset [?a, ?b]"
    "\<forall>fuel junk q. (MAX_ENTRIES + 2) * tb_ind st' < fuel \<longrightarrow>
        (\<exists>st'' q'. rtree_del fuel junk q st' = Ret (0, st'', q') \<and>
           set ord - {x. inside (fst x) q} \<subseteq> set (survivors q ord) \<and> set (survivors q ord) \<subseteq> set ord \<and>
           finds st'' (set (survivors q ord)))"
    using delete_leaves_survivors [OF rounding_id blank_static, of "[?a, ?b]"] by blast
  obtain x y where o: "ord = [x, y]" using arg_cong [OF s(2), of size] by (auto simp: numeral_2_eq_2 length_Suc_conv)
  have "(x, y) = (?a, ?b) \<or> (x, y) = (?b, ?a)" using s(2) unfolding o by (auto simp: add_eq_conv_ex)
  then have "survivors ?q ord = [y]" unfolding o by (auto simp: inside_def)
  then have v: "set (survivors ?q ord) = {y}" by (simp only: list.set)
  from s(3) [rule_format, OF lessI, of zero_node ?q] obtain st'' q' where
    "rtree_del (Suc ((MAX_ENTRIES + 2) * tb_ind st')) zero_node ?q st' = Ret (0, st'', q')" "finds st'' {y}"
    unfolding v by blast
  then show ?thesis using s(1) by blast
qed

end
