(* ===== verification/RTreeScan.thy ===== *)
theory RTreeScan
  imports RTreeDel
begin

text \<open>
  Tuples behind the index, and cursors that scan the chain of leaves: what \<open>rtree_put\<close> has stored,
  \<open>DB_FIRST\<close> and \<open>DB_NEXT\<close> return, and a scan may delete under its own cursor.
\<close>

section \<open>The size of tuples is kept\<close>

lemma tplsz_write [simp]: "tplsz (write_blk b n st) = tplsz st"
  by (simp add: write_blk_def)

lemma tplsz_write_ptr: "write_blk_by_ptr p n st = Some st' \<Longrightarrow> tplsz st' = tplsz st"
  by (auto simp: write_blk_by_ptr_def split: if_splits)

lemma tplsz_get_newblock: "get_newblock st = Some (b, st') \<Longrightarrow> tplsz st' = tplsz st"
  by (auto simp: get_newblock_def split: if_splits option.splits rt_block.splits)

lemma tplsz_split_node: "split_node fl d mbr p ty p0 p1 st = Some st' \<Longrightarrow> tplsz st' = tplsz st"
  by (auto simp: split_node_def Let_def Option.bind_eq_Some_conv split: prod.splits dest!: tplsz_get_newblock)

lemma tplsz_adjust_without: "adjust_tree_without_split cur mbr anc st = Some st' \<Longrightarrow> tplsz st' = tplsz st"
  by (induction cur mbr anc st arbitrary: st' rule: adjust_tree_without_split.induct)
    (auto simp: Let_def Option.bind_eq_Some_conv split: if_splits)

lemma tplsz_free_block: "free_block 0 b st = Some st' \<Longrightarrow> b \<noteq> 1 \<Longrightarrow> tplsz st' = tplsz st"
  by (auto simp: free_block_def split: option.splits rt_block.splits)

lemma tplsz_update_entry: "update_block_entry b i r p st = Some st' \<Longrightarrow> tplsz st' = tplsz st"
  by (auto simp: update_block_entry_def Option.bind_eq_Some_conv)

lemma tplsz_adjust_with: "adjust_tree_with_split fl cur anc st = Some st' \<Longrightarrow> tplsz st' = tplsz st"
proof (induction fl cur anc st arbitrary: st' rule: adjust_tree_with_split.induct)
  case (1 fl cur st)
  then show ?case by (auto simp: new_root_def Let_def split: if_splits)
next
  case (2 fl cur pblk anc st)
  show ?case
  proof (cases "cur = 1")
    case True
    then show ?thesis using 2(2) by (auto simp: new_root_def Let_def)
  next
    case False
    then obtain n i st1 where a: "read_blk pblk st = Some n" "find_ptr (cur * BLOCKSZ) (take (counter n) (slots n)) = Some i"
      "free_block 0 cur st1 = Some st'" and s: "(if counter n = MAX_ENTRIES
           then do {
             let ptr0 = blkno0 st * BLOCKSZ;
             let ptr1 = blkno1 st * BLOCKSZ;
             st1 \<leftarrow> update_block_entry pblk i (coverr0 st) ptr0 (st\<lparr> gbuf := n \<rparr>);
             st2 \<leftarrow> split_node fl pblk (coverr1 st) ptr1 CHR ''n'' ptr0 ptr1 st1;
             adjust_tree_with_split fl pblk anc st2
           }
           else do {
             let n' = insert_pair i (coverr0 st) (blkno0 st * BLOCKSZ) (coverr1 st) (blkno1 st * BLOCKSZ) n;
             adjust_tree_without_split pblk (compose (coverr0 st) (coverr1 st)) anc
               (write_blk pblk n' (st\<lparr> gbuf := n' \<rparr>))
           }) = Some st1"
      using 2(2) by (auto simp: Option.bind_eq_Some_conv)
    have "tplsz st1 = tplsz st"
    proof (cases "counter n = MAX_ENTRIES")
      case True
      then obtain s1 s2 where "update_block_entry pblk i (coverr0 st) (blkno0 st * BLOCKSZ) (st\<lparr> gbuf := n \<rparr>) = Some s1"
        "split_node fl pblk (coverr1 st) (blkno1 st * BLOCKSZ) CHR ''n'' (blkno0 st * BLOCKSZ) (blkno1 st * BLOCKSZ) s1 = Some s2"
        "adjust_tree_with_split fl pblk anc s2 = Some st1"
        using s by (auto simp: Let_def Option.bind_eq_Some_conv)
      then show ?thesis using 2(1) [OF False a(1,2) True] tplsz_update_entry tplsz_split_node by fastforce
    next
      case False
      then show ?thesis using s tplsz_adjust_without by (fastforce simp: Let_def)
    qed
    then show ?thesis using tplsz_free_block [OF a(3) False] by simp
  qed
qed

lemma tplsz_relink:
  assumes "relink_leaves p q st = Some st'"
  shows "tplsz st' = tplsz st"
proof -
  have step: "tplsz s' = tplsz s" if "(if r = 0 then Some s
      else do { n \<leftarrow> read_blk_by_ptr r s; write_blk_by_ptr r (f n) (s\<lparr> gbuf := f n \<rparr>) }) = Some s'" for r s s' f
    using that tplsz_write_ptr by (cases "r = 0"; cases "read_blk_by_ptr r s") fastforce+
  obtain s1 where "(if p = 0 then Some st
      else do { n \<leftarrow> read_blk_by_ptr p st; write_blk_by_ptr p (n\<lparr> nextlptr := blkno0 st * BLOCKSZ \<rparr>)
        (st\<lparr> gbuf := n\<lparr> nextlptr := blkno0 st * BLOCKSZ \<rparr> \<rparr>) }) = Some s1"
    "(if q = 0 then Some s1
      else do { n \<leftarrow> read_blk_by_ptr q s1; write_blk_by_ptr q (n\<lparr> prevlptr := blkno1 st * BLOCKSZ \<rparr>)
        (s1\<lparr> gbuf := n\<lparr> prevlptr := blkno1 st * BLOCKSZ \<rparr> \<rparr>) }) = Some st'"
    using assms unfolding relink_leaves_def Let_def Option.bind_eq_Some_conv by blast
  then show ?thesis using step by metis
qed

lemma tplsz_lptr: "tplsz (if b then st\<lparr> rt_lptr := q \<rparr> else st) = tplsz st"
  by simp

lemma tplsz_insert_leaf:
  assumes "insert_leaf fl mbr p d anc st = Some st'"
  shows "tplsz st' = tplsz st"
proof (cases "counter (gbuf st) = MAX_ENTRIES")
  case True
  obtain p0 p1 st1 st3 where "split_node fl d mbr p CHR ''l'' p0 p1 st = Some st1"
    "relink_leaves p0 p1 (if d * BLOCKSZ = rt_lptr st1 then st1\<lparr> rt_lptr := blkno0 st1 * BLOCKSZ \<rparr> else st1) = Some st3"
    "adjust_tree_with_split fl d anc st3 = Some st'"
    using assms True unfolding insert_leaf_def Let_def if_P [OF True] Option.bind_eq_Some_conv by blast
  then show ?thesis using tplsz_split_node tplsz_relink tplsz_adjust_with by (metis tplsz_lptr)
next
  case False
  then show ?thesis using assms tplsz_adjust_without unfolding insert_leaf_def Let_def by fastforce
qed

lemma tplsz_choose_loop: "choose_loop fl fuel mbr res anc st = Ret (d, anc', st') \<Longrightarrow> tplsz st' = tplsz st"
proof (induction fuel arbitrary: res anc st)
  case 0
  then show ?case by (auto simp: choose_loop.simps [of _ 0] Let_def split: if_splits)
next
  case (Suc fuel)
  from Suc.prems show ?case
    by (subst (asm) choose_loop.simps) (auto simp: Let_def split: if_splits option.splits dest!: Suc.IH)
qed

lemma tplsz_insert: "insert_rtree_aux fl mbr p st = Ret st' \<Longrightarrow> tplsz st' = tplsz st"
  by (auto simp: insert_rtree_aux_def choose_leaf_def Let_def split: if_splits option.splits outcome.splits
      dest!: tplsz_insert_leaf tplsz_choose_loop)

section \<open>The position of a cursor\<close>

text \<open>The cursor stands on position \<open>p\<close>; the positions behind it in the chain are \<open>rs\<close>.\<close>

definition stands :: "rtree \<Rightarrow> nat list \<Rightarrow> rtree_cursor \<Rightarrow> nat \<times> nat \<Rightarrow> (nat \<times> nat) list \<Rightarrow> bool" where
  "stands st ls rtc p rs \<longleftrightarrow> (\<exists>xs ys. ls = xs @ fst p # ys \<and> index st (fst p) = Some (Node (curnode rtc)) \<and>
     curBlkPtr rtc = fst p * BLOCKSZ \<and> curitem rtc = snd p \<and> snd p < counter (curnode rtc) \<and>
     rs = lpos (index st) (fst p) (Suc (snd p)) @ pos (index st) ys)"

lemma behind_link:
  assumes "rt_inv st t ls" and "ls = xs @ b # ys" and "index st b = Some (Node n)"
  shows "nextlptr n = behind ys"
proof -
  have "lchain (link (index st)) 0 (xs @ b # ys) 0" using assms(1,2) by (simp add: rt_inv_def)
  then have "link (index st) b = Some (if xs = [] then 0 else last xs * BLOCKSZ, behind ys)"
    unfolding lchain_append by (simp add: behind_def)
  then show ?thesis using assms(3) by (simp add: link_def)
qed

lemma stands_at:
  assumes "rt_inv st t ls" and "stands st ls rtc p rs"
  shows "GET_CURITEM rtc = at (index st) p" and "snd p < length (litems (index st) (fst p))" and "fst p \<in> set ls"
    and "\<forall>(b, i)\<in>set rs. b \<in> set ls \<and> i < length (litems (index st) b)"
proof -
  obtain xs ys where s: "ls = xs @ fst p # ys" "index st (fst p) = Some (Node (curnode rtc))" "curitem rtc = snd p"
    "snd p < counter (curnode rtc)" "rs = lpos (index st) (fst p) (Suc (snd p)) @ pos (index st) ys"
    using assms(2) by (auto simp: stands_def)
  show in_ls: "fst p \<in> set ls" using s(1) by simp
  obtain n where n: "index st (fst p) = Some (Node n)" "node_ok n" "litems (index st) (fst p) = used n"
    by (rule inv_leaf [OF assms(1) in_ls])
  have nn: "n = curnode rtc" using n(1) s(2) by simp
  then show "GET_CURITEM rtc = at (index st) p" "snd p < length (litems (index st) (fst p))"
    using n s(3,4) used_nth [of "snd p" n] by (simp_all add: GET_CURITEM_def at_def)
  show "\<forall>(b, i)\<in>set rs. b \<in> set ls \<and> i < length (litems (index st) b)"
    using s(1,5) in_ls pos_valid [of _ _ "index st" ys] by (auto simp: lpos_def)
qed

lemma lpos_Suc: "i < length (litems F b) \<Longrightarrow> lpos F b i = (b, i) # lpos F b (Suc i)"
  by (simp add: lpos_def upt_conv_Cons)

lemma next_item:
  assumes "rt_inv st t ls" and "stands st ls rtc p rs"
  shows "case rs of
      [] \<Rightarrow> \<exists>rtc'. rtree_cursor_next_item st rtc = Some (DB_NOTFOUND, False, rtc')
    | q # rs' \<Rightarrow> \<exists>rtc'. rtree_cursor_next_item st rtc = Some (0, it_del (at (index st) q), rtc') \<and> stands st ls rtc' q rs'"
proof -
  let ?F = "index st" and ?n = "curnode rtc"
  obtain xs ys where s: "ls = xs @ fst p # ys" "?F (fst p) = Some (Node ?n)" "curBlkPtr rtc = fst p * BLOCKSZ" "curitem rtc = snd p"
    "snd p < counter ?n" "rs = lpos ?F (fst p) (Suc (snd p)) @ pos ?F ys"
    using assms(2) by (auto simp: stands_def)
  have in_ls: "fst p \<in> set ls" using s(1) by simp
  obtain m where m: "?F (fst p) = Some (Node m)" "node_ok m" "litems ?F (fst p) = used m" by (rule inv_leaf [OF assms(1) in_ls])
  have n: "node_ok ?n" "litems ?F (fst p) = used ?n" using m s(2) by simp_all
  have len: "length (litems ?F (fst p)) = counter ?n" using n by simp
  have "counter ?n \<le> 96" using n(1) by (simp add: node_ok_def MAX_ENTRIES_val)
  then have w: "Suc (snd p) mod 2 ^ 32 = Suc (snd p)" using s(5) by simp
  show ?thesis
  proof (cases "Suc (snd p) < counter ?n")
    case True
    let ?q = "(fst p, Suc (snd p))" and ?rtc = "rtc\<lparr> curitem := Suc (snd p) \<rparr>"
    have r: "rs = ?q # lpos ?F (fst p) (Suc (Suc (snd p))) @ pos ?F ys"
      using s(6) lpos_Suc [of "Suc (snd p)" ?F "fst p"] True len by simp
    have "at ?F ?q = slots ?n ! Suc (snd p)" using n used_nth [OF True n(1)] by (simp add: at_def)
    then have "rtree_cursor_next_item st rtc = Some (0, it_del (at ?F ?q), ?rtc)"
      using True w s(4) by (simp add: rtree_cursor_next_item_def)
    moreover have "stands st ls ?rtc ?q (lpos ?F (fst p) (Suc (Suc (snd p))) @ pos ?F ys)"
      using s True by (auto simp: stands_def)
    ultimately show ?thesis unfolding r by simp
  next
    case False
    then have r: "rs = pos ?F ys" using s(6) len by (simp add: lpos_def)
    have nx: "nextlptr ?n = behind ys" by (rule behind_link [OF assms(1) s(1,2)])
    show ?thesis
    proof (cases ys)
      case Nil
      then show ?thesis using r nx False w s(4) by (simp add: pos_def behind_def rtree_cursor_next_item_def)
    next
      case (Cons b zs)
      have b: "b \<in> set ls" using s(1) Cons by simp
      obtain k where k: "?F b = Some (Node k)" "node_ok k" "b \<noteq> 0" "litems ?F b = used k" "used k \<noteq> []"
        by (rule inv_leaf [OF assms(1) b])
      have k0: "0 < counter k" using k(2,5) by (metis length_greater_0_conv length_used)
      have r': "rs = (b, 0) # lpos ?F b (Suc 0) @ pos ?F zs"
        using r Cons lpos_Suc [of 0 ?F b] k k0 by (simp add: pos_def)
      let ?rtc = "rtc\<lparr> curnode := k, curBlkPtr := b * BLOCKSZ, curitem := 0 \<rparr>"
      have "at ?F (b, 0) = slots k ! 0" using k used_nth [OF k0 k(2)] by (simp add: at_def)
      then have "rtree_cursor_next_item st rtc = Some (0, it_del (at ?F (b, 0)), ?rtc)"
        using False w s(4) nx Cons k(1,3) by (simp add: rtree_cursor_next_item_def behind_def read_blk_def)
      moreover have "stands st ls ?rtc (b, 0) (lpos ?F b (Suc 0) @ pos ?F zs)"
        unfolding stands_def using s(1) Cons k(1) k0 by (intro exI [of _ "xs @ [fst p]"] exI [of _ zs]) simp
      ultimately show ?thesis unfolding r' by simp
    qed
  qed
qed

lemma next_nondel:
  assumes "rt_inv st t ls" and "stands st ls rtc p rs" and "length rs < fuel"
  shows "case dropWhile (\<lambda>q. it_del (at (index st) q)) rs of
      [] \<Rightarrow> \<exists>rtc'. moveToNextNonDel fuel st rtc = Ret (DB_NOTFOUND, rtc')
    | q # rs' \<Rightarrow> \<exists>rtc'. moveToNextNonDel fuel st rtc = Ret (0, rtc') \<and> stands st ls rtc' q rs'"
  using assms(2,3)
proof (induction rs arbitrary: rtc p fuel)
  case Nil
  then obtain f where "fuel = Suc f" by (cases fuel) auto
  then show ?case using next_item [OF assms(1) Nil(1)] by auto
next
  case (Cons q rs)
  obtain f where f: "fuel = Suc f" using Cons.prems(2) by (cases fuel) auto
  obtain rtc' where r: "rtree_cursor_next_item st rtc = Some (0, it_del (at (index st) q), rtc')" "stands st ls rtc' q rs"
    using next_item [OF assms(1) Cons.prems(1)] by auto
  show ?case
  proof (cases "it_del (at (index st) q)")
    case True
    then have mv: "moveToNextNonDel fuel st rtc = moveToNextNonDel f st rtc'" using f r(1) by (simp add: DB_NOTFOUND_def)
    have "length rs < f" using Cons.prems(2) f by simp
    from Cons.IH [OF r(2) this] show ?thesis unfolding mv using True by (simp del: moveToNextNonDel.simps)
  next
    case False
    then show ?thesis using f r by (simp add: DB_NOTFOUND_def)
  qed
qed

lemma stands_mark:
  assumes "rt_inv st t ls" and "stands st ls rtc p rs"
  shows "\<exists>rtc' F. rtree_cursor_del rtc st = Some (0, rtc', st\<lparr> index := F \<rparr>) \<and> F = markp (index st) p \<and>
     rt_inv (st\<lparr> index := F \<rparr>) t ls \<and> stands (st\<lparr> index := F \<rparr>) ls rtc' p rs \<and>
     (\<forall>b. length (litems F b) = length (litems (index st) b)) \<and>
     (\<forall>q. at F q = (if q = p then (at (index st) p)\<lparr> it_del := True \<rparr> else at (index st) q))"
proof -
  let ?F = "index st" and ?n = "curnode rtc"
  obtain xs ys where s: "ls = xs @ fst p # ys" "?F (fst p) = Some (Node ?n)" "curBlkPtr rtc = fst p * BLOCKSZ" "curitem rtc = snd p"
    "snd p < counter ?n" "rs = lpos ?F (fst p) (Suc (snd p)) @ pos ?F ys"
    using assms(2) by (auto simp: stands_def)
  note at = stands_at [OF assms]
  have ok: "node_ok ?n" using inv_leaf [OF assms(1) at(3)] s(2) by (metis option.inject rt_block.inject(1))
  let ?G = "markp ?F p" and ?m = "set_del (snd p) ?n"
  have G: "?G = ?F(fst p \<mapsto> Node ?m)" using s(2) by (simp add: markp_def)
  have "fst p * BLOCKSZ \<noteq> uint_max"
  proof
    assume "fst p * BLOCKSZ = uint_max"
    then have "uint_max mod BLOCKSZ = 0" by (metis mod_mult_self2_is_0)
    then show False by (simp add: uint_max_def BLOCKSZ_def)
  qed
  then have run: "rtree_cursor_del rtc st = Some (0, rtc\<lparr> curnode := ?m \<rparr>, st\<lparr> index := ?G \<rparr>)"
    using s(3,4) by (simp add: rtree_cursor_del_def write_blk_def G Let_def)
  have len: "\<forall>b. length (litems ?G b) = length (litems ?F b)"
    using length_litems_markp [where F = ?F, OF s(2,5) ok] by simp
  moreover have "\<forall>q. at ?G q = (if q = p then (at ?F p)\<lparr> it_del := True \<rparr> else at ?F q)"
    using at_markp [where F = ?F, OF s(2,5) ok] by simp
  moreover have "rt_inv (st\<lparr> index := ?G \<rparr>) t ls" using mark_inv [OF assms(1) at(3,2)] by simp
  moreover have "lpos ?G (fst p) (Suc (snd p)) = lpos ?F (fst p) (Suc (snd p))" "pos ?G ys = pos ?F ys"
    using len pos_cong [OF len] by (simp_all add: lpos_def)
  then have "stands (st\<lparr> index := ?G \<rparr>) ls (rtc\<lparr> curnode := ?m \<rparr>) p rs"
    using s unfolding stands_def by (intro exI [of _ xs] exI [of _ ys]) (simp add: G)
  ultimately show ?thesis using run by blast
qed

section \<open>Scans\<close>

text \<open>
  The loop of a program that reads a table through a cursor and deletes some of the tuples: it
  returns the keys and tuples it has seen.
\<close>

fun scan_loop ::
    "nat \<Rightarrow> nat \<Rightarrow> 'd tuple_db \<Rightarrow> (Rect \<times> string \<Rightarrow> bool) \<Rightarrow> int \<times> Rect \<times> string option \<times> rtree_cursor \<Rightarrow> rtree \<Rightarrow> 'd \<Rightarrow>
      ((Rect \<times> string) list \<times> rtree) outcome" where
  "scan_loop g 0 D del got st d = NoFuel"
| "scan_loop g (Suc f) D del (rc, kr, x, rtc) st d =
     (if rc \<noteq> 0 then Ret ([], st)
      else (case x of
              None \<Rightarrow> Crash
            | Some y \<Rightarrow>
                (case (if del (kr, y) then rtree_cursor_del rtc st else Some (0, rtc, st)) of
                   None \<Rightarrow> Crash
                 | Some (rc', rtc', st') \<Rightarrow>
                     (case rtree_cursor_get g D 0 DB_NEXT kr rtc' (st', d) of
                        Ret got \<Rightarrow>
                          (case scan_loop g f D del got st' d of
                             Ret (vs, st'') \<Rightarrow> Ret ((kr, y) # vs, st'')
                           | Crash \<Rightarrow> Crash
                           | NoFuel \<Rightarrow> NoFuel)
                      | Crash \<Rightarrow> Crash
                      | NoFuel \<Rightarrow> NoFuel))))"

definition rt_scan ::
    "nat \<Rightarrow> 'd tuple_db \<Rightarrow> int \<Rightarrow> (Rect \<times> string \<Rightarrow> bool) \<Rightarrow> Rect \<Rightarrow> rtree \<times> 'd \<Rightarrow> ((Rect \<times> string) list \<times> rtree) outcome" where
  "rt_scan fuel D rc0 del kr w =
     (case rtree_cursor_open (fst w) of
        Ret (rc, rtc) \<Rightarrow>
          (case rtree_cursor_get fuel D rc0 DB_FIRST kr rtc w of
             Ret got \<Rightarrow> scan_loop fuel fuel D del got (fst w) (snd w)
           | Crash \<Rightarrow> Crash
           | NoFuel \<Rightarrow> NoFuel)
      | Crash \<Rightarrow> Crash
      | NoFuel \<Rightarrow> NoFuel)"

text \<open>What the cursor returns for an entry.\<close>

definition tuple_of :: "'d tuple_db \<Rightarrow> 'd \<Rightarrow> rt_item \<Rightarrow> Rect \<times> string" where
  "tuple_of D d it = (it_rect it, snd (db_get D d (it_ptr it)))"

definition stored :: "'d tuple_db \<Rightarrow> 'd \<Rightarrow> rt_item \<Rightarrow> bool" where
  "stored D d it \<longleftrightarrow> it_del it \<or> fst (db_get D d (it_ptr it)) = 0"

lemma read_current_at:
  assumes "rt_inv st t ls" and "stands st ls rtc p rs" and "\<not> it_del (at (index st) p)" and "stored D d (at (index st) p)"
  shows "\<exists>rtc'. read_current D d rtc = Ret (0, it_rect (at (index st) p), Some (snd (tuple_of D d (at (index st) p))), rtc') \<and>
     stands st ls rtc' p rs"
proof -
  let ?rtc = "rtc\<lparr> curtpl := it_ptr (at (index st) p) \<rparr>"
  obtain x where x: "db_get D d (it_ptr (at (index st) p)) = (0, x)"
    using assms(3,4) by (cases "db_get D d (it_ptr (at (index st) p))") (simp add: stored_def)
  have "read_current D d rtc = Ret (0, it_rect (at (index st) p), Some x, ?rtc)"
    using x stands_at(1) [OF assms(1,2)] by (simp add: read_current_def fetch_tuple_def Let_def)
  moreover have "stands st ls ?rtc p rs" using assms(2) by (simp add: stands_def)
  ultimately show ?thesis using x by (simp add: tuple_of_def)
qed

lemma next_tuple:
  assumes "rt_inv st t ls" and "stands st ls rtc p rs" and "length rs < g"
    and "\<forall>q\<in>set rs. stored D d (at (index st) q)"
  shows "case dropWhile (\<lambda>q. it_del (at (index st) q)) rs of
      [] \<Rightarrow> \<exists>x rtc'. rtree_cursor_get g D rc0 DB_NEXT kr rtc (st, d) = Ret (DB_NOTFOUND, kr, x, rtc')
    | q # rs' \<Rightarrow> \<exists>rtc'. rtree_cursor_get g D rc0 DB_NEXT kr rtc (st, d) =
        Ret (0, it_rect (at (index st) q), Some (snd (tuple_of D d (at (index st) q))), rtc') \<and> stands st ls rtc' q rs'"
proof (cases "dropWhile (\<lambda>q. it_del (at (index st) q)) rs")
  case Nil
  obtain rtc' where "moveToNextNonDel g st rtc = Ret (DB_NOTFOUND, rtc')"
    using next_nondel [OF assms(1-3)] unfolding Nil by auto
  then show ?thesis unfolding Nil by (simp add: rtree_cursor_get_def DB_NEXT_def DB_FIRST_def)
next
  case (Cons q rs')
  then obtain rtc' where m: "moveToNextNonDel g st rtc = Ret (0, rtc')" "stands st ls rtc' q rs'"
    using next_nondel [OF assms(1-3)] by auto
  have nd: "\<not> it_del (at (index st) q)" using hd_dropWhile [of "\<lambda>q. it_del (at (index st) q)" rs] Cons by simp
  have "q \<in> set rs" by (rule set_dropWhileD [of q "\<lambda>q. it_del (at (index st) q)" rs]) (simp add: Cons)
  then have sq: "stored D d (at (index st) q)" using assms(4) by blast
  from read_current_at [OF assms(1) m(2) nd sq] obtain rtc'' where "read_current D d rtc' = Ret (0, it_rect (at (index st) q), Some (snd (tuple_of D d (at (index st) q))), rtc'')"
    "stands st ls rtc'' q rs'" by blast
  then show ?thesis using m(1) Cons by (simp add: rtree_cursor_get_def DB_NEXT_def DB_FIRST_def DB_NOTFOUND_def)
qed

text \<open>What a scan of the positions \<open>ps\<close> has seen, and what it has done to the file.\<close>

definition seen :: "'d tuple_db \<Rightarrow> 'd \<Rightarrow> idxfile \<Rightarrow> (nat \<times> nat) list \<Rightarrow> (Rect \<times> string) list" where
  "seen D d F ps = map (\<lambda>q. tuple_of D d (at F q)) (filter (\<lambda>q. \<not> it_del (at F q)) ps)"

definition marked :: "'d tuple_db \<Rightarrow> 'd \<Rightarrow> (Rect \<times> string \<Rightarrow> bool) \<Rightarrow> (nat \<times> nat) list \<Rightarrow> idxfile \<Rightarrow> idxfile \<Rightarrow> bool" where
  "marked D d del ps F F' \<longleftrightarrow> (\<forall>b. length (litems F' b) = length (litems F b)) \<and>
     (\<forall>q. at F' q = (if q \<in> set ps \<and> \<not> it_del (at F q) \<and> del (tuple_of D d (at F q))
        then (at F q)\<lparr> it_del := True \<rparr> else at F q))"

lemma scan_rest:
  assumes "rt_inv st t ls" and "stands st ls rtc p rs" and "\<not> it_del (at (index st) p)" and "distinct (p # rs)"
    and "\<forall>q\<in>set (p # rs). stored D d (at (index st) q)" and "length rs < g" and "length rs + 2 \<le> f"
  shows "\<exists>F. scan_loop g f D del (0, it_rect (at (index st) p), Some (snd (tuple_of D d (at (index st) p))), rtc) st d =
       Ret (seen D d (index st) (p # rs), st\<lparr> index := F \<rparr>) \<and> rt_inv (st\<lparr> index := F \<rparr>) t ls \<and> marked D d del (p # rs) (index st) F"
  using assms
proof (induction f arbitrary: st rtc p rs)
  case 0
  then show ?case by simp
next
  case (Suc f)
  let ?F = "index st"
  let ?v = "tuple_of D d (at ?F p)"
  have v: "(it_rect (at ?F p), snd ?v) = ?v" by (simp add: tuple_of_def)
  obtain rtc1 F1 where d: "(if del ?v then rtree_cursor_del rtc st else Some (0, rtc, st)) = Some (0, rtc1, st\<lparr> index := F1 \<rparr>)"
    "rt_inv (st\<lparr> index := F1 \<rparr>) t ls" "stands (st\<lparr> index := F1 \<rparr>) ls rtc1 p rs"
    "\<forall>b. length (litems F1 b) = length (litems ?F b)"
    "\<forall>q. at F1 q = (if q = p \<and> del ?v then (at ?F p)\<lparr> it_del := True \<rparr> else at ?F q)"
  proof (cases "del ?v")
    case True
    then show ?thesis using that stands_mark [OF Suc.prems(1,2)] by fastforce
  next
    case False
    then show ?thesis using that [of rtc ?F] Suc.prems(1,2) by simp
  qed
  let ?st = "st\<lparr> index := F1 \<rparr>"
  have pn: "p \<notin> set rs" "distinct rs" using Suc.prems(4) by simp_all
  have same: "\<forall>q\<in>set rs. at F1 q = at ?F q" using d(5) pn(1) by auto
  have "\<forall>q\<in>set rs. stored D d (at (index ?st) q)" using Suc.prems(5) same by simp
  note nt = next_tuple [OF d(2,3) Suc.prems(6) this, of 0 "it_rect (at ?F p)"]
  have dw: "dropWhile (\<lambda>q. it_del (at (index ?st) q)) rs = dropWhile (\<lambda>q. it_del (at ?F q)) rs"
    using same by (intro dropWhile_cong) simp_all
  have step: "scan_loop g (Suc f) D del (0, it_rect (at ?F p), Some (snd ?v), rtc) st d =
      (case rtree_cursor_get g D 0 DB_NEXT (it_rect (at ?F p)) rtc1 (?st, d) of
         Ret got \<Rightarrow> (case scan_loop g f D del got ?st d of
             Ret (vs, st'') \<Rightarrow> Ret (?v # vs, st'') | Crash \<Rightarrow> Crash | NoFuel \<Rightarrow> NoFuel)
       | Crash \<Rightarrow> Crash | NoFuel \<Rightarrow> NoFuel)"
    using d(1) by (simp add: v cong del: outcome.case_cong_weak)
  show ?case
  proof (cases "dropWhile (\<lambda>q. it_del (at ?F q)) rs")
    case Nil
    then have none: "\<forall>q\<in>set rs. it_del (at ?F q)" by (simp add: dropWhile_eq_Nil_conv)
    obtain x rtc' where "rtree_cursor_get g D 0 DB_NEXT (it_rect (at ?F p)) rtc1 (?st, d) = Ret (DB_NOTFOUND, it_rect (at ?F p), x, rtc')"
      using nt unfolding dw Nil by auto
    moreover obtain f' where "f = Suc f'" using Suc.prems(7) by (cases f) auto
    ultimately have "scan_loop g (Suc f) D del (0, it_rect (at ?F p), Some (snd ?v), rtc) st d = Ret ([?v], ?st)"
      unfolding step by (simp add: DB_NOTFOUND_def)
    moreover have "seen D d ?F (p # rs) = [?v]" using none Suc.prems(3) by (simp add: seen_def)
    moreover have "marked D d del (p # rs) ?F F1" using d(4,5) none Suc.prems(3) by (auto simp: marked_def)
    ultimately show ?thesis using d(2) by (intro exI [of _ F1]) simp
  next
    case (Cons q rs')
    obtain pre where r: "rs = pre @ q # rs'" "\<forall>x\<in>set pre. it_del (at ?F x)"
      using Cons set_takeWhileD unfolding dropWhile_eq_Cons_conv by (metis (no_types, lifting))
    have q: "\<not> it_del (at ?F q)" using Cons unfolding dropWhile_eq_Cons_conv by blast
    have sq: "at (index ?st) q = at ?F q" using same r(1) by simp
    obtain rtc' where n: "rtree_cursor_get g D 0 DB_NEXT (it_rect (at ?F p)) rtc1 (?st, d) =
        Ret (0, it_rect (at (index ?st) q), Some (snd (tuple_of D d (at (index ?st) q))), rtc')" "stands ?st ls rtc' q rs'"
      using nt unfolding dw Cons by auto
    have pre: "\<not> it_del (at (index ?st) q)" "distinct (q # rs')" "\<forall>x\<in>set (q # rs'). stored D d (at (index ?st) x)"
      "length rs' < g" "length rs' + 2 \<le> f"
      using q sq pn(2) r(1) Suc.prems(5-7) same by auto
    obtain F where F: "scan_loop g f D del (0, it_rect (at (index ?st) q), Some (snd (tuple_of D d (at (index ?st) q))), rtc') ?st d =
        Ret (seen D d (index ?st) (q # rs'), ?st\<lparr> index := F \<rparr>)" "rt_inv (?st\<lparr> index := F \<rparr>) t ls"
      "marked D d del (q # rs') (index ?st) F"
      using Suc.IH [OF d(2) n(2) pre] by blast
    have sn: "seen D d (index ?st) (q # rs') = seen D d ?F rs"
    proof -
      have "filter (\<lambda>x. \<not> it_del (at ?F x)) pre = []" using r(2) by (simp add: filter_empty_conv)
      then have "seen D d ?F rs = seen D d ?F (q # rs')" by (simp add: seen_def r(1))
      also have "\<dots> = seen D d (index ?st) (q # rs')" unfolding seen_def using same r(1) by (auto intro!: map_cong filter_cong)
      finally show ?thesis by simp
    qed
    have "marked D d del (p # rs) ?F F" using F(3) d(4,5) r pn(1) Suc.prems(3) by (auto simp: marked_def)
    moreover have "scan_loop g (Suc f) D del (0, it_rect (at ?F p), Some (snd ?v), rtc) st d =
        Ret (?v # seen D d ?F rs, ?st\<lparr> index := F \<rparr>)"
      unfolding step n(1) using F(1) sn by simp
    ultimately show ?thesis using F(2) Suc.prems(3) by (intro exI [of _ F]) (simp add: seen_def)
  qed
qed

lemma skip_deleted:
  assumes "\<forall>x\<in>set pre. it_del (at F x)"
  shows "seen D d F (pre @ ps) = seen D d F ps" and "marked D d del (pre @ ps) F F' = marked D d del ps F F'"
proof -
  have "filter (\<lambda>q. \<not> it_del (at F q)) pre = []" using assms by (simp add: filter_empty_conv)
  then show "seen D d F (pre @ ps) = seen D d F ps" by (simp add: seen_def)
  have "(q \<in> set (pre @ ps) \<and> \<not> it_del (at F q) \<and> del v) = (q \<in> set ps \<and> \<not> it_del (at F q) \<and> del v)" for q v
    using assms by auto
  then show "marked D d del (pre @ ps) F F' = marked D d del ps F F'" by (simp only: marked_def)
qed

lemma first_tuple:
  assumes "rt_inv st t ls" and "length (pos (index st) ls) \<le> g" and "rc0 \<noteq> DB_NOTFOUND"
    and "\<forall>q\<in>set (pos (index st) ls). stored D d (at (index st) q)"
  shows "case dropWhile (\<lambda>q. it_del (at (index st) q)) (pos (index st) ls) of
      [] \<Rightarrow> \<exists>x rtc'. rtree_cursor_get g D rc0 DB_FIRST kr rtc (st, d) = Ret (DB_NOTFOUND, kr, x, rtc')
    | q # rs' \<Rightarrow> \<exists>rtc'. rtree_cursor_get g D rc0 DB_FIRST kr rtc (st, d) =
        Ret (0, it_rect (at (index st) q), Some (snd (tuple_of D d (at (index st) q))), rtc') \<and> stands st ls rtc' q rs'"
proof -
  let ?F = "index st"
  have i: "ls \<noteq> []" "rt_lptr st = hd ls * BLOCKSZ" "space st (set (blocks t))" using assms(1) by (simp_all add: rt_inv_def rt_tree_def)
  obtain b ys where ls: "ls = b # ys" using i(1) by (cases ls) auto
  have "b \<in> set ls" using ls by simp
  then obtain n where n: "?F b = Some (Node n)" "node_ok n" "litems ?F b = used n" "used n \<noteq> []" by (rule inv_leaf [OF assms(1)])
  have c0: "0 < counter n" using n(2,4) by (metis length_greater_0_conv length_used)
  let ?p = "(b, 0)" and ?rs = "lpos ?F b (Suc 0) @ pos ?F ys"
  have ps: "pos ?F ls = ?p # ?rs" using lpos_Suc [of 0 ?F b] n(2,3) c0 by (simp add: ls pos_def)
  let ?rtc = "rtc\<lparr> curnode := n, curBlkPtr := rt_lptr st, curitem := 0 \<rparr>"
  have st0: "stands st ls ?rtc ?p ?rs" unfolding stands_def using n(1) c0 i(2) ls by (intro exI [of _ "[]"] exI [of _ ys]) simp
  have rd: "read_blk_by_ptr (rt_lptr st) st = Some n" using i(2) ls n(1) by (simp add: read_blk_def)
  have it0: "slots n ! 0 = at ?F ?p" using n used_nth [OF c0 n(2)] by (simp add: at_def)
  have get: "rtree_cursor_get g D rc0 DB_FIRST kr rtc (st, d) =
      (case (if it_del (at ?F ?p) then moveToNextNonDel g st ?rtc else Ret (rc0, ?rtc)) of
         Ret (rc, rtc2) \<Rightarrow> if rc = DB_NOTFOUND then Ret (DB_NOTFOUND, kr, None, rtc2) else read_current D d rtc2
       | Crash \<Rightarrow> Crash | NoFuel \<Rightarrow> NoFuel)"
    using rd c0 it0 space_fb [OF i(3)] by (simp add: rtree_cursor_get_def Let_def)
  show ?thesis
  proof (cases "it_del (at ?F ?p)")
    case False
    from read_current_at [OF assms(1) st0 False] assms(3,4) show ?thesis
      unfolding get ps using False ps by auto
  next
    case True
    then have dw: "dropWhile (\<lambda>q. it_del (at ?F q)) (pos ?F ls) = dropWhile (\<lambda>q. it_del (at ?F q)) ?rs" by (simp add: ps)
    have "length ?rs < g" using assms(2) by (simp add: ps)
    note nn = next_nondel [OF assms(1) st0 this]
    show ?thesis
    proof (cases "dropWhile (\<lambda>q. it_del (at ?F q)) ?rs")
      case Nil
      then obtain rtc' where "moveToNextNonDel g st ?rtc = Ret (DB_NOTFOUND, rtc')" using nn unfolding Nil by auto
      then show ?thesis unfolding get dw Nil using True by simp
    next
      case (Cons q rs')
      obtain rtc' where m: "moveToNextNonDel g st ?rtc = Ret (0, rtc')" "stands st ls rtc' q rs'" using nn unfolding Cons by auto
      have q: "\<not> it_del (at ?F q)" "q \<in> set ?rs" using Cons unfolding dropWhile_eq_Cons_conv by (blast, metis in_set_conv_decomp)
      have sq: "stored D d (at ?F q)" using assms(4) q(2) unfolding ps by simp
      from read_current_at [OF assms(1) m(2) q(1) sq] show ?thesis
        unfolding get dw Cons using True m(1) by (simp add: DB_NOTFOUND_def)
    qed
  qed
qed

lemma mset_pos: "mset bs = mset bs' \<Longrightarrow> mset (pos F bs) = mset (pos F bs')"
  by (simp add: pos_def mset_concat_map)

text \<open>The tuples of the undeleted entries.\<close>

definition tuples :: "'d tuple_db \<Rightarrow> 'd \<Rightarrow> rt_item multiset \<Rightarrow> (Rect \<times> string) multiset" where
  "tuples D d its = image_mset (tuple_of D d) (filter_mset (\<lambda>it. \<not> it_del it) its)"

lemma items_chain:
  assumes "rt_inv st t ls"
  shows "mset (items (index st) t) = image_mset (at (index st)) (mset (pos (index st) ls))"
proof -
  have "mset ls = mset (leaves t)" using assms by (simp add: rt_inv_def)
  from mset_pos [OF this] show ?thesis by (simp add: items_at)
qed

lemma seen_tuples: "mset (seen D d F ps) = tuples D d (image_mset (at F) (mset ps))"
  by (simp add: seen_def tuples_def filter_mset_image_mset multiset.map_comp comp_def)

lemma marked_tuples:
  assumes "marked D d del ps F F'"
  shows "tuples D d (image_mset (at F') (mset ps)) = filter_mset (\<lambda>x. \<not> del x) (tuples D d (image_mset (at F) (mset ps)))"
proof -
  have "tuples D d (image_mset (at F') (mset qs)) = filter_mset (\<lambda>x. \<not> del x) (tuples D d (image_mset (at F) (mset qs)))"
    if "set qs \<subseteq> set ps" for qs
    using that
  proof (induction qs)
    case Nil
    show ?case by (simp add: tuples_def)
  next
    case (Cons q qs)
    have "at F' q = (if \<not> it_del (at F q) \<and> del (tuple_of D d (at F q)) then (at F q)\<lparr> it_del := True \<rparr> else at F q)"
      using conjunct2 [OF assms [unfolded marked_def], rule_format, of q] Cons.prems by simp
    then show ?case using Cons by (auto simp: tuples_def)
  qed
  then show ?thesis by simp
qed

lemma scan_all:
  assumes "rt_inv st t ls" and "rc0 \<noteq> DB_NOTFOUND" and "\<forall>it\<in>set (items (index st) t). stored D d it"
    and "MAX_ENTRIES * tb_ind st + 2 \<le> fuel"
  shows "\<exists>vs F. rt_scan fuel D rc0 del kr (st, d) = Ret (vs, st\<lparr> index := F \<rparr>) \<and> rt_inv (st\<lparr> index := F \<rparr>) t ls \<and>
     mset vs = tuples D d (mset (items (index st) t)) \<and>
     tuples D d (mset (items F t)) = filter_mset (\<lambda>x. \<not> del x) (tuples D d (mset (items (index st) t))) \<and>
     (\<forall>it\<in>set (items F t). stored D d it)"
proof -
  let ?F = "index st" and ?ps = "pos (index st) ls"
  have ml: "mset ls = mset (leaves t)" using assms(1) by (simp add: rt_inv_def)
  note sz = inv_sizes [OF assms(1)]
  have "length ?ps = length (pos ?F (leaves t))" using arg_cong [OF mset_pos [OF ml, of ?F], of size] by simp
  then have len: "length ?ps + 2 \<le> fuel" using sz(2) assms(4) by simp
  have d: "distinct ?ps" using pos_distinct sz(3) mset_eq_imp_distinct_iff [OF ml] by blast
  have it: "set (items ?F t) = at ?F ` set ?ps" using arg_cong [OF items_chain [OF assms(1)], of set_mset] by simp
  have sto: "\<forall>q\<in>set ?ps. stored D d (at ?F q)" using assms(3) unfolding it by blast
  obtain rtc where o: "rtree_cursor_open st = Ret (0, rtc)"
  proof -
    have i: "ls \<noteq> []" "rt_lptr st = hd ls * BLOCKSZ" using assms(1) by (simp_all add: rt_inv_def)
    have "hd ls \<in> set ls" using i(1) by simp
    then obtain n where "?F (hd ls) = Some (Node n)" by (rule inv_leaf [OF assms(1)])
    then have "\<exists>rtc. rtree_cursor_open st = Ret (0, rtc)" using i(2) by (simp add: rtree_cursor_open_def read_blk_def)
    then show ?thesis using that by blast
  qed
  have "length ?ps \<le> fuel" using len by simp
  note ft = first_tuple [OF assms(1) this assms(2) sto, of kr rtc]
  have "\<exists>F. rt_scan fuel D rc0 del kr (st, d) = Ret (seen D d ?F ?ps, st\<lparr> index := F \<rparr>) \<and> rt_inv (st\<lparr> index := F \<rparr>) t ls \<and>
      marked D d del ?ps ?F F"
  proof (cases "dropWhile (\<lambda>q. it_del (at ?F q)) ?ps")
    case Nil
    then have none: "\<forall>q\<in>set ?ps. it_del (at ?F q)" by (simp add: dropWhile_eq_Nil_conv)
    obtain x rtc' where "rtree_cursor_get fuel D rc0 DB_FIRST kr rtc (st, d) = Ret (DB_NOTFOUND, kr, x, rtc')"
      using ft unfolding Nil by auto
    moreover obtain f where "fuel = Suc f" using len by (cases fuel) auto
    ultimately have "rt_scan fuel D rc0 del kr (st, d) = Ret ([], st)" using o by (simp add: rt_scan_def DB_NOTFOUND_def)
    moreover have "seen D d ?F ?ps = []" using skip_deleted(1) [where ps = "[]", OF none] by (simp add: seen_def)
    moreover have "marked D d del ?ps ?F ?F" using none by (auto simp: marked_def)
    ultimately show ?thesis using assms(1) by (intro exI [of _ ?F]) simp
  next
    case (Cons q rs)
    obtain pre where r: "?ps = pre @ q # rs" "\<forall>x\<in>set pre. it_del (at ?F x)" and q: "\<not> it_del (at ?F q)"
      using Cons set_takeWhileD unfolding dropWhile_eq_Cons_conv by (metis (no_types, lifting))
    obtain rtc' where g: "rtree_cursor_get fuel D rc0 DB_FIRST kr rtc (st, d) =
        Ret (0, it_rect (at ?F q), Some (snd (tuple_of D d (at ?F q))), rtc')" "stands st ls rtc' q rs"
      using ft unfolding Cons by auto
    have pre: "distinct (q # rs)" "\<forall>x\<in>set (q # rs). stored D d (at ?F x)" "length rs < fuel" "length rs + 2 \<le> fuel"
      using d sto len unfolding r(1) by simp_all
    obtain F where "scan_loop fuel fuel D del (0, it_rect (at ?F q), Some (snd (tuple_of D d (at ?F q))), rtc') st d =
        Ret (seen D d ?F (q # rs), st\<lparr> index := F \<rparr>)" "rt_inv (st\<lparr> index := F \<rparr>) t ls" "marked D d del (q # rs) ?F F"
      using scan_rest [OF assms(1) g(2) q pre] by blast
    then show ?thesis unfolding r(1) skip_deleted [OF r(2)] using o g(1) by (intro exI [of _ F]) (simp add: rt_scan_def)
  qed
  then obtain F where F: "rt_scan fuel D rc0 del kr (st, d) = Ret (seen D d ?F ?ps, st\<lparr> index := F \<rparr>)"
    "rt_inv (st\<lparr> index := F \<rparr>) t ls" "marked D d del ?ps ?F F" by blast
  have pF: "pos F ls = ?ps" using F(3) by (intro pos_cong) (simp add: marked_def)
  have iF: "mset (items F t) = image_mset (at F) (mset ?ps)" using items_chain [OF F(2)] pF by simp
  have "\<forall>it\<in>set (items F t). stored D d it"
  proof
    fix it assume "it \<in> set (items F t)"
    then obtain q where "q \<in> set ?ps" "it = at F q" using arg_cong [OF iF, of set_mset] by auto
    then show "stored D d it"
      using sto conjunct2 [OF F(3) [unfolded marked_def], rule_format, of q] by (auto simp: stored_def)
  qed
  then show ?thesis
    using F marked_tuples [OF F(3)] seen_tuples [of D d ?F ?ps] items_chain [OF assms(1)] iF by (intro exI [of _ "seen D d ?F ?ps"] exI [of _ F]) simp
qed

section \<open>Tuples that are put\<close>

primrec rt_puts ::
    "nat \<Rightarrow> (int \<Rightarrow> int) \<Rightarrow> 'd tuple_db \<Rightarrow> (Rect \<times> string) list \<Rightarrow> rtree \<times> 'd \<Rightarrow> (rtree \<times> 'd) outcome" where
  "rt_puts fuel fl D [] w = Ret w"
| "rt_puts fuel fl D (x # xs) w =
     (case rtree_put fuel fl D (fst x) (snd x) 0 w of
        Ret (rc, w') \<Rightarrow> if rc = 0 then rt_puts fuel fl D xs w' else Crash
      | Crash \<Rightarrow> Crash
      | NoFuel \<Rightarrow> NoFuel)"

text \<open>The tree holds undeleted entries for the tuples \<open>M\<close>, all of them in the database.\<close>

definition key_tuples :: "'d tuple_db \<Rightarrow> 'd \<Rightarrow> (Rect \<times> nat) multiset \<Rightarrow> (Rect \<times> string) multiset" where
  "key_tuples D d K = image_mset (\<lambda>(r, p). (r, snd (db_get D d p))) K"

definition tree_holds :: "'d tuple_db \<Rightarrow> rtree \<times> 'd \<Rightarrow> (Rect \<times> string) multiset \<Rightarrow> bool" where
  "tree_holds D w M \<longleftrightarrow> (\<exists>t ls K. rt_inv (fst w) t ls \<and> keys (items (index (fst w)) t) = K \<and>
     live (items (index (fst w)) t) = K \<and> (\<forall>x\<in>#K. fst (db_get D (snd w) (snd x)) = 0) \<and> key_tuples D (snd w) K = M)"

lemma rt_inv_tplsz: "rt_inv (st\<lparr> tplsz := z \<rparr>) t ls = rt_inv st t ls"
  by (simp add: rt_inv_def rt_tree_def space_def glob_def)

lemma key_tuples_put:
  assumes "\<forall>x\<in>#K. fst (db_get D d (snd x)) = 0" and "fst (db_get D d k) \<noteq> 0" and "db_get D d' k = (0, x)"
    and "\<forall>j. j \<noteq> k \<longrightarrow> db_get D d' j = db_get D d j"
  shows "key_tuples D d' (add_mset (r, k) K) = add_mset (r, x) (key_tuples D d K)"
    and "\<forall>x\<in>#add_mset (r, k) K. fst (db_get D d' (snd x)) = 0"
proof -
  have same: "db_get D d' (snd y) = db_get D d (snd y)" if "y \<in># K" for y using assms(1,2,4) that by metis
  then have "key_tuples D d' K = key_tuples D d K" by (auto simp: key_tuples_def intro!: image_mset_cong)
  then show "key_tuples D d' (add_mset (r, k) K) = add_mset (r, x) (key_tuples D d K)" using assms(3) by (simp add: key_tuples_def)
  show "\<forall>x\<in>#add_mset (r, k) K. fst (db_get D d' (snd x)) = 0" using same assms(1,3) by auto
qed

lemma put_runs:
  assumes "recno D holds" and "holds d n" and "n + 1 < uint_max" and "tplsz st = 0 \<or> tplsz st = length x"
  obtains k d' where "holds d' (Suc n)" "fst (db_get D d k) \<noteq> 0" "db_get D d' k = (0, x)" "\<forall>j. j \<noteq> k \<longrightarrow> db_get D d' j = db_get D d j"
    "rtree_put fuel fl D r x 0 (st, d) = (case insert_rtree_aux fl r k (st\<lparr> tplsz := length x \<rparr>) of
       Ret st' \<Rightarrow> Ret (0, st', d') | Crash \<Rightarrow> Crash | NoFuel \<Rightarrow> NoFuel)"
proof -
  have "holds d n \<and> n + 1 < uint_max" using assms(2,3) by simp
  then obtain k d' where k: "db_put D d x = (0, k, d')" "holds d' (Suc n)" "fst (db_get D d k) \<noteq> 0" "db_get D d' k = (0, x)"
    "\<forall>j. j \<noteq> k \<longrightarrow> db_get D d' j = db_get D d j"
    using assms(1) unfolding recno_def by meson
  have "(if tplsz st = 0 then st\<lparr> tplsz := length x \<rparr> else st) = st\<lparr> tplsz := length x \<rparr>" using assms(4) by auto
  then have "rtree_put fuel fl D r x 0 (st, d) = (case insert_rtree_aux fl r k (st\<lparr> tplsz := length x \<rparr>) of
       Ret st' \<Rightarrow> Ret (0, st', d') | Crash \<Rightarrow> Crash | NoFuel \<Rightarrow> NoFuel)"
    using k(1) by (simp add: rtree_put_def insert_rtree_def tuple_put_def Let_def)
  then show ?thesis using that k(2-5) by blast
qed

lemma put_step:
  assumes "rounding fl" and "recno D holds" and "holds d n" and "n + 1 < uint_max" and "tplsz st = 0 \<or> tplsz st = length x"
    and "tree_holds D (st, d) M"
  shows "\<exists>st' d'. rtree_put fuel fl D r x 0 (st, d) = Ret (0, st', d') \<and> holds d' (Suc n) \<and> tplsz st' = length x \<and>
     tree_holds D (st', d') (add_mset (r, x) M)"
proof -
  obtain t ls K where K: "rt_inv st t ls" "keys (items (index st) t) = K" "live (items (index st) t) = K"
    "\<forall>x\<in>#K. fst (db_get D d (snd x)) = 0" "key_tuples D d K = M" using assms(6) by (auto simp: tree_holds_def)
  obtain k d' where k: "holds d' (Suc n)" "fst (db_get D d k) \<noteq> 0" "db_get D d' k = (0, x)" "\<forall>j. j \<noteq> k \<longrightarrow> db_get D d' j = db_get D d j"
    "rtree_put fuel fl D r x 0 (st, d) = (case insert_rtree_aux fl r k (st\<lparr> tplsz := length x \<rparr>) of
       Ret st' \<Rightarrow> Ret (0, st', d') | Crash \<Rightarrow> Crash | NoFuel \<Rightarrow> NoFuel)"
    by (rule put_runs [OF assms(2-5)])
  let ?st = "st\<lparr> tplsz := length x \<rparr>"
  have "rt_inv ?st t ls" using K(1) by (simp only: rt_inv_tplsz)
  from insert_step [OF assms(1) this, of r k] obtain st' t' ls' where s: "insert_rtree_aux fl r k ?st = Ret st'" "rt_inv st' t' ls'"
    "keys (items (index st') t') = add_mset (r, k) K" "add_mset (r, k) K \<subseteq># live (items (index st') t')"
    using K(2,3) by auto
  have "live (items (index st') t') \<subseteq># add_mset (r, k) K"
    unfolding s(3) [symmetric] by (simp add: live_def image_mset_subseteq_mono mset_filter)
  then have "live (items (index st') t') = add_mset (r, k) K" using s(4) by (metis subset_mset.order_antisym)
  then have "tree_holds D (st', d') (add_mset (r, x) M)"
    unfolding tree_holds_def fst_conv snd_conv using s(2,3) key_tuples_put [OF K(4) k(2-4), of r] K(5)
    by (intro exI [of _ t'] exI [of _ ls'] exI [of _ "add_mset (r, k) K"] conjI) simp_all
  then show ?thesis using k(1,5) s(1) tplsz_insert [OF s(1)] by simp
qed

lemma first_put:
  assumes "recno D holds" and "holds d n" and "n + 1 < uint_max" and "blank st"
  shows "\<exists>st' d'. rtree_put fuel fl D r x 0 (init_rtree st, d) = Ret (0, st', d') \<and> holds d' (Suc n) \<and> tplsz st' = length x \<and>
     tree_holds D (st', d') {#(r, x)#}"
proof -
  let ?st = "(init_rtree st)\<lparr> tplsz := length x \<rparr>"
  have "tplsz (init_rtree st) = 0 \<or> tplsz (init_rtree st) = length x" by (simp add: init_rtree_def)
  then obtain k d' where k: "holds d' (Suc n)" "fst (db_get D d k) \<noteq> 0" "db_get D d' k = (0, x)" "\<forall>j. j \<noteq> k \<longrightarrow> db_get D d' j = db_get D d j"
    "rtree_put fuel fl D r x 0 (init_rtree st, d) = (case insert_rtree_aux fl r k ?st of
       Ret st' \<Rightarrow> Ret (0, st', d') | Crash \<Rightarrow> Crash | NoFuel \<Rightarrow> NoFuel)"
    by (rule put_runs [OF assms(1-3)])
  have "blank ?st" "fb_ind ?st = 1" "tb_ind ?st = 1" "rt_lptr ?st = BLOCKSZ"
    using assms(4) by (simp_all add: blank_def glob_def init_rtree_def)
  from insert_first [OF this, of fl r k] obtain st' where s: "insert_rtree_aux fl r k ?st = Ret st'" "rt_inv st' (SLeaf 1) [1]"
    "items (index st') (SLeaf 1) = [\<lparr> it_rect = r, it_ptr = k, it_del = False \<rparr>]" by blast
  have "tree_holds D (st', d') {#(r, x)#}"
    unfolding tree_holds_def fst_conv snd_conv
    by (intro exI [of _ "SLeaf 1"] exI [of _ "[1]"] exI [of _ "{#(r, k)#}"] conjI s(2))
      (simp_all only: s(3), simp_all add: live_Cons key_tuples_def k(3))
  then show ?thesis using k(1,5) s(1) tplsz_insert [OF s(1)] by simp
qed

lemma puts_hold:
  assumes "rounding fl" and "recno D holds" and "holds d n" and "n + length ps + 1 < uint_max" and "tplsz st = sz"
    and "\<forall>x\<in>set ps. length (snd x) = sz" and "tree_holds D (st, d) M"
  shows "\<exists>st' d'. rt_puts fuel fl D ps (st, d) = Ret (st', d') \<and> tree_holds D (st', d') (mset ps + M)"
  using assms(3-7)
proof (induction ps arbitrary: st d n M)
  case Nil
  then show ?case by simp
next
  case (Cons x ps)
  have pre: "tplsz st = 0 \<or> tplsz st = length (snd x)" "n + 1 < uint_max" using Cons.prems(2-4) by auto
  obtain st1 d1 where s: "rtree_put fuel fl D (fst x) (snd x) 0 (st, d) = Ret (0, st1, d1)" "holds d1 (Suc n)"
    "tplsz st1 = length (snd x)" "tree_holds D (st1, d1) (add_mset (fst x, snd x) M)"
    using put_step [OF assms(1,2) Cons.prems(1) pre(2,1) Cons.prems(5)] by blast
  have "tplsz st1 = sz" "Suc n + length ps + 1 < uint_max" "\<forall>x\<in>set ps. length (snd x) = sz" using s(3) Cons.prems(2,4) by simp_all
  then show ?case using Cons.IH [OF s(2) _ _ _ s(4)] s(1) by auto
qed

lemma holds_scan:
  assumes "tree_holds D (st, d) M" and "rc0 \<noteq> DB_NOTFOUND"
  shows "\<exists>t ls. rt_inv st t ls \<and> (\<forall>it\<in>set (items (index st) t). stored D d it) \<and> tuples D d (mset (items (index st) t)) = M"
proof -
  obtain t ls K where K: "rt_inv st t ls" "keys (items (index st) t) = K" "live (items (index st) t) = K"
    "\<forall>x\<in>#K. fst (db_get D d (snd x)) = 0" "key_tuples D d K = M" using assms(1) by (auto simp: tree_holds_def)
  have un: "\<forall>it\<in>set (items (index st) t). \<not> it_del it" using K(2,3) by (intro live_all) simp
  then have "filter_mset (\<lambda>it. \<not> it_del it) (mset (items (index st) t)) = mset (items (index st) t)"
    by (simp add: filter_mset_eq_conv)
  then have "tuples D d (mset (items (index st) t)) = image_mset (tuple_of D d) (mset (items (index st) t))"
    by (simp only: tuples_def)
  also have "\<dots> = key_tuples D d K"
    unfolding K(2) [symmetric] by (simp add: key_tuples_def multiset.map_comp comp_def tuple_of_def [abs_def])
  finally have "tuples D d (mset (items (index st) t)) = M" using K(5) by simp
  moreover have "\<forall>it\<in>set (items (index st) t). stored D d it"
    using K(4) unfolding K(2) [symmetric] by (auto simp: stored_def)
  ultimately show ?thesis using K(1) by blast
qed

section \<open>Properties\<close>

text \<open>
  C8: Tuples of one size that are put into an empty R-tree are all stored, and a cursor scan with
  \<open>DB_FIRST\<close> and \<open>DB_NEXT\<close> ends and returns every one of them with its rectangle exactly once, also
  if it deletes tuples under its cursor; a second scan returns exactly those that were not deleted.
\<close>

theorem scan_returns_tuples:
  assumes "rounding fl" and "blank st" and "recno D holds" and "holds d 0" and "length ps + 1 < uint_max"
    and "\<forall>x\<in>set ps. length (snd x) = sz" and "rc0 \<noteq> DB_NOTFOUND"
  shows "\<exists>st' d'. rt_puts g fl D ps (init_rtree st, d) = Ret (st', d') \<and>
     (\<forall>del kr fuel. MAX_ENTRIES * tb_ind st' + 2 \<le> fuel \<longrightarrow>
        (\<exists>vs st'' ws st3. rt_scan fuel D rc0 del kr (st', d') = Ret (vs, st'') \<and> mset vs = mset ps \<and>
           rt_scan fuel D rc0 (\<lambda>x. False) kr (st'', d') = Ret (ws, st3) \<and> mset ws = mset (filter (\<lambda>x. \<not> del x) ps)))"
proof (cases ps)
  case Nil
  have "\<exists>st3. rt_scan fuel D rc0 del kr (init_rtree st, d) = Ret ([], init_rtree st)"
    if "2 \<le> fuel" for fuel del kr
    using that by (cases fuel) (simp_all add: rt_scan_def rtree_cursor_open_def rtree_cursor_get_def init_rtree_def DB_NOTFOUND_def Let_def)
  then show ?thesis using Nil by (intro exI [of _ "init_rtree st"] exI [of _ d]) auto
next
  case (Cons x xs)
  have "0 + 1 < uint_max" using assms(5) by simp
  from first_put [OF assms(3,4) this assms(2), of g fl "fst x" "snd x"]
  obtain st1 d1 where p: "rtree_put g fl D (fst x) (snd x) 0 (init_rtree st, d) = Ret (0, st1, d1)" "holds d1 (Suc 0)"
    "tplsz st1 = length (snd x)" "tree_holds D (st1, d1) {#(fst x, snd x)#}" by blast
  have pre: "Suc 0 + length xs + 1 < uint_max" "tplsz st1 = sz" "\<forall>x\<in>set xs. length (snd x) = sz"
    using assms(5,6) p(3) Cons by simp_all
  obtain st' d' where r: "rt_puts g fl D xs (st1, d1) = Ret (st', d')" "tree_holds D (st', d') (mset xs + {#(fst x, snd x)#})"
    using puts_hold [OF assms(1,3) p(2) pre p(4)] by blast
  then have h: "tree_holds D (st', d') (mset ps)" by (simp add: Cons)
  have run: "rt_puts g fl D ps (init_rtree st, d) = Ret (st', d')" using p(1) r(1) Cons by simp
  obtain t ls where t: "rt_inv st' t ls" "\<forall>it\<in>set (items (index st') t). stored D d' it"
    "tuples D d' (mset (items (index st') t)) = mset ps" using holds_scan [OF h assms(7)] by blast
  have "\<exists>vs st'' ws st3. rt_scan fuel D rc0 del kr (st', d') = Ret (vs, st'') \<and> mset vs = mset ps \<and>
      rt_scan fuel D rc0 (\<lambda>x. False) kr (st'', d') = Ret (ws, st3) \<and> mset ws = mset (filter (\<lambda>x. \<not> del x) ps)"
    if f: "MAX_ENTRIES * tb_ind st' + 2 \<le> fuel" for del kr fuel
  proof -
    obtain vs F where s: "rt_scan fuel D rc0 del kr (st', d') = Ret (vs, st'\<lparr> index := F \<rparr>)" "rt_inv (st'\<lparr> index := F \<rparr>) t ls"
      "mset vs = mset ps" "tuples D d' (mset (items F t)) = filter_mset (\<lambda>x. \<not> del x) (mset ps)" "\<forall>it\<in>set (items F t). stored D d' it"
      using scan_all [OF t(1) assms(7) t(2) f, of del kr] unfolding t(3) by blast
    have "\<forall>it\<in>set (items (index (st'\<lparr> index := F \<rparr>)) t). stored D d' it" "MAX_ENTRIES * tb_ind (st'\<lparr> index := F \<rparr>) + 2 \<le> fuel"
      using s(5) f by simp_all
    from scan_all [OF s(2) assms(7) this, of "\<lambda>x. False" kr] obtain ws G where
      "rt_scan fuel D rc0 (\<lambda>x. False) kr (st'\<lparr> index := F \<rparr>, d') = Ret (ws, st'\<lparr> index := F \<rparr>\<lparr> index := G \<rparr>)"
      "mset ws = tuples D d' (mset (items F t))" by auto
    then show ?thesis using s(1,3,4) by (metis mset_filter)
  qed
  then show ?thesis using run by blast
qed

text \<open>A database of record numbers: the list of its records, numbered from 1.\<close>

definition list_db :: "string list tuple_db" where
  "list_db = \<lparr> db_put = (\<lambda>d x. (0, Suc (length d), d @ [x])),
     db_get = (\<lambda>d k. if 0 < k \<and> k \<le> length d then (0, d ! (k - 1)) else (DB_NOTFOUND, [])) \<rparr>"

lemma list_db_recno: "recno list_db (\<lambda>d n. length d = n)"
proof -
  have "db_get list_db (d @ [x]) j = db_get list_db d j" if "j \<noteq> Suc (length d)" for d x j
    using that by (cases j) (auto simp: list_db_def nth_append)
  then show ?thesis by (auto simp: recno_def list_db_def DB_NOTFOUND_def)
qed

theorem scan_returns_tuples_witness:
  "\<exists>st' d' vs st'' ws st3.
     rt_puts 0 id list_db (map (\<lambda>i. (\<lparr> x_ul = int i, y_ul = 4, x_lr = int i + 3, y_lr = 2 \<rparr>, ''data'')) [0..<300])
       (init_rtree rt_static, []) = Ret (st', d') \<and>
     rt_scan (MAX_ENTRIES * tb_ind st' + 2) list_db 1 (\<lambda>x. x_ul (fst x) < 100) (it_rect zero_item) (st', d') = Ret (vs, st'') \<and>
     mset vs = mset (map (\<lambda>i. (\<lparr> x_ul = int i, y_ul = 4, x_lr = int i + 3, y_lr = 2 \<rparr>, ''data'')) [0..<300]) \<and>
     rt_scan (MAX_ENTRIES * tb_ind st' + 2) list_db 1 (\<lambda>x. False) (it_rect zero_item) (st'', d') = Ret (ws, st3) \<and>
     mset ws = mset (filter (\<lambda>x. \<not> x_ul (fst x) < 100)
       (map (\<lambda>i. (\<lparr> x_ul = int i, y_ul = 4, x_lr = int i + 3, y_lr = 2 \<rparr>, ''data'')) [0..<300]))"
proof -
  let ?ps = "map (\<lambda>i. (\<lparr> x_ul = int i, y_ul = 4, x_lr = int i + 3, y_lr = 2 \<rparr>, ''data'')) [0..<300]"
  have a: "length ([] :: string list) = 0" "length ?ps + 1 < uint_max" "\<forall>x\<in>set ?ps. length (snd x) = 4" "(1::int) \<noteq> DB_NOTFOUND"
    by (simp, simp add: uint_max_def, unfold set_map, auto, simp add: DB_NOTFOUND_def)
  from scan_returns_tuples [OF rounding_id blank_static list_db_recno a]
  obtain st' d' where s: "rt_puts 0 id list_db ?ps (init_rtree rt_static, []) = Ret (st', d')"
    "\<forall>del kr fuel. MAX_ENTRIES * tb_ind st' + 2 \<le> fuel \<longrightarrow>
        (\<exists>vs st'' ws st3. rt_scan fuel list_db 1 del kr (st', d') = Ret (vs, st'') \<and> mset vs = mset ?ps \<and>
           rt_scan fuel list_db 1 (\<lambda>x. False) kr (st'', d') = Ret (ws, st3) \<and> mset ws = mset (filter (\<lambda>x. \<not> del x) ?ps))"
    by blast
  from s(2) [rule_format, OF order_refl, of "\<lambda>x. x_ul (fst x) < 100" "it_rect zero_item"] s(1) show ?thesis by blast
qed

end
