(* ===== verification/Spec2Isabelle.thy ===== *)
theory Spec2Isabelle
  imports DriverLive DrvMgr SqlTypes WinAggr RTreeScan
begin

text \<open>
  \<^bold>\<open>Stream Mill.\<close> Stream Mill is a data stream management system: continuous queries in an
  extended SQL are compiled to C++ functions (\<open>src/adl/sql\<close>), and an engine (\<open>src/adl/sql/esl\<close>)
  runs them on streams. This development models the engine from its tuples up to the manager of
  query graphs, and of the compiler the data structures every phase is built on.

  \<^bold>\<open>The parts and how they interact.\<close> Streams are \<^emph>\<open>buffers\<close> of tuples, on the heap or in a pool of
  shared memory; a \<^emph>\<open>buffer manager\<close> finds them by name. A \<^emph>\<open>statement\<close> reads input buffers and writes
  one output buffer: a compiled function, a join with windows, or one of two unions the engine
  executes itself. A \<^emph>\<open>driver\<close> connects statements to a query graph, kept as a state table with an
  entry per buffer, and executes it as a state machine that moves a tuple forward as far as it
  gets and then backtracks. The \<^emph>\<open>driver manager\<close> decides which driver a statement belongs to.

  The compiler keeps what it knows of a program in \<^emph>\<open>symbol tables\<close> with scopes over interned
  symbols, builds syntax trees and record types out of growable \<^emph>\<open>lists\<close>, and checks expressions
  by comparing and extending \<^emph>\<open>types\<close>, which share their objects by pointer.

  \<^bold>\<open>Conventions.\<close> Fallible code returns an option: \<open>None\<close> is undefined behaviour (a null or dangling
  pointer, the wrong member of a union, a read past the end); error codes of the source are values.
  Pointers are natural numbers and heaps association lists; block pointers of the R-tree, 32 bits in
  the code, are natural numbers too, which is right for index files below 2 GB. Counters the code keeps in 32 bits are
  reduced with \<open>int32\<close>. Code outside the sources is a parameter: the shared-memory allocator and
  \<open>operator new\<close> (records \<open>mm_env\<close>, \<open>env\<close> with the law \<open>env_law\<close>: an address handed out is not in
  use), the compiled functions of statements (\<open>env_func\<close>), and the uninitialised time stamp of the
  unions (\<open>env_tv1\<close>).

  \<^bold>\<open>The theories.\<close>

  \<^item> \<open>Prelude\<close>: byte cells, \<open>memcpy\<close>, little-endian integers, C strings, 32-bit reduction,
    association lists, folds in the option monad.

  \<^item> \<open>Dbt\<close> (\<open>dbt.h\<close>, \<open>dbt.cc\<close>): time stamps as a linear order, tuples in their two layouts, all
    constructors and copies. The \<open>view\<close> of a tuple is what a reader can see; copies preserve it.

  \<^item> \<open>Buffer\<close> (\<open>buffer.h\<close>, \<open>buffer.cc\<close>): the base class with its clients, the heap buffer and the
    shared-memory buffer as a linked list in the pool. The locale \<open>fifo_buffer\<close> states what a buffer
    promises; both classes interpret it.

  \<^item> \<open>WindowBuf\<close> (\<open>windowBuf.cc\<close>): expiry of tuples of a window, by count with a 32-bit counter that
    wraps, and by time.

  \<^item> \<open>BufferMngr\<close>: the virtual calls, coded messages, and the dictionary sorted by \<open>strcmp\<close> and
    searched by bisection; locale \<open>buffer_dictionary\<close> with the map it implements.

  \<^item> \<open>BufWorld\<close>: all buffers over one pool. Operations on one buffer leave the others alone and the
    lists in the pool disjoint, so the buffers refine a family of queues.

  \<^item> \<open>Stmt\<close> (\<open>stmt.h\<close>, \<open>stmt.cc\<close>): statements and their execution. The timed union merges sorted
    inputs into a sorted output and loses nothing; the timeless union goes round robin.

  \<^item> \<open>Driver\<close> (\<open>driver.h\<close>, \<open>driver.cc\<close>): the state table, \<open>addStmt\<close>, \<open>dropStmt\<close>, \<open>setSink\<close>.

  \<^item> \<open>DriverGraph\<close>: the invariant \<open>graph_ok\<close> of the table, the set of \<open>edges\<close> it stands for, and that
    \<open>addStmt\<close> adds exactly the edges of the statement. Names of dummy entries are concatenations of
    two buffer names, so the theorem asks for names whose concatenations are unambiguous
    (\<open>names_ok\<close>; names of one fixed length are).

  \<^item> \<open>DriverRun\<close>: \<open>runState\<close> with its seven actions and the loop of \<open>run\<close> without a strategy. The
    recursion need not end, so it takes fuel; results are \<open>Ret\<close>, \<open>Crash\<close> or \<open>NoFuel\<close>. A run that
    returns has changed no more than flags, the fields \<open>in\<close> and \<open>back_buf\<close>, the buffers and the quota.

  \<^item> \<open>DriverLive\<close>: progress. For a driver with one statement fuel beyond the number of tuples plus
    four is enough for \<open>run\<close> to return, and the output is what the compiled function computes. Two
    theorems describe how an exhausted quota hangs a fork and strands tuples between statements.

  \<^item> \<open>DrvMgr\<close>: the driver manager with its maps of buffers and statements, the choice of a driver,
    its invariant, and what it does not register.

  \<^item> \<open>SymTab\<close> (\<open>table.cc\<close>, \<open>symbol.cc\<close>): the hash table of bindings threaded into a stack, interned
    symbols, scopes. The table refines a stack of bindings (locale \<open>binding_stack\<close>); ending a scope
    restores the table, ending a scope that was never begun pops everything and fails the assertion,
    and interning gives one symbol per string while the names stay in place.

  \<^item> \<open>NtList\<close> (\<open>list.cc\<close>): growable arrays as sequences (locale \<open>object_list\<close>), with the positions,
    full arrays and failed enlargements at which the code departs from them.

  \<^item> \<open>SqlTypes\<close> (\<open>types.cc\<close>): type objects in an explicit store. \<open>extendType\<close> ends, given fuel above
    the rank of the target, and changes no type object; \<open>makeCompatibleType\<close> makes an \<open>int\<close> real, and
    \<open>Ty_compatible\<close>, whose second condition assigns the number zero, compares kinds only and makes its
    first argument a record type.

  \<^item> \<open>ImRel\<close> (\<open>im_db\<close>): in-memory relations as circular lists over a pool of slots, with cursors. A
    scan may delete under its own cursor, although the cursor then stands on a freed slot.

  \<^item> \<open>WinAggr\<close> (\<open>winbuf.cc\<close>, \<open>semant_aggr.cc\<close>): windows over these relations, and what the code
    emitted for the built-in aggregates does with one. The value it maintains is that of the last
    tuples computed from scratch; the loops need fuel for one tuple more than the window holds.

  \<^item> \<open>RTree\<close> (\<open>src/adl/rtree\<close>): the R-tree that indexes tables by rectangles: nodes in the blocks of a file,
    the choice of a leaf, the quadratic split, the adjustment of covering rectangles up to the root,
    the list of free blocks, and the search. The buffers the code shares between calls are part of
    the state, since what they hold is written into nodes. Doubles hold integers; their rounding is a
    parameter that may at most double a value (\<open>rounding\<close>, in \<open>RTreeSplit\<close>).

  \<^item> \<open>RTreeInv\<close>: the tree shape that the blocks stand for, covering rectangles, and the search under both.
    Fuel above the height is enough, and the number of blocks is above the height.

  \<^item> \<open>RTreeSplit\<close>: the split of a node into two halves that keep every entry and have at least \<open>m\<close> of
    them each, and the chain of free blocks.

  \<^item> \<open>RTreeIns\<close>: paths from a leaf to the root; the adjustment of the tree along them with and without splits.

  \<^item> \<open>RTreeMain\<close>: the doubly linked list of leaves, one insertion, and runs of insertions from an empty tree.

  \<^item> \<open>RTreeApi\<close> (\<open>interface.cc\<close>, \<open>tupledb.cc\<close>): put, get, deletion and cursors of the R-tree. The database
    of tuples is a parameter with the law \<open>recno\<close>.

  \<^item> \<open>RTreeDel\<close>: deletion marks, the depth-first search with its stack, and what a deletion leaves. Two
    rounds of the search per block and one round of deletion per entry bound the fuel.

  \<^item> \<open>RTreeScan\<close>: cursors along the chain of leaves; a scan returns what was put.

  \<^bold>\<open>Not modelled.\<close> The scheduling strategies and the monitor (\<open>strategy.cc\<close>, \<open>monitor.cc\<close>: optional
  schedulers over floating-point cost models), the process around the engine (\<open>querySchdl.cc\<close>,
  \<open>ios.cc\<close>: sockets, files, threads), the phases of the compiler (\<open>semant.cc\<close>, \<open>trans2C.cc\<close> and the
  generated parser: they print C++), copies of syntax trees and their input and output, hash-indexed
  in-memory relations, aggregates over \<open>double\<close> values or time ranges, files and condensing of the R-tree, and everything
  outside \<open>src/adl\<close>. Locks are modelled as a flag; interleavings of several processes are not.
\<close>

end
